(* ===== verification/ApPa_Prelude.thy ===== *)
theory ApPa_Prelude
  imports Main "HOL-Library.Word"
begin

text \<open>
  Shared vocabulary of the development: the fixed-width C types of
  \<^verbatim>\<open>klibc/stdint.h\<close>, the loop shapes of the C sources (a counted loop is a
  \<^const>\<open>fold\<close> over its index list, a counted loop with an early \<^verbatim>\<open>return\<close> is
  \<open>first_some\<close>), and the lemmas on lists and machine words that several
  components use.
\<close>

unbundle bit_operations_syntax

named_theorems word_unat \<open>moving unsigned word arithmetic to natural numbers\<close>

text \<open>Sets of frame numbers such as \<open>{..<4096}\<close> stay folded.\<close>

declare lessThan_nat_numeral [simp del] atMost_nat_numeral [simp del]

section \<open>C types\<close>

type_synonym u8 = "8 word"
type_synonym u16 = "16 word"
type_synonym u32 = "32 word"

text \<open>Division of a C \<^verbatim>\<open>int\<close> truncates towards zero.\<close>

definition c_div :: "int \<Rightarrow> int \<Rightarrow> int" where
  "c_div a b = sgn a * sgn b * (\<bar>a\<bar> div \<bar>b\<bar>)"

lemma c_div_nonneg [simp]: "0 \<le> a \<Longrightarrow> 0 < b \<Longrightarrow> c_div a b = a div b"
  by (auto simp: c_div_def sgn_if)

section \<open>Loops\<close>

text \<open>
  \<^verbatim>\<open>for (x in xs) if (cond) return v;\<close> with \<open>f x = Some v\<close> when iteration \<open>x\<close>
  returns and \<open>None\<close> when it falls through to the next one.
\<close>

primrec first_some :: "('a \<Rightarrow> 'b option) \<Rightarrow> 'a list \<Rightarrow> 'b option" where
  "first_some f [] = None"
| "first_some f (x # xs) = (case f x of Some v \<Rightarrow> Some v | None \<Rightarrow> first_some f xs)"

lemma first_some_None_iff: "first_some f xs = None \<longleftrightarrow> (\<forall>x \<in> set xs. f x = None)"
  by (induction xs) (auto split: option.splits)

lemma first_some_SomeD:
  assumes "first_some f xs = Some v"
  obtains ys x zs where "xs = ys @ x # zs" "f x = Some v" "\<forall>y \<in> set ys. f y = None"
proof -
  have "\<exists>ys x zs. xs = ys @ x # zs \<and> f x = Some v \<and> (\<forall>y \<in> set ys. f y = None)"
    using assms
  proof (induction xs)
    case Nil
    then show ?case by simp
  next
    case (Cons a xs)
    show ?case
    proof (cases "f a")
      case None
      with Cons obtain ys x zs
        where "xs = ys @ x # zs" "f x = Some v" "\<forall>y \<in> set ys. f y = None"
        by auto
      with None have "a # xs = (a # ys) @ x # zs \<and> f x = Some v \<and> (\<forall>y \<in> set (a # ys). f y = None)"
        by simp
      then show ?thesis by blast
    next
      case (Some w)
      with Cons.prems have "a # xs = [] @ a # xs \<and> f a = Some v \<and> (\<forall>y \<in> set []. f y = None)"
        by simp
      then show ?thesis by blast
    qed
  qed
  with that show thesis by blast
qed

text \<open>Over an index range, the loop returns at the least index that returns.\<close>

lemma first_some_upt_SomeD:
  assumes "first_some f [0..<n] = Some v"
  obtains i where "i < n" "f i = Some v" "\<forall>j < i. f j = None"
proof -
  from assms obtain ys i zs
    where split: "[0..<n] = ys @ i # zs" and i: "f i = Some v" and pre: "\<forall>y \<in> set ys. f y = None"
    by (rule first_some_SomeD)
  have len: "length ys < n"
    using arg_cong [OF split, of length] by simp
  have idx: "i = length ys"
    using arg_cong [OF split, of "\<lambda>l. l ! length ys"] len by (simp add: nth_append)
  have "ys = [0..<length ys]"
    using arg_cong [OF split, of "take (length ys)"] len by (simp add: take_upt)
  with idx have "set ys = {..<i}" by (metis atLeast_upt)
  with pre have "\<forall>j < i. f j = None" by auto
  with len idx i show thesis using that by blast
qed

section \<open>Machine words\<close>

lemmas [word_unat] = unat_div_distrib unat_mod_distrib

lemma unat_less_2p32 [simp]: "unat (w :: u32) < 4294967296"
  using unsigned_less [of w] by simp

lemma unat_of_nat_u32 [word_unat]: "n < 4294967296 \<Longrightarrow> unat (of_nat n :: u32) = n"
  by (simp add: unat_of_nat take_bit_nat_eq_self)

lemma unat_add_u32 [word_unat]:
  "unat a + unat b < 4294967296 \<Longrightarrow> unat (a + b :: u32) = unat a + unat b"
  by (simp add: unat_word_ariths)

lemma unat_mult_u32 [word_unat]:
  "unat a * unat b < 4294967296 \<Longrightarrow> unat (a * b :: u32) = unat a * unat b"
  by (simp add: unat_word_ariths)

lemma unat_sub_u32 [word_unat]:
  "unat b \<le> unat a \<Longrightarrow> unat (a - b :: u32) = unat a - unat b"
  by (simp add: unat_sub word_le_nat_alt)

lemma unat_and_mask_u32: "unat (w AND mask n :: u32) = unat w mod 2 ^ n"
proof -
  have "unat (w AND mask n) = take_bit n (unat w)"
    by (simp only: take_bit_eq_mask [symmetric] unsigned_take_bit_eq)
  then show ?thesis by (simp only: take_bit_eq_mod)
qed

lemma unat_and_255 [word_unat]: "unat (w AND 0xFF :: u32) = unat w mod 256"
  using unat_and_mask_u32 [of w 8] by (simp add: mask_eq_exp_minus_1)

lemma unat_and_4095 [word_unat]: "unat (w AND 0xFFF :: u32) = unat w mod 4096"
  using unat_and_mask_u32 [of w 12] by (simp add: mask_eq_exp_minus_1)

lemma unat_and_1023 [word_unat]: "unat (w AND 0x3FF :: u32) = unat w mod 1024"
  using unat_and_mask_u32 [of w 10] by (simp add: mask_eq_exp_minus_1)

lemma unat_drop_bit_u32: "unat (drop_bit n w :: u32) = unat w div 2 ^ n"
proof -
  have "take_bit LENGTH(32) (unat w) = unat w" by (rule take_bit_nat_eq_self) (rule unsigned_less)
  then show ?thesis by (simp only: unsigned_drop_bit_eq) (simp only: drop_bit_eq_div)
qed

lemma unat_ucast_u8 [word_unat]: "unat (ucast (w :: u32) :: u8) = unat w mod 256"
  by (simp add: unsigned_ucast_eq take_bit_eq_mod)

lemma int_and_255: "k AND 255 = k mod (256 :: int)"
proof -
  have "(255 :: int) = mask 8" by (simp add: mask_eq_exp_minus_1)
  then have "k AND 255 = take_bit 8 k" by (simp only: take_bit_eq_mask)
  then show ?thesis by (simp add: take_bit_eq_mod)
qed

lemma u32_eq_iff_unat: "(a = b) \<longleftrightarrow> unat a = unat (b :: u32)"
  by (simp add: word_unat_eq_iff)

lemma u32_of_unat [simp]: "of_nat (unat w) = (w :: u32)"
  by simp

lemma of_nat_u32_eq_iff:
  "x < 4294967296 \<Longrightarrow> y < 4294967296 \<Longrightarrow> (of_nat x :: u32) = of_nat y \<longleftrightarrow> x = y"
  by (metis unat_of_nat_u32)

lemma u32_lt_iff_unat: "(a < b) \<longleftrightarrow> unat a < unat (b :: u32)"
  by (rule word_less_nat_alt)

lemma u32_le_iff_unat: "(a \<le> b) \<longleftrightarrow> unat a \<le> unat (b :: u32)"
  by (rule word_le_nat_alt)

lemmas u32_ord_unat = u32_eq_iff_unat u32_lt_iff_unat u32_le_iff_unat

end
