(* ===== verification/Digits.thy ===== *)
theory Digits
  imports ApPa_Prelude
begin

text \<open>
  Positional numerals. The sources convert an unsigned integer to text five times
  (\<^verbatim>\<open>utoa\<close>, \<^verbatim>\<open>itoa\<close>, \<^verbatim>\<open>uitoa\<close>, \<^verbatim>\<open>kprint_uint\<close>,
  \<^verbatim>\<open>print_int\<close>), each time emitting the digits least significant first and reversing
  the buffer in place. This theory holds the reference numeral they all compute, the in-place
  reversal loops, and the interface \<open>numeral_printer\<close> their shared guarantees follow from.
\<close>

section \<open>Reference numerals\<close>

text \<open>The digits of a number, least significant first; none for zero.\<close>

function digits_rev :: "nat \<Rightarrow> nat \<Rightarrow> nat list" where
  "digits_rev b n = (if b < 2 \<or> n = 0 then [] else n mod b # digits_rev b (n div b))"
  by pat_completeness auto
termination
  by (relation "measure snd") auto

declare digits_rev.simps [simp del]

lemma digits_rev_0 [simp]: "digits_rev b 0 = []"
  by (simp add: digits_rev.simps)

lemma digits_rev_step: "2 \<le> b \<Longrightarrow> 0 < n \<Longrightarrow> digits_rev b n = n mod b # digits_rev b (n div b)"
  by (subst digits_rev.simps) simp

lemma digits_rev_eq_Nil: "2 \<le> b \<Longrightarrow> digits_rev b n = [] \<longleftrightarrow> n = 0"
  by (subst digits_rev.simps) simp

lemma digits_rev_less: "2 \<le> b \<Longrightarrow> d \<in> set (digits_rev b n) \<Longrightarrow> d < b"
proof (induction b n rule: digits_rev.induct)
  case (1 b n)
  then show ?case
    by (cases "n = 0") (auto simp: digits_rev_step)
qed

lemma digits_rev_last: "2 \<le> b \<Longrightarrow> 0 < n \<Longrightarrow> last (digits_rev b n) \<noteq> 0"
proof (induction b n rule: digits_rev.induct)
  case (1 b n)
  show ?case
  proof (cases "n div b = 0")
    case True
    with 1 show ?thesis by (auto simp: digits_rev_step div_eq_0_iff)
  next
    case False
    with 1 show ?thesis by (auto simp: digits_rev_step digits_rev_eq_Nil)
  qed
qed

text \<open>The numerals of the sources: most significant first, and a lone zero for zero.\<close>

definition digits :: "nat \<Rightarrow> nat \<Rightarrow> nat list" where
  "digits b n = (if n = 0 then [0] else rev (digits_rev b n))"

definition digits_value :: "nat \<Rightarrow> nat list \<Rightarrow> nat" where
  "digits_value b ds = foldl (\<lambda>a d. a * b + d) 0 ds"

lemma digits_value_rev: "2 \<le> b \<Longrightarrow> foldl (\<lambda>a d. a * b + d) 0 (rev (digits_rev b n)) = n"
proof (induction b n rule: digits_rev.induct)
  case (1 b n)
  then show ?case
    by (cases "n = 0") (auto simp: digits_rev_step)
qed

lemma digits_value_digits: "2 \<le> b \<Longrightarrow> digits_value b (digits b n) = n"
  by (simp add: digits_value_def digits_def digits_value_rev)

lemma digits_nonempty [simp]: "2 \<le> b \<Longrightarrow> digits b n \<noteq> []"
  by (simp add: digits_def digits_rev_eq_Nil)

lemma digits_less: "2 \<le> b \<Longrightarrow> d \<in> set (digits b n) \<Longrightarrow> d < b"
  by (auto simp: digits_def digits_rev_less split: if_splits)

lemma digits_no_leading_zero: "2 \<le> b \<Longrightarrow> hd (digits b n) = 0 \<Longrightarrow> n = 0"
  by (cases "n = 0") (auto simp: digits_def hd_rev digits_rev_last)

lemma length_digits_rev: "2 \<le> b \<Longrightarrow> n < b ^ k \<Longrightarrow> length (digits_rev b n) \<le> k"
proof (induction k arbitrary: n)
  case 0
  then show ?case by simp
next
  case (Suc k)
  show ?case
  proof (cases "n = 0")
    case True
    then show ?thesis by simp
  next
    case False
    from Suc.prems have "n div b < b ^ k" by (simp add: less_mult_imp_div_less mult.commute)
    with Suc False show ?thesis by (simp add: digits_rev_step)
  qed
qed

section \<open>Reversing a buffer in place\<close>

definition swap :: "'a list \<Rightarrow> nat \<Rightarrow> nat \<Rightarrow> 'a list" where
  "swap xs i j = xs[i := xs ! j, j := xs ! i]"

lemma length_swap [simp]: "length (swap xs i j) = length xs"
  by (simp add: swap_def)

lemma nth_swap:
  "i < length xs \<Longrightarrow> j < length xs \<Longrightarrow> k < length xs \<Longrightarrow>
   swap xs i j ! k = (if k = i then xs ! j else if k = j then xs ! i else xs ! k)"
  by (auto simp: swap_def nth_list_update)

text \<open>
  Two pointers moving towards each other: \<^verbatim>\<open>while (start < end) { swap; start++; end--; }\<close>.
\<close>

function reverse_loop :: "nat \<Rightarrow> int \<Rightarrow> 'a list \<Rightarrow> 'a list" where
  "reverse_loop start end str =
     (if int start < end then reverse_loop (start + 1) (end - 1) (swap str start (nat end)) else str)"
  by pat_completeness auto
termination
  by (relation "measure (\<lambda>(s, e, _). nat (e - int s))") auto

declare reverse_loop.simps [simp del]

lemma reverse_loop_nth:
  assumes "end < int (length xs)" and "k < length xs"
  shows "reverse_loop start end xs ! k =
    (if start \<le> k \<and> int k \<le> end then xs ! (nat (int start + end) - k) else xs ! k)"
  using assms
proof (induction start "end" xs arbitrary: k rule: reverse_loop.induct)
  case (1 start "end" xs)
  show ?case
  proof (cases "int start < end")
    case True
    let ?ys = "swap xs start (nat end)"
    from True "1.prems"
    have IH: "reverse_loop (start + 1) (end - 1) ?ys ! k =
        (if start + 1 \<le> k \<and> int k \<le> end - 1 then ?ys ! (nat (int start + end) - k) else ?ys ! k)"
      by (subst "1.IH") auto
    from True "1.prems" have bounds: "start < length xs" "nat end < length xs" by auto
    show ?thesis
    proof (cases "start + 1 \<le> k \<and> int k \<le> end - 1")
      case True': True
      then have "nat (int start + end) - k < length xs"
        and "nat (int start + end) - k \<noteq> start" and "nat (int start + end) - k \<noteq> nat end"
        using True bounds by auto
      with True True' bounds IH show ?thesis
        by (subst reverse_loop.simps) (simp add: nth_swap)
    next
      case False': False
      then have "k = start \<or> k = nat end \<or> k < start \<or> nat end < k" using True by auto
      moreover have "nat (int start + end) - start = nat end" "nat (int start + end) - nat end = start"
        using True by auto
      ultimately show ?thesis
        using True False' bounds "1.prems" IH
        by (subst reverse_loop.simps) (auto simp: nth_swap)
    qed
  next
    case False
    then have "\<not> (start \<le> k \<and> int k \<le> end) \<or> nat (int start + end) - k = k" by auto
    with False show ?thesis
      by (subst reverse_loop.simps) auto
  qed
qed

lemma length_reverse_loop [simp]: "length (reverse_loop start end xs) = length xs"
proof (induction start "end" xs rule: reverse_loop.induct)
  case (1 start "end" xs)
  then show ?case by (subst reverse_loop.simps) auto
qed

text \<open>Started at both ends, the loop computes the list reversal.\<close>

lemma reverse_loop_rev: "reverse_loop 0 (int (length xs) - 1) xs = rev xs"
  by (rule nth_equalityI) (auto simp: reverse_loop_nth rev_nth nat_diff_distrib)

text \<open>The counted variant: \<^verbatim>\<open>for (j = 0; j < n / 2; j++) swap(j, n - 1 - j)\<close>.\<close>

definition reverse_half :: "'a list \<Rightarrow> 'a list" where
  "reverse_half xs =
     fold (\<lambda>j ys. swap ys j (length xs - 1 - j)) [0..<length xs div 2] xs"

lemma length_fold_swap [simp]: "length (fold (\<lambda>j ys. swap ys (f j) (g j)) js xs) = length xs"
  by (induction js arbitrary: xs) auto

lemma reverse_half_prefix:
  assumes "m \<le> n div 2" and "k < n" and "length xs = n"
  shows "fold (\<lambda>j ys. swap ys j (n - 1 - j)) [0..<m] xs ! k =
    (if k < m \<or> n - m \<le> k then xs ! (n - 1 - k) else xs ! k)"
  using assms(1,2)
proof (induction m arbitrary: k)
  case 0
  then show ?case by simp
next
  case (Suc m)
  let ?ys = "fold (\<lambda>j ys. swap ys j (n - 1 - j)) [0..<m] xs"
  have IH: "?ys ! i = (if i < m \<or> n - m \<le> i then xs ! (n - 1 - i) else xs ! i)" if "i < n" for i
    using Suc.IH [of i] Suc.prems that by simp
  from Suc.prems have m: "m < n" "n - 1 - m < n" "n - 1 - (n - 1 - m) = m"
      "\<not> n - m \<le> m" "\<not> n - 1 - m < m" "\<not> n - m \<le> n - 1 - m"
    by linarith+
  have "swap ?ys m (n - 1 - m) ! k =
      (if k = m then ?ys ! (n - 1 - m) else if k = n - 1 - m then ?ys ! m else ?ys ! k)"
    using m Suc.prems assms(3) by (intro nth_swap) simp_all
  moreover have "?ys ! (n - 1 - m) = xs ! (n - 1 - m)" "?ys ! m = xs ! m"
    using m Suc.prems IH [of m] IH [of "n - 1 - m"] by simp_all
  moreover have "k < Suc m \<or> n - Suc m \<le> k \<longleftrightarrow> k = m \<or> k = n - 1 - m \<or> k < m \<or> n - m \<le> k"
    using m Suc.prems by auto
  ultimately show ?case using IH [of k] m Suc.prems by auto
qed

lemma reverse_half_rev: "reverse_half xs = rev xs"
proof (rule nth_equalityI)
  show "length (reverse_half xs) = length (rev xs)"
    by (simp add: reverse_half_def)
  fix k assume "k < length (reverse_half xs)"
  then have k: "k < length xs" by (simp add: reverse_half_def)
  have nth: "reverse_half xs ! k =
      (if k < length xs div 2 \<or> length xs - length xs div 2 \<le> k then xs ! (length xs - 1 - k) else xs ! k)"
    using reverse_half_prefix [OF order.refl k refl] by (simp only: reverse_half_def)
  have mid: "length xs - 1 - k = k" if "\<not> (k < length xs div 2 \<or> length xs - length xs div 2 \<le> k)"
    using k that by linarith
  have "reverse_half xs ! k = xs ! (length xs - 1 - k)"
    unfolding nth using mid by (simp split: if_split)
  with k show "reverse_half xs ! k = rev xs ! k" by (simp add: rev_nth)
qed

section \<open>Digit characters and the printers' interface\<close>

text \<open>\<^verbatim>\<open>(rem > 9) ? (rem - 10) + 'a' : rem + '0'\<close>\<close>

definition digit_char :: "nat \<Rightarrow> char" where
  "digit_char d = (if d > 9 then char_of (d - 10 + 97) else char_of (d + 48))"

definition digit_of :: "char \<Rightarrow> nat" where
  "digit_of c = (if of_char c \<ge> (97 :: nat) then of_char c - 97 + 10 else of_char c - 48)"

definition parse_numeral :: "nat \<Rightarrow> string \<Rightarrow> nat" where
  "parse_numeral b s = digits_value b (map digit_of s)"

lemma digit_char_0: "digit_char 0 = CHR ''0''"
  by code_simp

lemma of_char_digit_char: "d < 36 \<Longrightarrow> of_char (digit_char d) = (if d > 9 then d + 87 else d + 48)"
  by (simp add: digit_char_def)

lemma digit_of_digit_char [simp]: "d < 36 \<Longrightarrow> digit_of (digit_char d) = d"
  by (auto simp: digit_of_def of_char_digit_char)

lemma digit_char_not_NUL: "d < 36 \<Longrightarrow> digit_char d \<noteq> CHR 0x00"
  using of_char_digit_char [of d] by (auto split: if_splits)

text \<open>
  The contract of a conversion routine: it prints the reference numeral. What the callers
  rely on follows once for all of them: the text is never empty, holds no terminator, fits
  the buffer the caller reserved, and determines the number.
\<close>

locale numeral_printer =
  fixes base :: nat and print :: "u32 \<Rightarrow> string"
  assumes base_range: "2 \<le> base" "base \<le> 36"
    and print_digits: "print w = map digit_char (digits base (unat w))"
begin

lemma print_nonempty: "print w \<noteq> []"
  by (simp add: print_digits base_range)

lemma print_no_NUL: "CHR 0x00 \<notin> set (print w)"
proof -
  have "d < 36" if "d \<in> set (digits base (unat w))" for d
    using digits_less [OF base_range(1) that] base_range(2) by simp
  then show ?thesis using digit_char_not_NUL by (force simp: print_digits)
qed

lemma parse_print: "parse_numeral base (print w) = unat w"
proof -
  have "map (digit_of \<circ> digit_char) (digits base (unat w)) = digits base (unat w)"
    using digits_less [OF base_range(1)] base_range(2) by (intro map_idI) fastforce
  then show ?thesis
    by (simp add: parse_numeral_def print_digits digits_value_digits base_range)
qed

lemma print_inj: "print v = print w \<longleftrightarrow> v = w"
  using parse_print [of v] parse_print [of w] by (metis u32_eq_iff_unat)

lemma length_print: "4294967296 \<le> base ^ k \<Longrightarrow> 1 \<le> k \<Longrightarrow> length (print w) \<le> k"
proof -
  assume k: "4294967296 \<le> base ^ k" "1 \<le> k"
  have "unat w < base ^ k" using unat_less_2p32 [of w] k by linarith
  then show ?thesis
    using k length_digits_rev [OF base_range(1)] by (auto simp: print_digits digits_def)
qed

end

end
