(* ===== verification/Klibc_String.thy ===== *)
theory Klibc_String
  imports Digits
begin

text \<open>
  \<^verbatim>\<open>klibc/string.c\<close>. A C pointer into an object is the list of the characters from
  the pointed-to element to the end of the object, so that a routine that walks off the object
  (a missing terminator, a destination that is too short) has the result \<open>None\<close>.
\<close>

abbreviation NUL :: char where
  "NUL \<equiv> CHR 0x00"

section \<open>String functions\<close>

fun strlen_loop :: "string \<Rightarrow> u32 \<Rightarrow> u32 option" where
  "strlen_loop [] len = None"
| "strlen_loop (c # cs) len = (if c = NUL then Some len else strlen_loop cs (len + 1))"

definition strlen :: "string \<Rightarrow> u32 option" where
  "strlen str = strlen_loop str 0"

fun strcmp :: "string \<Rightarrow> string \<Rightarrow> int option" where
  "strcmp (a # s1) (b # s2) =
     (if a \<noteq> NUL \<and> a = b then strcmp s1 s2 else Some (of_char a - of_char b))"
| "strcmp _ _ = None"

fun strncmp :: "string \<Rightarrow> string \<Rightarrow> nat \<Rightarrow> int option" where
  "strncmp s1 s2 0 = Some 0"
| "strncmp (a # s1) (b # s2) (Suc n) =
     (if a \<noteq> NUL \<and> a = b then strncmp s1 s2 n else Some (of_char a - of_char b))"
| "strncmp _ _ (Suc n) = None"

fun strcpy :: "string \<Rightarrow> string \<Rightarrow> string option" where
  "strcpy (d # dest) (c # src) =
     (if c = NUL then Some (NUL # dest) else map_option ((#) c) (strcpy dest src))"
| "strcpy _ _ = None"

text \<open>The second loop of \<^verbatim>\<open>strncpy\<close>: pad the rest of the \<open>n\<close> characters.\<close>

fun strncpy_pad :: "string \<Rightarrow> nat \<Rightarrow> string option" where
  "strncpy_pad dest 0 = Some dest"
| "strncpy_pad (d # dest) (Suc n) = map_option ((#) NUL) (strncpy_pad dest n)"
| "strncpy_pad [] (Suc n) = None"

fun strncpy :: "string \<Rightarrow> string \<Rightarrow> nat \<Rightarrow> string option" where
  "strncpy dest src 0 = Some dest"
| "strncpy (d # dest) (c # src) (Suc n) =
     (if c \<noteq> NUL then map_option ((#) c) (strncpy dest src n)
      else strncpy_pad (d # dest) (Suc n))"
| "strncpy _ _ (Suc n) = None"

fun strcat :: "string \<Rightarrow> string \<Rightarrow> string option" where
  "strcat (d # dest) src =
     (if d \<noteq> NUL then map_option ((#) d) (strcat dest src) else strcpy (d # dest) src)"
| "strcat [] src = None"

text \<open>
  \<^verbatim>\<open>strchr\<close> and \<^verbatim>\<open>strrchr\<close> return a pointer into the string, here the
  offset from its start, or \<^verbatim>\<open>NULL\<close> (the inner \<open>None\<close>).
\<close>

fun strchr_loop :: "string \<Rightarrow> char \<Rightarrow> nat \<Rightarrow> nat option option" where
  "strchr_loop [] c i = None"
| "strchr_loop (x # str) c i =
     (if x = NUL then Some (if c = NUL then Some i else None)
      else if x = c then Some (Some i) else strchr_loop str c (i + 1))"

definition strchr :: "string \<Rightarrow> char \<Rightarrow> nat option option" where
  "strchr str c = strchr_loop str c 0"

fun strrchr_loop :: "string \<Rightarrow> char \<Rightarrow> nat \<Rightarrow> nat option \<Rightarrow> nat option option" where
  "strrchr_loop [] c i lst = None"
| "strrchr_loop (x # str) c i lst =
     (if x = NUL then Some (if c = NUL then Some i else lst)
      else strrchr_loop str c (i + 1) (if x = c then Some i else lst))"

definition strrchr :: "string \<Rightarrow> char \<Rightarrow> nat option option" where
  "strrchr str c = strrchr_loop str c 0 None"

section \<open>Number conversion: uitoa\<close>

text \<open>
  The \<^verbatim>\<open>do ... while (value)\<close> loop. Division by a zero base traps, a base of one
  never makes progress, and a digit above 15 reads past the digit table: no result.
\<close>

function uitoa_loop :: "u32 \<Rightarrow> u32 \<Rightarrow> string \<Rightarrow> string option" where
  "uitoa_loop value base str =
     (if base < 2 then None
      else let tmp_value = value; value' = value div base; d = unat (tmp_value - value' * base)
           in if d < 16 then
                let str' = str @ [''0123456789abcdef'' ! d]
                in if value' \<noteq> 0 then uitoa_loop value' base str' else Some str'
              else None)"
  by pat_completeness auto
termination
proof (relation "measure (\<lambda>(v, _, _). unat v)")
  fix "value" base tmp_value value' :: u32 and d :: nat and str str' :: string
  assume "\<not> base < 2" and v: "value' = value div base" and "value' \<noteq> 0"
  then have b: "2 \<le> unat base" and "unat value div unat base \<noteq> 0"
    by (auto simp: u32_ord_unat unat_div_distrib)
  then have "0 < unat value" by (cases "unat value") auto
  with b have "unat value div unat base < unat value" by simp
  then show "((value', base, str'), (value, base, str)) \<in> measure (\<lambda>(v, _, _). unat v)"
    by (simp add: v unat_div_distrib)
qed simp

declare uitoa_loop.simps [simp del]

definition uitoa :: "u32 \<Rightarrow> u32 \<Rightarrow> string option" where
  "uitoa value base =
     (if value = 0 then Some ''0''
      else map_option (\<lambda>str. reverse_loop 0 (int (length str) - 1) str) (uitoa_loop value base []))"

section \<open>Memory functions on byte buffers\<close>

fun memset_buf :: "u8 list \<Rightarrow> u8 \<Rightarrow> nat \<Rightarrow> u8 list option" where
  "memset_buf p v 0 = Some p"
| "memset_buf (x # p) v (Suc num) = map_option ((#) v) (memset_buf p v num)"
| "memset_buf [] v (Suc num) = None"

fun memcpy_buf :: "u8 list \<Rightarrow> u8 list \<Rightarrow> nat \<Rightarrow> u8 list option" where
  "memcpy_buf d s 0 = Some d"
| "memcpy_buf (x # d) (y # s) (Suc n) = map_option ((#) y) (memcpy_buf d s n)"
| "memcpy_buf _ _ (Suc n) = None"

fun memcmp :: "u8 list \<Rightarrow> u8 list \<Rightarrow> nat \<Rightarrow> int option" where
  "memcmp p1 p2 0 = Some 0"
| "memcmp (x # p1) (y # p2) (Suc n) = (if x \<noteq> y then Some (uint x - uint y) else memcmp p1 p2 n)"
| "memcmp _ _ (Suc n) = None"

section \<open>The strings denoted by buffers\<close>

definition is_cstr :: "string \<Rightarrow> bool" where
  "is_cstr b \<longleftrightarrow> NUL \<in> set b"

definition cstr :: "string \<Rightarrow> string" where
  "cstr b = takeWhile (\<lambda>c. c \<noteq> NUL) b"

lemma is_cstr_simps [simp]: "\<not> is_cstr []" "is_cstr (c # cs) \<longleftrightarrow> c = NUL \<or> is_cstr cs"
  by (auto simp: is_cstr_def)

lemma cstr_simps [simp]: "cstr [] = []" "cstr (c # cs) = (if c = NUL then [] else c # cstr cs)"
  by (auto simp: cstr_def)

lemma cstr_no_NUL: "NUL \<notin> set (cstr b)"
  unfolding cstr_def by (auto dest: set_takeWhileD)

lemma cstr_append_NUL: "NUL \<notin> set s \<Longrightarrow> cstr (s @ NUL # r) = s"
  by (induction s) auto

lemma is_cstr_append [simp]: "is_cstr (a @ b) \<longleftrightarrow> is_cstr a \<or> is_cstr b"
  by (auto simp: is_cstr_def)

lemma of_char_eq_0_iff [simp]: "of_char c = (0 :: int) \<longleftrightarrow> c = NUL"
  using of_char_eq_iff [where ?'a = int, of c NUL] by simp

section \<open>Correctness of the string functions\<close>

lemma strlen_loop_cstr: "is_cstr b \<Longrightarrow> strlen_loop b len = Some (len + of_nat (length (cstr b)))"
  by (induction b len rule: strlen_loop.induct) auto

lemma strlen_cstr: "is_cstr b \<Longrightarrow> strlen b = Some (of_nat (length (cstr b)))"
  by (simp add: strlen_def strlen_loop_cstr)

lemma strcmp_returns: "is_cstr a \<Longrightarrow> is_cstr b \<Longrightarrow> \<exists>r. strcmp a b = Some r"
  by (induction a b rule: strcmp.induct) auto

lemma strcmp_eq_0_iff:
  "is_cstr a \<Longrightarrow> is_cstr b \<Longrightarrow> strcmp a b = Some 0 \<longleftrightarrow> cstr a = cstr b"
  by (induction a b rule: strcmp.induct) auto

lemma strncmp_eq_0_iff:
  "is_cstr a \<Longrightarrow> is_cstr b \<Longrightarrow> strncmp a b n = Some 0 \<longleftrightarrow> take n (cstr a) = take n (cstr b)"
  by (induction a b n rule: strncmp.induct) auto

lemma strncmp_returns: "is_cstr a \<Longrightarrow> is_cstr b \<Longrightarrow> \<exists>r. strncmp a b n = Some r"
  by (induction a b n rule: strncmp.induct) auto

lemma strncpy_pad_eq: "n \<le> length dest \<Longrightarrow> strncpy_pad dest n = Some (replicate n NUL @ drop n dest)"
  by (induction dest n rule: strncpy_pad.induct) auto

lemma strncpy_eq:
  "is_cstr src \<Longrightarrow> n \<le> length dest \<Longrightarrow>
   strncpy dest src n =
     Some (take n (cstr src) @ replicate (n - length (cstr src)) NUL @ drop n dest)"
  by (induction dest src n rule: strncpy.induct) (auto simp: strncpy_pad_eq)

lemma strcpy_eq:
  "is_cstr src \<Longrightarrow> length (cstr src) < length dest \<Longrightarrow>
   strcpy dest src = Some (cstr src @ NUL # drop (Suc (length (cstr src))) dest)"
  by (induction dest src rule: strcpy.induct) auto

lemma strcat_eq:
  "is_cstr dest \<Longrightarrow> is_cstr src \<Longrightarrow> length (cstr dest) + length (cstr src) < length dest \<Longrightarrow>
   strcat dest src = Some (cstr dest @ cstr src @ NUL #
     drop (Suc (length (cstr dest) + length (cstr src))) dest)"
  by (induction dest src rule: strcat.induct) (auto simp: strcpy_eq)

lemma memcmp_eq_0_iff:
  "n \<le> length a \<Longrightarrow> n \<le> length b \<Longrightarrow> memcmp a b n = Some 0 \<longleftrightarrow> take n a = take n b"
  by (induction a b n rule: memcmp.induct) (auto simp: word_uint_eq_iff)

lemma memset_buf_eq: "n \<le> length p \<Longrightarrow> memset_buf p v n = Some (replicate n v @ drop n p)"
  by (induction p v n rule: memset_buf.induct) auto

lemma memcpy_buf_eq:
  "n \<le> length d \<Longrightarrow> n \<le> length s \<Longrightarrow> memcpy_buf d s n = Some (take n s @ drop n d)"
  by (induction d s n rule: memcpy_buf.induct) auto

section \<open>Correctness of uitoa\<close>

lemma digit_table: "d < 16 \<Longrightarrow> ''0123456789abcdef'' ! d = digit_char d"
proof -
  have "\<forall>d \<in> set [0..<16]. ''0123456789abcdef'' ! d = digit_char d" by code_simp
  then show "d < 16 \<Longrightarrow> ?thesis" by simp
qed

lemma unat_digit: "unat (v - v div b * b) = unat v mod unat (b :: u32)"
  by (metis minus_div_mult_eq_mod unat_mod_distrib)

lemma uitoa_loop_digits:
  "2 \<le> base \<Longrightarrow> base \<le> 16 \<Longrightarrow> v \<noteq> 0 \<Longrightarrow>
   uitoa_loop v base str = Some (str @ map digit_char (digits_rev (unat base) (unat v)))"
proof (induction v base str rule: uitoa_loop.induct)
  case (1 v base str)
  let ?d = "unat v mod unat base"
  from "1.prems" have b: "2 \<le> unat base" "unat base \<le> 16" "0 < unat v"
    by (auto simp: u32_ord_unat word_neq_0_conv)
  then have "?d < unat base" by simp
  with b have d: "?d < 16" "\<not> base < 2" by (linarith, simp add: u32_ord_unat)
  have step: "digits_rev (unat base) (unat v) = ?d # digits_rev (unat base) (unat (v div base))"
    using b by (simp add: digits_rev_step unat_div_distrib)
  show ?case
  proof (cases "v div base = 0")
    case True
    then have "?d = unat v"
      using b by (auto simp: u32_eq_iff_unat unat_div_distrib div_eq_0_iff)
    with True d step show ?thesis
      by (subst uitoa_loop.simps) (simp add: Let_def digit_table)
  next
    case False
    with "1.IH" [OF d(2) refl refl refl] d "1.prems"
    have "uitoa_loop (v div base) base (str @ [digit_char ?d]) =
        Some ((str @ [digit_char ?d]) @ map digit_char (digits_rev (unat base) (unat (v div base))))"
      by (simp add: unat_digit digit_table)
    with False d step show ?thesis
      by (subst uitoa_loop.simps) (simp add: Let_def unat_digit digit_table)
  qed
qed

lemma uitoa_digits:
  "2 \<le> base \<Longrightarrow> base \<le> 16 \<Longrightarrow> uitoa v base = Some (map digit_char (digits (unat base) (unat v)))"
  by (simp add: uitoa_def uitoa_loop_digits reverse_loop_rev rev_map digits_def u32_eq_iff_unat
      digit_char_0)

interpretation uitoa10: numeral_printer 10 "\<lambda>v. the (uitoa v 10)"
  by unfold_locales (simp_all add: uitoa_digits)

interpretation uitoa16: numeral_printer 16 "\<lambda>v. the (uitoa v 16)"
  by unfold_locales (simp_all add: uitoa_digits)

end
