(* ===== verification/Klibc_Stdio.thy ===== *)
theory Klibc_Stdio
  imports Klibc_String
begin

text \<open>
  \<^verbatim>\<open>klibc/stdio.c\<close>: \<^verbatim>\<open>utoa\<close>, \<^verbatim>\<open>itoa\<close> and
  \<^verbatim>\<open>kprintf\<close>. A conversion is the text it leaves in its buffer, a formatted print
  the text it hands to \<^verbatim>\<open>kprint\<close>.
\<close>

section \<open>Number conversion\<close>

definition reverse :: "string \<Rightarrow> string" where
  "reverse str = reverse_loop 0 (int (length str) - 1) str"

text \<open>
  The digit loop shared by \<^verbatim>\<open>utoa\<close> and \<^verbatim>\<open>itoa\<close>. A zero base traps
  and base one never ends: no result.
\<close>

function utoa_loop :: "u32 \<Rightarrow> u32 \<Rightarrow> string \<Rightarrow> string option" where
  "utoa_loop value base str =
     (if value = 0 then Some str
      else if base < 2 then None
      else utoa_loop (value div base) base (str @ [digit_char (unat (value mod base))]))"
  by pat_completeness auto
termination
proof (relation "measure (\<lambda>(v, _, _). unat v)")
  fix "value" base :: u32 and str :: string
  assume "value \<noteq> 0" "\<not> base < 2"
  then have "0 < unat value" "2 \<le> unat base" by (auto simp: u32_ord_unat word_neq_0_conv)
  then show "((value div base, base, str @ [digit_char (unat (value mod base))]), value, base, str)
      \<in> measure (\<lambda>(v, _, _). unat v)"
    by (simp add: unat_div_distrib)
qed simp

declare utoa_loop.simps [simp del]

definition utoa :: "u32 \<Rightarrow> u32 \<Rightarrow> string option" where
  "utoa value base =
     (if value = 0 then Some ''0'' else map_option reverse (utoa_loop value base []))"

text \<open>
  \<^verbatim>\<open>itoa\<close> takes an \<^verbatim>\<open>int32_t\<close>: the sign is the word's top bit, and
  \<^verbatim>\<open>(uint32_t)(-value)\<close> is the word negation.
\<close>

definition itoa :: "u32 \<Rightarrow> u32 \<Rightarrow> string option" where
  "itoa value base =
     (if value = 0 then Some ''0''
      else let is_negative = sint value < 0 \<and> base = 10;
               uvalue = (if is_negative then - value else value)
           in map_option (\<lambda>str. reverse (if is_negative then str @ ''-'' else str))
                (utoa_loop uvalue base []))"

section \<open>kprintf\<close>

text \<open>One variable argument: an integer or pointer word, or a string (\<open>None\<close> for \<^verbatim>\<open>NULL\<close>).\<close>

datatype va = VInt u32 | VStr "string option"

definition upcase_hex :: "string \<Rightarrow> string" where
  "upcase_hex = map (\<lambda>c. if of_char c \<ge> (97 :: nat) \<and> of_char c \<le> (102 :: nat)
                          then char_of (of_char c - 32 :: nat) else c)"

text \<open>
  One conversion: the text it prints and the arguments left. A conversion that finds no
  argument, or one of the wrong kind, has no defined result.
\<close>

fun kprintf_spec :: "char \<Rightarrow> va list \<Rightarrow> (string \<times> va list) option" where
  "kprintf_spec c args =
     (if c = CHR ''d'' \<or> c = CHR ''i'' then
        (case args of VInt v # r \<Rightarrow> map_option (\<lambda>s. (s, r)) (itoa v 10) | _ \<Rightarrow> None)
      else if c = CHR ''u'' then
        (case args of VInt v # r \<Rightarrow> map_option (\<lambda>s. (s, r)) (utoa v 10) | _ \<Rightarrow> None)
      else if c = CHR ''x'' then
        (case args of VInt v # r \<Rightarrow> map_option (\<lambda>s. (s, r)) (utoa v 16) | _ \<Rightarrow> None)
      else if c = CHR ''X'' then
        (case args of VInt v # r \<Rightarrow> map_option (\<lambda>s. (upcase_hex s, r)) (utoa v 16) | _ \<Rightarrow> None)
      else if c = CHR ''c'' then
        (case args of VInt v # r \<Rightarrow> Some (cstr [char_of (unat v)], r) | _ \<Rightarrow> None)
      else if c = CHR ''s'' then
        (case args of VStr None # r \<Rightarrow> Some (''(null)'', r) | VStr (Some s) # r \<Rightarrow> Some (s, r)
                    | _ \<Rightarrow> None)
      else if c = CHR ''p'' then
        (case args of VInt v # r \<Rightarrow> map_option (\<lambda>s. (''0x'' @ s, r)) (utoa v 16) | _ \<Rightarrow> None)
      else if c = CHR ''%'' then Some (''%'', args)
      else Some ([CHR ''%'', c], args))"

text \<open>The format is the C string's characters, without the terminator.\<close>

fun kprintf :: "string \<Rightarrow> va list \<Rightarrow> string option" where
  "kprintf [] args = Some []"
| "kprintf (c # fmt) args =
     (if c = CHR ''%'' then
        (case fmt of
           [] \<Rightarrow> Some [c]
         | f # fmt' \<Rightarrow>
             (case kprintf_spec f args of
                None \<Rightarrow> None
              | Some (s, args') \<Rightarrow> map_option ((@) s) (kprintf fmt' args')))
      else map_option ((#) c) (kprintf fmt args))"

section \<open>Correctness\<close>

lemma utoa_loop_digits:
  "2 \<le> base \<Longrightarrow>
   utoa_loop v base str = Some (str @ map digit_char (digits_rev (unat base) (unat v)))"
proof (induction v base str rule: utoa_loop.induct)
  case (1 v base str)
  show ?case
  proof (cases "v = 0")
    case True
    then show ?thesis by (simp add: utoa_loop.simps)
  next
    case False
    with "1.prems" have b: "2 \<le> unat base" "0 < unat v" "\<not> base < 2"
      by (auto simp: u32_ord_unat word_neq_0_conv)
    with False "1.IH" "1.prems" show ?thesis
      by (subst utoa_loop.simps) (simp add: digits_rev_step unat_div_distrib unat_mod_distrib)
  qed
qed

lemma reverse_rev: "reverse str = rev str"
  by (simp add: reverse_def reverse_loop_rev)

lemma utoa_digits: "2 \<le> base \<Longrightarrow> utoa v base = Some (map digit_char (digits (unat base) (unat v)))"
  by (simp add: utoa_def utoa_loop_digits reverse_rev rev_map digits_def u32_eq_iff_unat digit_char_0)

interpretation utoa10: numeral_printer 10 "\<lambda>v. the (utoa v 10)"
  by unfold_locales (simp_all add: utoa_digits)

interpretation utoa16: numeral_printer 16 "\<lambda>v. the (utoa v 16)"
  by unfold_locales (simp_all add: utoa_digits)

text \<open>Two conversions of one number, \<^verbatim>\<open>utoa\<close> and \<^verbatim>\<open>uitoa\<close>, agree.\<close>

lemma utoa_eq_uitoa: "2 \<le> base \<Longrightarrow> base \<le> 16 \<Longrightarrow> utoa v base = uitoa v base"
  by (simp add: utoa_digits uitoa_digits)

text \<open>
  The decimal text of a signed integer: a minus sign exactly for negative numbers, then the
  magnitude, which for the smallest number is its own negation.
\<close>

lemma unat_sint_abs: "nat \<bar>sint v\<bar> = unat (if sint v < 0 then - v else v :: u32)"
proof -
  have range: "- 2147483648 \<le> sint v" "sint v < 2147483648"
    using sint_ge [of v] sint_lt [of v] by simp_all
  show ?thesis
  proof (cases "sint v < 0")
    case True
    have "uint (- v) = uint (word_of_int (- sint v) :: u32)" by simp
    also have "\<dots> = take_bit 32 (- sint v)" by (simp only: uint_word_of_int_eq) simp
    also have "\<dots> = - sint v" using True range by (simp add: take_bit_int_eq_self)
    finally show ?thesis using True by (simp add: unat_eq_nat_uint)
  next
    case False
    have "uint v = uint (word_of_int (sint v) :: u32)" by simp
    also have "\<dots> = take_bit 32 (sint v)" by (simp only: uint_word_of_int_eq) simp
    also have "\<dots> = sint v" using False range by (simp add: take_bit_int_eq_self)
    finally show ?thesis using False by (simp add: unat_eq_nat_uint)
  qed
qed

lemma itoa_decimal:
  "itoa v 10 = Some ((if sint v < 0 then ''-'' else []) @
     map digit_char (digits 10 (nat \<bar>sint v\<bar>)))"
proof (cases "v = 0")
  case True
  then show ?thesis by (simp add: itoa_def digits_def digit_char_0)
next
  case False
  then have "0 < unat v" "0 < unat (- v)" by (simp_all add: word_neq_0_conv unat_gt_0)
  with False show ?thesis
    by (simp add: itoa_def Let_def utoa_loop_digits reverse_rev unat_sint_abs rev_map digits_def)
qed

end
