(* ===== verification/Screen.thy ===== *)
theory Screen
  imports Digits
begin

text \<open>
  \<^verbatim>\<open>drivers/screen.c\<close> and the transmit path of \<^verbatim>\<open>drivers/serial.c\<close>:
  the VGA text console. The state is the text memory at \<^verbatim>\<open>0xB8000\<close> (a byte per
  offset from that address), the current colour, the two cursor registers 14 and 15 of the
  CRT controller (each selected anew before every access), and the characters sent to COM1.
  The wait for an empty transmit register is taken to end.
\<close>

abbreviation MAX_ROWS :: int where
  "MAX_ROWS \<equiv> 25"

abbreviation MAX_COLS :: int where
  "MAX_COLS \<equiv> 80"

record screen =
  vidmem :: "int \<Rightarrow> u8"
  current_color :: u8
  crtc_hi :: u8
  crtc_lo :: u8
  serial_log :: string

section \<open>The driver\<close>

definition get_offset :: "int \<Rightarrow> int \<Rightarrow> int" where
  "get_offset col row = 2 * (row * MAX_COLS + col)"

definition get_offset_row :: "int \<Rightarrow> int" where
  "get_offset_row offset = c_div offset (2 * MAX_COLS)"

definition get_offset_col :: "int \<Rightarrow> int" where
  "get_offset_col offset = c_div offset 2 - get_offset_row offset * MAX_COLS"

definition get_cursor_offset :: "screen \<Rightarrow> int" where
  "get_cursor_offset s = (push_bit 8 (uint (crtc_hi s)) + uint (crtc_lo s)) * 2"

definition set_cursor_offset :: "int \<Rightarrow> screen \<Rightarrow> screen" where
  "set_cursor_offset offset s =
     (let offset' = c_div offset 2
      in s\<lparr>crtc_hi := word_of_int (drop_bit 8 offset'), crtc_lo := word_of_int (offset' AND 255)\<rparr>)"

definition set_text_color :: "u8 \<Rightarrow> screen \<Rightarrow> screen" where
  "set_text_color color s = s\<lparr>current_color := color\<rparr>"

definition get_text_color :: "screen \<Rightarrow> u8" where
  "get_text_color s = current_color s"

definition poke :: "int \<Rightarrow> u8 \<Rightarrow> u8 \<Rightarrow> (int \<Rightarrow> u8) \<Rightarrow> int \<Rightarrow> u8" where
  "poke offset c attr m = m(offset := c, offset + 1 := attr)"

definition clear_screen :: "screen \<Rightarrow> screen" where
  "clear_screen s =
     set_cursor_offset (get_offset 0 0)
       (s\<lparr>vidmem := fold (\<lambda>i m. poke (i * 2) (of_char CHR '' '') (current_color s) m)
                      (map int [0..<nat (MAX_COLS * MAX_ROWS)]) (vidmem s)\<rparr>)"

text \<open>One iteration of the two nested loops of \<^verbatim>\<open>scroll_screen\<close>, and of its last loop.\<close>

definition move_cell :: "int \<Rightarrow> int \<Rightarrow> (int \<Rightarrow> u8) \<Rightarrow> int \<Rightarrow> u8" where
  "move_cell row col m =
     (let src_offset = get_offset col row; dst_offset = get_offset col (row - 1)
      in poke dst_offset (m src_offset) (m (src_offset + 1)) m)"

definition blank_cell :: "u8 \<Rightarrow> int \<Rightarrow> (int \<Rightarrow> u8) \<Rightarrow> int \<Rightarrow> u8" where
  "blank_cell color col m = poke (get_offset col (MAX_ROWS - 1)) (of_char CHR '' '') color m"

definition scroll_screen :: "screen \<Rightarrow> screen" where
  "scroll_screen s =
     (let moved = fold (\<lambda>row. fold (move_cell row) (map int [0..<nat MAX_COLS]))
            (map int [1..<nat MAX_ROWS]) (vidmem s)
      in s\<lparr>vidmem := fold (blank_cell (current_color s)) (map int [0..<nat MAX_COLS]) moved\<rparr>)"

definition print_char :: "char \<Rightarrow> int \<Rightarrow> int \<Rightarrow> u8 \<Rightarrow> screen \<Rightarrow> int \<times> screen" where
  "print_char c col row attr s =
     (let attr' = (if attr = 0 then current_color s else attr);
          offset = (if 0 \<le> col \<and> 0 \<le> row then get_offset col row else get_cursor_offset s);
          (offset', s') =
            (if c = CHR 0x0A then (get_offset 0 (get_offset_row offset + 1), s)
             else (offset + 2, s\<lparr>vidmem := poke offset (of_char c) attr' (vidmem s)\<rparr>));
          (offset'', s'') =
            (if MAX_ROWS * MAX_COLS * 2 \<le> offset' then (get_offset 0 (MAX_ROWS - 1), scroll_screen s')
             else (offset', s'))
      in (offset'', set_cursor_offset offset'' s''))"

definition serial_putc :: "char \<Rightarrow> screen \<Rightarrow> screen" where
  "serial_putc c s = s\<lparr>serial_log := serial_log s @ [c]\<rparr>"

fun kprint_loop :: "string \<Rightarrow> int \<Rightarrow> int \<Rightarrow> screen \<Rightarrow> screen" where
  "kprint_loop [] col row s = s"
| "kprint_loop (c # msg) col row s =
     (let (offset, s') = print_char c col row (current_color s) s
      in kprint_loop msg (get_offset_col offset) (get_offset_row offset) (serial_putc c s'))"

definition kprint_at :: "string \<Rightarrow> int \<Rightarrow> int \<Rightarrow> screen \<Rightarrow> screen" where
  "kprint_at msg col row s =
     (if 0 \<le> col \<and> 0 \<le> row then kprint_loop msg col row s
      else let offset = get_cursor_offset s
           in kprint_loop msg (get_offset_col offset) (get_offset_row offset) s)"

definition kprint :: "string \<Rightarrow> screen \<Rightarrow> screen" where
  "kprint message s = kprint_at message (-1) (-1) s"

definition kprint_backspace :: "screen \<Rightarrow> screen" where
  "kprint_backspace s =
     (let offset = get_cursor_offset s
      in if 0 < offset then
           set_cursor_offset (offset - 2)
             (s\<lparr>vidmem := poke (offset - 2) (of_char CHR '' '') (current_color s) (vidmem s)\<rparr>)
         else s)"

section \<open>Numbers as console text\<close>

text \<open>
  \<^verbatim>\<open>kprint_hex\<close> and \<^verbatim>\<open>kprint_uint\<close> build a text and hand it to
  \<^verbatim>\<open>kprint\<close>; \<open>hex_str\<close> and \<open>num_str\<close> are those texts. Components that
  report on the console produce the concatenation of the texts they print.
\<close>

definition hex_str :: "u32 \<Rightarrow> string" where
  "hex_str value = ''0x'' @
     snd (fold (\<lambda>_ (v, acc). (drop_bit 4 v, (''0123456789ABCDEF'' ! unat (v AND 15)) # acc))
            [2..<10] (value, []))"

function num_loop :: "u32 \<Rightarrow> string \<Rightarrow> string" where
  "num_loop temp str =
     (if temp = 0 then str else num_loop (temp div 10) (str @ [char_of (48 + unat (temp mod 10))]))"
  by pat_completeness auto
termination
proof (relation "measure (\<lambda>(t, _). unat t)")
  fix temp :: u32 and str :: string
  assume "temp \<noteq> 0"
  then have "0 < unat temp" by (simp add: word_neq_0_conv unat_gt_0)
  then show "((temp div 10, str @ [char_of (48 + unat (temp mod 10))]), temp, str)
      \<in> measure (\<lambda>(t, _). unat t)"
    by (simp add: unat_div_distrib)
qed simp

declare num_loop.simps [simp del]

definition num_str :: "u32 \<Rightarrow> string" where
  "num_str value = (if value = 0 then ''0'' else reverse_half (num_loop value []))"

definition kprint_hex :: "u32 \<Rightarrow> screen \<Rightarrow> screen" where
  "kprint_hex value s = kprint (hex_str value) s"

definition kprint_uint :: "u32 \<Rightarrow> screen \<Rightarrow> screen" where
  "kprint_uint value s = kprint (num_str value) s"

section \<open>Number texts\<close>

lemma num_loop_digits: "num_loop v str = str @ map digit_char (digits_rev 10 (unat v))"
proof (induction v str rule: num_loop.induct)
  case (1 v str)
  show ?case
  proof (cases "v = 0")
    case True
    then show ?thesis by (simp add: num_loop.simps)
  next
    case False
    have "unat (v mod 10) = unat v mod 10" using unat_mod_distrib [of v 10] by simp
    then have "char_of (48 + unat (v mod 10)) = digit_char (unat v mod 10)"
      using pos_mod_bound [of 10 "int (unat v)"] by (simp add: digit_char_def add.commute)
    moreover have "0 < unat v" using False by (simp add: word_neq_0_conv unat_gt_0)
    ultimately show ?thesis
      using False 1 by (subst num_loop.simps) (simp add: digits_rev_step unat_div_distrib)
  qed
qed

interpretation kprint_uint: numeral_printer 10 num_str
  by unfold_locales
    (simp_all add: num_str_def num_loop_digits reverse_half_rev rev_map digits_def digit_char_0
      u32_eq_iff_unat)

section \<open>The cursor stays on the screen\<close>

abbreviation TEXT_SIZE :: int where
  "TEXT_SIZE \<equiv> 4000"

definition on_screen :: "screen \<Rightarrow> bool" where
  "on_screen s \<longleftrightarrow> get_cursor_offset s < TEXT_SIZE"

lemma get_cursor_offset_nonneg [simp]: "0 \<le> get_cursor_offset s"
  by (simp add: get_cursor_offset_def push_bit_eq_mult)

lemma get_cursor_offset_even [simp]: "even (get_cursor_offset s)"
  by (simp add: get_cursor_offset_def)

lemma get_set_cursor_offset [simp]:
  assumes "0 \<le> off" "off < 2 * 65536" "even off"
  shows "get_cursor_offset (set_cursor_offset off s) = off"
proof -
  define k where "k = off div 2"
  have k: "0 \<le> k" "k < 65536" "off = 2 * k" using assms by (auto simp: k_def)
  have "k div 256 < 256" using k by linarith
  then have "uint (word_of_int (k div 256) :: u8) = k div 256"
    using k by (simp add: uint_word_of_int take_bit_int_eq_self)
  moreover have "uint (word_of_int (k AND 255) :: u8) = k mod 256"
    by (simp add: uint_word_of_int int_and_255 take_bit_eq_mod)
  ultimately show ?thesis
    using k by (simp add: get_cursor_offset_def set_cursor_offset_def Let_def push_bit_eq_mult
        drop_bit_eq_div)
qed

lemma offset_row: "0 \<le> off \<Longrightarrow> get_offset_row off = off div 160"
  by (simp add: get_offset_row_def)

lemma offset_col: "0 \<le> off \<Longrightarrow> get_offset_col off = off div 2 - off div 160 * 80"
  by (simp add: get_offset_col_def offset_row)

lemma offset_of_row_col:
  "0 \<le> off \<Longrightarrow> even off \<Longrightarrow> get_offset (get_offset_col off) (get_offset_row off) = off"
  by (auto simp: offset_row offset_col get_offset_def)

lemma row_col_on_screen:
  assumes "0 \<le> off" "off < TEXT_SIZE"
  shows "0 \<le> get_offset_col off" "get_offset_col off < MAX_COLS"
    "0 \<le> get_offset_row off" "get_offset_row off < MAX_ROWS"
proof -
  have "off div 160 * 80 \<le> off div 2" "off div 2 < off div 160 * 80 + 80" by linarith+
  then show "0 \<le> get_offset_col off" "get_offset_col off < MAX_COLS"
    using assms by (simp_all add: offset_col)
  show "0 \<le> get_offset_row off" "get_offset_row off < MAX_ROWS"
    using assms by (auto simp: offset_row)
qed

text \<open>Scrolling moves every row up by one and blanks the last one in the current colour.\<close>

lemma poke_apply: "poke off c a m i = (if i = off then c else if i = off + 1 then a else m i)"
  by (simp add: poke_def)

lemma move_cells:
  "n \<le> 80 \<Longrightarrow> fold (move_cell row) (map int [0..<n]) m i =
     (if 160 * (row - 1) \<le> i \<and> i < 160 * (row - 1) + 2 * int n then m (i + 160) else m i)"
proof (induction n arbitrary: i)
  case 0
  then show ?case by auto
next
  case (Suc n)
  let ?m = "fold (move_cell row) (map int [0..<n]) m"
  define X where "X = 160 * (row - 1) + 2 * int n"
  have off: "get_offset (int n) (row - 1) = X" "get_offset (int n) row = X + 160"
    by (simp_all add: get_offset_def X_def algebra_simps)
  have "?m (X + 160) = m (X + 160)" "?m (X + 160 + 1) = m (X + 160 + 1)"
    using Suc by (simp_all add: X_def)
  then have "move_cell row (int n) ?m i = (if i = X \<or> i = X + 1 then m (i + 160) else ?m i)"
    by (auto simp: move_cell_def off poke_apply add.commute add.left_commute)
  moreover have "fold (move_cell row) (map int [0..<Suc n]) m = move_cell row (int n) ?m" by simp
  ultimately show ?case using Suc by (auto simp: X_def)
qed

lemma move_rows:
  "n < 25 \<Longrightarrow> fold (\<lambda>row. fold (move_cell row) (map int [0..<80])) (map int [1..<Suc n]) m i =
     (if 0 \<le> i \<and> i < 160 * int n then m (i + 160) else m i)"
proof (induction n arbitrary: i)
  case 0
  then show ?case by auto
next
  case (Suc n)
  define R where "R = fold (\<lambda>row. fold (move_cell row) (map int [0..<80])) (map int [1..<Suc n]) m"
  have R: "R k = (if 0 \<le> k \<and> k < 160 * int n then m (k + 160) else m k)" for k
    using Suc by (simp only: R_def)
  have step: "fold (\<lambda>row. fold (move_cell row) (map int [0..<80])) (map int [1..<Suc (Suc n)]) m =
      fold (move_cell (int n + 1)) (map int [0..<80]) R"
    unfolding R_def by (simp add: add.commute)
  show ?case unfolding step by (auto simp: move_cells R)
qed

lemma blank_cells:
  "n \<le> 80 \<Longrightarrow> fold (blank_cell color) (map int [0..<n]) m i =
     (if 3840 \<le> i \<and> i < 3840 + 2 * int n then if even i then of_char CHR '' '' else color else m i)"
proof (induction n arbitrary: i)
  case 0
  then show ?case by auto
next
  case (Suc n)
  then show ?case
    by (auto simp: blank_cell_def poke_apply get_offset_def)
qed

lemma vidmem_scroll_screen:
  "vidmem (scroll_screen s) i =
     (if 0 \<le> i \<and> i < 3840 then vidmem s (i + 160)
      else if 3840 \<le> i \<and> i < TEXT_SIZE then if even i then of_char CHR '' '' else current_color s
      else vidmem s i)"
proof -
  have sizes: "nat MAX_ROWS = Suc 24" "nat MAX_COLS = 80" by simp_all
  have moved: "fold (\<lambda>row. fold (move_cell row) (map int [0..<80])) (map int [1..<Suc 24]) (vidmem s) i =
      (if 0 \<le> i \<and> i < 3840 then vidmem s (i + 160) else vidmem s i)"
    by (subst move_rows) simp_all
  show ?thesis
    unfolding scroll_screen_def sizes Let_def using moved
    by (simp add: blank_cells del: upt_Suc)
qed

lemma scroll_screen_frame [simp]:
  "current_color (scroll_screen s) = current_color s" "serial_log (scroll_screen s) = serial_log s"
  by (simp_all add: scroll_screen_def Let_def)

section \<open>Printing\<close>

text \<open>Bytes outside the 80 by 25 text page.\<close>

definition outside_text :: "int \<Rightarrow> bool" where
  "outside_text i \<longleftrightarrow> i < 0 \<or> TEXT_SIZE \<le> i"

lemma set_cursor_offset_frame [simp]:
  "vidmem (set_cursor_offset off s) = vidmem s"
  "current_color (set_cursor_offset off s) = current_color s"
  "serial_log (set_cursor_offset off s) = serial_log s"
  by (simp_all add: set_cursor_offset_def Let_def)

lemma get_cursor_offset_serial [simp]: "get_cursor_offset (serial_putc c s) = get_cursor_offset s"
  by (simp add: get_cursor_offset_def serial_putc_def)

text \<open>
  One character printed at a position of the screen: the cursor ends on the screen, and only
  the text page is written.
\<close>

lemma print_char_props:
  assumes "0 \<le> col" "col < MAX_COLS" "0 \<le> row" "row < MAX_ROWS"
    and "print_char c col row attr s = (off, s')"
  shows "0 \<le> off" "off < TEXT_SIZE" "even off" "get_cursor_offset s' = off"
    "current_color s' = current_color s" "serial_log s' = serial_log s"
    "outside_text i \<Longrightarrow> vidmem s' i = vidmem s i"
proof -
  define o0 where "o0 = get_offset col row"
  have o0: "0 \<le> o0" "o0 + 1 < TEXT_SIZE" "even o0" "o0 div 160 = row"
    using assms(1-4) by (auto simp: o0_def get_offset_def)
  define o1 where "o1 = (if c = CHR 0x0A then get_offset 0 (row + 1) else o0 + 2)"
  define s1 where "s1 = (if c = CHR 0x0A then s
    else s\<lparr>vidmem := poke o0 (of_char c) (if attr = 0 then current_color s else attr) (vidmem s)\<rparr>)"
  have o1: "0 \<le> o1" "even o1" using o0 assms(3) by (auto simp: o1_def get_offset_def)
  have s1: "current_color s1 = current_color s" "serial_log s1 = serial_log s"
    "outside_text i \<Longrightarrow> vidmem s1 i = vidmem s i" for i
    using o0 by (auto simp: s1_def poke_apply outside_text_def)
  have eq: "(off, s') = (if TEXT_SIZE \<le> o1 then (3840, set_cursor_offset 3840 (scroll_screen s1))
      else (o1, set_cursor_offset o1 s1))"
    using assms o0 unfolding print_char_def o0_def [symmetric]
    by (auto simp: Let_def o1_def s1_def offset_row get_offset_def)
  show "0 \<le> off" "off < TEXT_SIZE" "even off" "get_cursor_offset s' = off"
    "current_color s' = current_color s" "serial_log s' = serial_log s"
    using eq o1 s1 by (auto split: if_splits)
  show "vidmem s' i = vidmem s i" if "outside_text i"
    using eq s1(3) [OF that] that by (auto simp: vidmem_scroll_screen outside_text_def split: if_splits)
qed

lemma kprint_loop_props:
  assumes "on_screen s" "col = get_offset_col (get_cursor_offset s)" "row = get_offset_row (get_cursor_offset s)"
  shows "on_screen (kprint_loop msg col row s)"
    "serial_log (kprint_loop msg col row s) = serial_log s @ msg"
    "current_color (kprint_loop msg col row s) = current_color s"
    "outside_text i \<Longrightarrow> vidmem (kprint_loop msg col row s) i = vidmem s i"
    "kprint_loop (msg @ msg') col row s =
       (let s' = kprint_loop msg col row s; off = get_cursor_offset s'
        in kprint_loop msg' (get_offset_col off) (get_offset_row off) s')"
proof -
  have "on_screen (kprint_loop msg col row s) \<and>
    serial_log (kprint_loop msg col row s) = serial_log s @ msg \<and>
    current_color (kprint_loop msg col row s) = current_color s \<and>
    (outside_text i \<longrightarrow> vidmem (kprint_loop msg col row s) i = vidmem s i) \<and>
    kprint_loop (msg @ msg') col row s =
       (let s' = kprint_loop msg col row s; off = get_cursor_offset s'
        in kprint_loop msg' (get_offset_col off) (get_offset_row off) s')"
    using assms
  proof (induction msg arbitrary: col row s)
    case Nil
    then show ?case by (simp add: Let_def)
  next
    case (Cons c msg)
    obtain off s1 where pc: "print_char c col row (current_color s) s = (off, s1)" by fastforce
    have range: "0 \<le> col" "col < MAX_COLS" "0 \<le> row" "row < MAX_ROWS"
      using Cons.prems row_col_on_screen [of "get_cursor_offset s"] by (simp_all add: on_screen_def)
    note p = print_char_props [OF range pc]
    have "on_screen (serial_putc c s1)" using p(2,4) by (simp add: on_screen_def)
    from Cons.IH [OF this refl refl] p(4)
    have "on_screen (kprint_loop msg (get_offset_col off) (get_offset_row off) (serial_putc c s1)) \<and>
      serial_log (kprint_loop msg (get_offset_col off) (get_offset_row off) (serial_putc c s1)) =
        serial_log (serial_putc c s1) @ msg \<and>
      current_color (kprint_loop msg (get_offset_col off) (get_offset_row off) (serial_putc c s1)) =
        current_color (serial_putc c s1) \<and>
      (outside_text i \<longrightarrow> vidmem (kprint_loop msg (get_offset_col off) (get_offset_row off) (serial_putc c s1)) i =
        vidmem (serial_putc c s1) i) \<and>
      kprint_loop (msg @ msg') (get_offset_col off) (get_offset_row off) (serial_putc c s1) =
       (let s' = kprint_loop msg (get_offset_col off) (get_offset_row off) (serial_putc c s1);
            off = get_cursor_offset s'
        in kprint_loop msg' (get_offset_col off) (get_offset_row off) s')"
      by simp
    then show ?case using p(5-7) by (simp add: pc serial_putc_def)
  qed
  then show "on_screen (kprint_loop msg col row s)"
    "serial_log (kprint_loop msg col row s) = serial_log s @ msg"
    "current_color (kprint_loop msg col row s) = current_color s"
    "outside_text i \<Longrightarrow> vidmem (kprint_loop msg col row s) i = vidmem s i"
    "kprint_loop (msg @ msg') col row s =
       (let s' = kprint_loop msg col row s; off = get_cursor_offset s'
        in kprint_loop msg' (get_offset_col off) (get_offset_row off) s')"
    by blast+
qed

lemma kprint_eq_loop:
  "kprint msg s = kprint_loop msg (get_offset_col (get_cursor_offset s)) (get_offset_row (get_cursor_offset s)) s"
  by (simp add: kprint_def kprint_at_def Let_def)

lemma kprint_on_screen: "on_screen s \<Longrightarrow> on_screen (kprint msg s)"
  by (simp add: kprint_eq_loop kprint_loop_props(1))

lemma kprint_serial_log: "on_screen s \<Longrightarrow> serial_log (kprint msg s) = serial_log s @ msg"
  by (simp add: kprint_eq_loop kprint_loop_props(2))

lemma kprint_current_color: "on_screen s \<Longrightarrow> current_color (kprint msg s) = current_color s"
  by (simp add: kprint_eq_loop kprint_loop_props(3))

lemma kprint_memory_safe: "on_screen s \<Longrightarrow> outside_text i \<Longrightarrow> vidmem (kprint msg s) i = vidmem s i"
  by (simp add: kprint_eq_loop kprint_loop_props(4))

text \<open>
  Printing in pieces is printing the concatenation. This is why the components below can
  describe their console output as one text.
\<close>

lemma kprint_append: "on_screen s \<Longrightarrow> kprint (a @ b) s = kprint b (kprint a s)"
  by (simp add: kprint_eq_loop kprint_loop_props(5) Let_def)

section \<open>Properties\<close>

text \<open>(C30) \<^verbatim>\<open>kprint\<close> keeps the console well formed: from a cursor inside the 80 by 25 text area, whatever the message (line ends,
  lines that wrap, a screen that scrolls), the cursor ends inside the area, no byte outside of the area is written, the colour is kept, and the serial
  port receives the message.\<close>

theorem kprint_well_formed:
  assumes "on_screen s"
  shows "on_screen (kprint msg s) \<and> (\<forall>i. outside_text i \<longrightarrow> vidmem (kprint msg s) i = vidmem s i) \<and>
    current_color (kprint msg s) = current_color s \<and> serial_log (kprint msg s) = serial_log s @ msg"
  using assms by (simp add: kprint_on_screen kprint_memory_safe kprint_serial_log kprint_current_color)

theorem kprint_well_formed_witness:
  "\<exists>s. get_cursor_offset s = 3998 \<and> get_cursor_offset (kprint (''A'' @ [CHR 0x0A]) s) < TEXT_SIZE \<and>
     vidmem (kprint (''A'' @ [CHR 0x0A]) s) 4000 = 0 \<and> serial_log (kprint (''A'' @ [CHR 0x0A]) s) = ''A'' @ [CHR 0x0A]"
proof -
  let ?s = "\<lparr>vidmem = \<lambda>_. 0, current_color = 15, crtc_hi = 7, crtc_lo = 207, serial_log = []\<rparr>"
  have "get_cursor_offset ?s = 3998" by (simp add: get_cursor_offset_def push_bit_eq_mult)
  moreover from this have "on_screen ?s" by (simp add: on_screen_def)
  moreover have "outside_text 4000" by (simp add: outside_text_def)
  ultimately show ?thesis using kprint_well_formed [of ?s "''A'' @ [CHR 0x0A]"] by (intro exI [of _ ?s]) (simp add: on_screen_def)
qed

end
