(* ===== verification/Pmm.thy ===== *)
theory Pmm
  imports Screen
begin

text \<open>
  \<^verbatim>\<open>kernel/mem/pmm.c\<close>: the physical memory manager, a bitmap with one bit per
  4 KB page frame. The state is the C structure; the bitmap pointer is the list of the
  \<open>bitmap_size\<close> words it points to. Diagnostics are returned as the text handed to
  \<^verbatim>\<open>kprint\<close>.
\<close>

section \<open>State and constants\<close>

abbreviation PAGE_SIZE :: u32 where
  "PAGE_SIZE \<equiv> 4096"

abbreviation TOTAL_MEMORY :: u32 where
  "TOTAL_MEMORY \<equiv> 16 * 1024 * 1024"

abbreviation TOTAL_FRAMES :: u32 where
  "TOTAL_FRAMES \<equiv> TOTAL_MEMORY div PAGE_SIZE"

abbreviation PMM_BITMAP_ADDRESS :: u32 where
  "PMM_BITMAP_ADDRESS \<equiv> 0x200000"

record pmm_t =
  total_frames :: u32
  used_frames :: u32
  bitmap :: "u32 list"
  bitmap_size :: u32

definition BITMAP_INDEX :: "u32 \<Rightarrow> u32" where
  "BITMAP_INDEX frame = frame div 32"

definition BITMAP_OFFSET :: "u32 \<Rightarrow> u32" where
  "BITMAP_OFFSET frame = frame mod 32"

section \<open>Bitmap operations\<close>

definition pmm_set_frame :: "u32 \<Rightarrow> pmm_t \<Rightarrow> pmm_t" where
  "pmm_set_frame frame pmm =
     (let idx = unat (BITMAP_INDEX frame); off = unat (BITMAP_OFFSET frame)
      in pmm\<lparr>bitmap := (bitmap pmm)[idx := (bitmap pmm ! idx) OR push_bit off 1],
             used_frames := used_frames pmm + 1\<rparr>)"

definition pmm_clear_frame :: "u32 \<Rightarrow> pmm_t \<Rightarrow> pmm_t" where
  "pmm_clear_frame frame pmm =
     (let idx = unat (BITMAP_INDEX frame); off = unat (BITMAP_OFFSET frame)
      in pmm\<lparr>bitmap := (bitmap pmm)[idx := (bitmap pmm ! idx) AND NOT (push_bit off 1)],
             used_frames := used_frames pmm - 1\<rparr>)"

definition pmm_test_frame :: "u32 \<Rightarrow> pmm_t \<Rightarrow> bool" where
  "pmm_test_frame frame pmm =
     (let idx = unat (BITMAP_INDEX frame); off = unat (BITMAP_OFFSET frame)
      in (bitmap pmm ! idx) AND push_bit off 1 \<noteq> 0)"

definition pmm_first_free_frame :: "pmm_t \<Rightarrow> u32" where
  "pmm_first_free_frame pmm =
     (case first_some (\<lambda>i.
             if bitmap pmm ! i \<noteq> 0xFFFFFFFF then
               first_some (\<lambda>j. let bit = push_bit j 1
                               in if (bitmap pmm ! i) AND bit = 0 then Some (of_nat i * 32 + of_nat j)
                                  else None) [0..<32]
             else None) [0..<unat (bitmap_size pmm)] of
        Some frame \<Rightarrow> frame
      | None \<Rightarrow> TOTAL_FRAMES)"

section \<open>Initialisation\<close>

definition pmm_mark_reserved_regions :: "pmm_t \<Rightarrow> pmm_t" where
  "pmm_mark_reserved_regions pmm =
     (let pmm1 = fold (\<lambda>frame. pmm_set_frame (of_nat frame)) [0..<256] pmm;
          pmm2 = fold (\<lambda>frame. pmm_set_frame (of_nat frame)) [256..<512] pmm1;
          bitmap_start_frame = PMM_BITMAP_ADDRESS div PAGE_SIZE;
          bitmap_bytes = bitmap_size pmm2 * 4;
          bitmap_frames = bitmap_bytes div PAGE_SIZE + 1;
          pmm3 = fold (\<lambda>i. pmm_set_frame (bitmap_start_frame + of_nat i)) [0..<unat bitmap_frames] pmm2
      in fold (\<lambda>frame. pmm_set_frame (of_nat frame)) [3840..<4096] pmm3)"

text \<open>The static structure is zero before \<^verbatim>\<open>pmm_init\<close> fills every field.\<close>

definition pmm_init :: pmm_t where
  "pmm_init =
     (let total = TOTAL_FRAMES; size = (total + 31) div 32
      in pmm_mark_reserved_regions
           \<lparr>total_frames = total, used_frames = 0, bitmap = replicate (unat size) 0, bitmap_size = size\<rparr>)"

section \<open>Allocation and release\<close>

text \<open>The address 0 is the failure value of the allocator.\<close>

definition alloc_page :: "pmm_t \<Rightarrow> u32 \<times> pmm_t" where
  "alloc_page pmm =
     (let frame = pmm_first_free_frame pmm
      in if frame = TOTAL_FRAMES then (0, pmm)
         else (frame * PAGE_SIZE, pmm_set_frame frame pmm))"

text \<open>The scan of \<^verbatim>\<open>alloc_pages\<close>: the start frame once \<open>count\<close> free frames follow each other.\<close>

fun alloc_pages_scan :: "u32 list \<Rightarrow> u32 \<Rightarrow> u32 \<Rightarrow> u32 \<Rightarrow> pmm_t \<Rightarrow> u32 option" where
  "alloc_pages_scan [] count start_frame consecutive pmm = None"
| "alloc_pages_scan (frame # frames) count start_frame consecutive pmm =
     (if \<not> pmm_test_frame frame pmm then
        let start_frame' = (if consecutive = 0 then frame else start_frame);
            consecutive' = consecutive + 1
        in if consecutive' = count then Some start_frame'
           else alloc_pages_scan frames count start_frame' consecutive' pmm
      else alloc_pages_scan frames count start_frame 0 pmm)"

definition alloc_pages :: "u32 \<Rightarrow> pmm_t \<Rightarrow> u32 \<times> pmm_t" where
  "alloc_pages count pmm =
     (if count = 0 then (0, pmm)
      else if count = 1 then alloc_page pmm
      else case alloc_pages_scan (map of_nat [0..<unat (total_frames pmm)]) count 0 0 pmm of
             Some start_frame \<Rightarrow>
               (start_frame * PAGE_SIZE,
                fold (\<lambda>i. pmm_set_frame (start_frame + of_nat i)) [0..<unat count] pmm)
           | None \<Rightarrow> (0, pmm))"

text \<open>\<^verbatim>\<open>free_page\<close>, with the diagnostic it prints.\<close>

definition free_page :: "u32 \<Rightarrow> pmm_t \<Rightarrow> string \<times> pmm_t" where
  "free_page addr pmm =
     (if addr mod PAGE_SIZE \<noteq> 0 then
        (''ERROR: free_page() - Address not page-aligned: 0x'' @ hex_str addr @ [CHR 0x0A], pmm)
      else let frame = addr div PAGE_SIZE
           in if total_frames pmm \<le> frame then
                (''ERROR: free_page() - Frame out of range: '' @ num_str frame @ [CHR 0x0A], pmm)
              else if \<not> pmm_test_frame frame pmm then
                (''WARNING: free_page() - Double free detected at 0x'' @ hex_str addr @ [CHR 0x0A], pmm)
              else ([], pmm_clear_frame frame pmm))"

section \<open>Statistics\<close>

definition get_total_memory :: "pmm_t \<Rightarrow> u32" where
  "get_total_memory pmm = total_frames pmm * PAGE_SIZE"

definition get_used_memory :: "pmm_t \<Rightarrow> u32" where
  "get_used_memory pmm = used_frames pmm * PAGE_SIZE"

definition get_free_memory :: "pmm_t \<Rightarrow> u32" where
  "get_free_memory pmm = (total_frames pmm - used_frames pmm) * PAGE_SIZE"

definition pmm_status :: "pmm_t \<Rightarrow> string" where
  "pmm_status pmm =
     (let total_kb = (total_frames pmm * PAGE_SIZE) div 1024;
          used_kb = (used_frames pmm * PAGE_SIZE) div 1024;
          free_kb = total_kb - used_kb;
          free_frames = total_frames pmm - used_frames pmm
      in ''Physical Memory Manager Status:'' @ [CHR 0x0A] @
         ''  Total Memory:  '' @ num_str total_kb @ '' KB ('' @ num_str (total_frames pmm) @ '' frames)'' @ [CHR 0x0A] @
         ''  Used Memory:   '' @ num_str used_kb @ '' KB ('' @ num_str (used_frames pmm) @ '' frames)'' @ [CHR 0x0A] @
         ''  Free Memory:   '' @ num_str free_kb @ '' KB ('' @ num_str free_frames @ '' frames)'' @ [CHR 0x0A] @
         ''  Page Size:     '' @ num_str (PAGE_SIZE div 1024) @ '' KB'' @ [CHR 0x0A] @
         ''  Bitmap Size:   '' @ num_str (bitmap_size pmm * 4) @ '' bytes ('' @ num_str (bitmap_size pmm) @
         '' uint32_t)'' @ [CHR 0x0A])"

section \<open>Abstraction: the set of used frames\<close>

definition frame_used :: "pmm_t \<Rightarrow> nat \<Rightarrow> bool" where
  "frame_used pmm f \<longleftrightarrow> bit (bitmap pmm ! (f div 32)) (f mod 32)"

definition used_set :: "pmm_t \<Rightarrow> nat set" where
  "used_set pmm = {f. f < 4096 \<and> frame_used pmm f}"

definition pmm_inv :: "pmm_t \<Rightarrow> bool" where
  "pmm_inv pmm \<longleftrightarrow>
     total_frames pmm = 4096 \<and> bitmap_size pmm = 128 \<and> length (bitmap pmm) = 128 \<and>
     unat (used_frames pmm) = card (used_set pmm)"

lemma used_set_finite [simp]: "finite (used_set pmm)"
  by (rule finite_subset [of _ "{..<4096}"]) (auto simp: used_set_def)

lemma card_used_set_le: "card (used_set pmm) \<le> 4096"
  using card_mono [of "{..<4096}" "used_set pmm"] by (auto simp: used_set_def)

section \<open>The bitmap operations on sets\<close>

lemma unat_bitmap_index: "unat (BITMAP_INDEX frame) = unat frame div 32"
  using unat_div_distrib [of frame 32] by (simp add: BITMAP_INDEX_def)

lemma unat_bitmap_offset: "unat (BITMAP_OFFSET frame) = unat frame mod 32"
  using unat_mod_distrib [of frame 32] by (simp add: BITMAP_OFFSET_def)

lemma pmm_test_frame_iff: "pmm_test_frame frame pmm \<longleftrightarrow> frame_used pmm (unat frame)"
  by (simp add: pmm_test_frame_def frame_used_def unat_bitmap_index unat_bitmap_offset
      bit_iff_and_push_bit_not_eq_0)

lemma div_mod_32_neq: "f \<noteq> g \<Longrightarrow> f div 32 = g div 32 \<Longrightarrow> f mod 32 \<noteq> g mod (32 :: nat)"
  by (metis mod_div_mult_eq)

lemma frame_used_set_frame:
  assumes "length (bitmap pmm) = 128" "unat frame < 4096"
  shows "frame_used (pmm_set_frame frame pmm) g \<longleftrightarrow> g = unat frame \<or> frame_used pmm g"
proof (cases "g div 32 = unat frame div 32")
  case True
  have "unat frame div 32 < 128" "g mod 32 < 32" using assms(2) by auto
  then have "frame_used (pmm_set_frame frame pmm) g \<longleftrightarrow>
      g mod 32 = unat frame mod 32 \<or> frame_used pmm g"
    using assms(1) True
    by (simp add: frame_used_def pmm_set_frame_def Let_def unat_bitmap_index unat_bitmap_offset
        bit_simps) auto
  then show ?thesis using True div_mod_32_neq by blast
next
  case False
  then show ?thesis
    by (auto simp: frame_used_def pmm_set_frame_def Let_def unat_bitmap_index)
qed

lemma frame_used_clear_frame:
  assumes "length (bitmap pmm) = 128" "unat frame < 4096"
  shows "frame_used (pmm_clear_frame frame pmm) g \<longleftrightarrow> g \<noteq> unat frame \<and> frame_used pmm g"
proof (cases "g div 32 = unat frame div 32")
  case True
  have "unat frame div 32 < 128" "g mod 32 < 32" using assms(2) by auto
  then have "frame_used (pmm_clear_frame frame pmm) g \<longleftrightarrow>
      g mod 32 \<noteq> unat frame mod 32 \<and> frame_used pmm g"
    using assms(1) True
    by (simp add: frame_used_def pmm_clear_frame_def Let_def unat_bitmap_index unat_bitmap_offset
        bit_simps) auto
  then show ?thesis using True div_mod_32_neq by blast
next
  case False
  then show ?thesis
    by (auto simp: frame_used_def pmm_clear_frame_def Let_def unat_bitmap_index)
qed

lemma pmm_set_frame_simps [simp]:
  "total_frames (pmm_set_frame frame pmm) = total_frames pmm"
  "bitmap_size (pmm_set_frame frame pmm) = bitmap_size pmm"
  "length (bitmap (pmm_set_frame frame pmm)) = length (bitmap pmm)"
  "used_frames (pmm_set_frame frame pmm) = used_frames pmm + 1"
  by (simp_all add: pmm_set_frame_def Let_def)

lemma pmm_clear_frame_simps [simp]:
  "total_frames (pmm_clear_frame frame pmm) = total_frames pmm"
  "bitmap_size (pmm_clear_frame frame pmm) = bitmap_size pmm"
  "length (bitmap (pmm_clear_frame frame pmm)) = length (bitmap pmm)"
  "used_frames (pmm_clear_frame frame pmm) = used_frames pmm - 1"
  by (simp_all add: pmm_clear_frame_def Let_def)

lemma used_set_set_frame:
  "length (bitmap pmm) = 128 \<Longrightarrow> unat frame < 4096 \<Longrightarrow>
   used_set (pmm_set_frame frame pmm) = insert (unat frame) (used_set pmm)"
  by (auto simp: used_set_def frame_used_set_frame)

lemma used_set_clear_frame:
  "length (bitmap pmm) = 128 \<Longrightarrow> unat frame < 4096 \<Longrightarrow>
   used_set (pmm_clear_frame frame pmm) = used_set pmm - {unat frame}"
  by (auto simp: used_set_def frame_used_clear_frame)

lemma pmm_inv_set_frame:
  assumes "pmm_inv pmm" "unat frame < 4096" "unat frame \<notin> used_set pmm"
  shows "pmm_inv (pmm_set_frame frame pmm)"
proof -
  have "unat (used_frames pmm) \<le> 4096" using assms(1) card_used_set_le by (simp add: pmm_inv_def)
  with assms show ?thesis
    by (auto simp: pmm_inv_def used_set_set_frame unat_add_u32)
qed

lemma pmm_inv_clear_frame:
  assumes "pmm_inv pmm" "unat frame \<in> used_set pmm"
  shows "pmm_inv (pmm_clear_frame frame pmm)"
proof -
  have "0 < card (used_set pmm)" using assms(2) by (auto simp: card_gt_0_iff)
  moreover have "unat frame < 4096" using assms(2) by (simp add: used_set_def)
  ultimately show ?thesis
    using assms by (simp add: pmm_inv_def used_set_clear_frame unat_sub_u32 card_Diff_singleton)
qed

text \<open>Marking a list of distinct free frames, one after the other.\<close>

lemma fold_set_frame:
  assumes "length (bitmap pmm) = 128" "\<forall>x \<in> set xs. unat (f x) < 4096"
  shows "used_set (fold (\<lambda>x. pmm_set_frame (f x)) xs pmm) = unat ` f ` set xs \<union> used_set pmm"
    and "length (bitmap (fold (\<lambda>x. pmm_set_frame (f x)) xs pmm)) = 128"
    and "total_frames (fold (\<lambda>x. pmm_set_frame (f x)) xs pmm) = total_frames pmm"
    and "bitmap_size (fold (\<lambda>x. pmm_set_frame (f x)) xs pmm) = bitmap_size pmm"
    and "used_frames (fold (\<lambda>x. pmm_set_frame (f x)) xs pmm) = used_frames pmm + of_nat (length xs)"
  using assms by (induction xs arbitrary: pmm) (auto simp: used_set_set_frame)

lemma pmm_inv_fold_set_frame:
  assumes "pmm_inv pmm" "\<forall>x \<in> set xs. unat (f x) < 4096 \<and> unat (f x) \<notin> used_set pmm"
    and "inj_on f (set xs)" "distinct xs"
  shows "pmm_inv (fold (\<lambda>x. pmm_set_frame (f x)) xs pmm)"
  using assms
proof (induction xs arbitrary: pmm)
  case Nil
  then show ?case by simp
next
  case (Cons x xs)
  have "f y \<noteq> f x" if "y \<in> set xs" for y
    using Cons.prems(3,4) that by (auto simp: inj_on_def)
  then have "\<forall>y \<in> set xs. unat (f y) < 4096 \<and> unat (f y) \<notin> used_set (pmm_set_frame (f x) pmm)"
    using Cons.prems(1,2) by (auto simp: used_set_set_frame pmm_inv_def simp flip: u32_eq_iff_unat)
  with Cons show ?case by (auto intro: pmm_inv_set_frame)
qed

section \<open>Finding the first free frame\<close>

lemma and_push_bit_eq_0_iff: "w AND push_bit j 1 = 0 \<longleftrightarrow> \<not> bit (w :: u32) j"
  by (simp add: bit_iff_and_push_bit_not_eq_0)

lemma bit_all_ones: "bit (0xFFFFFFFF :: u32) j \<longleftrightarrow> j < 32"
proof -
  have "(0xFFFFFFFF :: u32) = - 1" by simp
  then show ?thesis by (simp only: bit_minus_1_iff) (simp add: possible_bit_def)
qed

lemma pos_mod_bound_32: "g mod 32 < (32 :: nat)"
  by simp

definition first_free_in_word :: "pmm_t \<Rightarrow> nat \<Rightarrow> u32 option" where
  "first_free_in_word pmm i =
     (if bitmap pmm ! i \<noteq> 0xFFFFFFFF then
        first_some (\<lambda>j. if \<not> bit (bitmap pmm ! i) j then Some (of_nat i * 32 + of_nat j) else None) [0..<32]
      else None)"

lemma pmm_first_free_frame_eq:
  "pmm_first_free_frame pmm =
     (case first_some (first_free_in_word pmm) [0..<unat (bitmap_size pmm)] of
        Some frame \<Rightarrow> frame | None \<Rightarrow> TOTAL_FRAMES)"
  unfolding pmm_first_free_frame_def first_free_in_word_def [abs_def] and_push_bit_eq_0_iff Let_def
  by (rule refl)

lemma first_free_in_word_None:
  "first_free_in_word pmm i = None \<longleftrightarrow> (\<forall>j < 32. frame_used pmm (i * 32 + j))"
proof (cases "bitmap pmm ! i = 0xFFFFFFFF")
  case True
  have "(i * 32 + j) div 32 = i \<and> (i * 32 + j) mod 32 = j" if "j < 32" for j using that by simp
  with True have "frame_used pmm (i * 32 + j)" if "j < 32" for j
    using that by (simp only: frame_used_def bit_all_ones)
  with True show ?thesis by (simp add: first_free_in_word_def)
next
  case False
  then show ?thesis by (auto simp: first_free_in_word_def first_some_None_iff frame_used_def)
qed

lemma first_free_in_word_Some:
  assumes "first_free_in_word pmm i = Some v" "i < 128"
  obtains j where "j < 32" "unat v = i * 32 + j" "\<not> frame_used pmm (i * 32 + j)"
    "\<forall>k < j. frame_used pmm (i * 32 + k)"
proof -
  from assms(1) have
    "first_some (\<lambda>j. if \<not> bit (bitmap pmm ! i) j then Some (of_nat i * 32 + of_nat j :: u32) else None) [0..<32] = Some v"
    by (simp add: first_free_in_word_def split: if_splits)
  then obtain j where j: "j < 32" "\<not> bit (bitmap pmm ! i) j" "v = of_nat i * 32 + of_nat j"
    and least: "\<forall>k < j. bit (bitmap pmm ! i) k"
    by (rule first_some_upt_SomeD) (auto split: if_splits)
  have "v = of_nat (i * 32 + j)" using j by simp
  then have "unat v = i * 32 + j"
    using j assms(2) by (simp only: unat_of_nat_u32)
  with j least show thesis by (intro that) (auto simp: frame_used_def)
qed

text \<open>The scan returns the least free frame, or \<^verbatim>\<open>TOTAL_FRAMES\<close> exactly when none is free.\<close>

lemma first_free_frame_cases:
  assumes "pmm_inv pmm"
  obtains (full) "pmm_first_free_frame pmm = TOTAL_FRAMES" "used_set pmm = {..<4096}"
  | (free) "unat (pmm_first_free_frame pmm) < 4096" "unat (pmm_first_free_frame pmm) \<notin> used_set pmm"
      "\<forall>g < unat (pmm_first_free_frame pmm). g \<in> used_set pmm"
proof (cases "first_some (first_free_in_word pmm) [0..<128]")
  case None
  have used: "frame_used pmm f" if "f < 4096" for f
  proof -
    have "f div 32 < 128" using that by auto
    then have "first_free_in_word pmm (f div 32) = None" using None by (auto simp: first_some_None_iff)
    then have "frame_used pmm (f div 32 * 32 + f mod 32)" by (simp only: first_free_in_word_None)
    then show ?thesis by simp
  qed
  with None assms show ?thesis
    by (intro full) (auto simp: pmm_first_free_frame_eq pmm_inv_def used_set_def)
next
  case (Some v)
  then obtain i where i: "i < 128" "first_free_in_word pmm i = Some v"
    and before: "\<forall>k < i. first_free_in_word pmm k = None"
    by (rule first_some_upt_SomeD)
  from i(2,1) obtain j where j: "j < 32" "unat v = i * 32 + j" "\<not> frame_used pmm (i * 32 + j)"
    "\<forall>k < j. frame_used pmm (i * 32 + k)" by (rule first_free_in_word_Some)
  have v: "pmm_first_free_frame pmm = v"
    using Some assms by (simp add: pmm_first_free_frame_eq pmm_inv_def)
  have "g \<in> used_set pmm" if "g < unat v" for g
  proof -
    have g: "g div 32 < i \<or> g div 32 = i \<and> g mod 32 < j" 
      using that j(1,2) div_mult_mod_eq [of g 32] pos_mod_bound_32 [of g] by linarith
    have "frame_used pmm (g div 32 * 32 + g mod 32)"
    proof (cases "g div 32 < i")
      case True
      then have "first_free_in_word pmm (g div 32) = None" using before by blast
      then show ?thesis by (simp only: first_free_in_word_None)
    next
      case False
      with g j(4) show ?thesis by auto
    qed
    with that j(1,2) i(1) show ?thesis by (simp add: used_set_def)
  qed
  with v j i(1) show ?thesis by (intro free) (auto simp: used_set_def)
qed

section \<open>Allocation and release on sets\<close>

lemma alloc_page_spec:
  assumes "pmm_inv pmm" "alloc_page pmm = (addr, pmm')"
  shows "pmm_inv pmm'"
    and "used_set pmm = {..<4096} \<Longrightarrow> addr = 0 \<and> pmm' = pmm"
    and "used_set pmm \<noteq> {..<4096} \<Longrightarrow>
       unat addr mod 4096 = 0 \<and> unat addr div 4096 < 4096 \<and>
       unat addr div 4096 \<notin> used_set pmm \<and> (\<forall>g < unat addr div 4096. g \<in> used_set pmm) \<and>
       used_set pmm' = insert (unat addr div 4096) (used_set pmm)"
proof -
  have goal: "pmm_inv pmm' \<and> (used_set pmm = {..<4096} \<longrightarrow> addr = 0 \<and> pmm' = pmm) \<and>
    (used_set pmm \<noteq> {..<4096} \<longrightarrow>
       unat addr mod 4096 = 0 \<and> unat addr div 4096 < 4096 \<and>
       unat addr div 4096 \<notin> used_set pmm \<and> (\<forall>g < unat addr div 4096. g \<in> used_set pmm) \<and>
       used_set pmm' = insert (unat addr div 4096) (used_set pmm))"
    using assms(1)
  proof (cases rule: first_free_frame_cases)
    case full
    with assms show ?thesis by (simp add: alloc_page_def)
  next
    case free
    define f where "f = pmm_first_free_frame pmm"
    have neq: "f \<noteq> TOTAL_FRAMES" using free(1) by (auto simp: f_def u32_eq_iff_unat)
    have addr: "addr = f * PAGE_SIZE" "pmm' = pmm_set_frame f pmm"
      using assms(2) neq by (simp_all add: alloc_page_def f_def [symmetric])
    have "unat addr = unat f * 4096"
      using free(1) unfolding addr f_def by (subst unat_mult_u32) auto
    moreover have "used_set pmm \<noteq> {..<4096}" using free(1,2) by auto
    ultimately show ?thesis
      using free assms(1) addr pmm_inv_set_frame [of pmm f] used_set_set_frame [of pmm f]
      by (simp add: f_def [symmetric] pmm_inv_def)
  qed
  from goal show "pmm_inv pmm'" and "used_set pmm = {..<4096} \<Longrightarrow> addr = 0 \<and> pmm' = pmm"
    and "used_set pmm \<noteq> {..<4096} \<Longrightarrow>
       unat addr mod 4096 = 0 \<and> unat addr div 4096 < 4096 \<and>
       unat addr div 4096 \<notin> used_set pmm \<and> (\<forall>g < unat addr div 4096. g \<in> used_set pmm) \<and>
       used_set pmm' = insert (unat addr div 4096) (used_set pmm)"
    by blast+
qed

lemma unat_mod_page: "unat (addr mod PAGE_SIZE) = unat addr mod 4096"
  using unat_mod_distrib [of addr PAGE_SIZE] by simp

lemma unat_div_page: "unat (addr div PAGE_SIZE) = unat addr div 4096"
  using unat_div_distrib [of addr PAGE_SIZE] by simp

text \<open>The branches of \<^verbatim>\<open>free_page\<close> decide on alignment, range and use of the frame.\<close>

lemma free_page_unfold:
  assumes "pmm_inv pmm"
  shows "free_page addr pmm =
     (if unat addr mod 4096 \<noteq> 0 then
        (''ERROR: free_page() - Address not page-aligned: 0x'' @ hex_str addr @ [CHR 0x0A], pmm)
      else if 4096 \<le> unat addr div 4096 then
        (''ERROR: free_page() - Frame out of range: '' @ num_str (addr div PAGE_SIZE) @ [CHR 0x0A], pmm)
      else if unat addr div 4096 \<notin> used_set pmm then
        (''WARNING: free_page() - Double free detected at 0x'' @ hex_str addr @ [CHR 0x0A], pmm)
      else ([], pmm_clear_frame (addr div PAGE_SIZE) pmm))"
  using assms unat_mod_page [of addr] unat_div_page [of addr]
  by (simp add: free_page_def Let_def u32_ord_unat pmm_test_frame_iff used_set_def pmm_inv_def
      del: unat_eq_0)

lemma free_page_spec:
  assumes "pmm_inv pmm" "free_page addr pmm = (msg, pmm')"
  shows "pmm_inv pmm'"
    and "unat addr mod 4096 = 0 \<Longrightarrow> unat addr div 4096 \<in> used_set pmm \<Longrightarrow>
           msg = [] \<and> used_set pmm' = used_set pmm - {unat addr div 4096}"
    and "\<not> (unat addr mod 4096 = 0 \<and> unat addr div 4096 \<in> used_set pmm) \<Longrightarrow> msg \<noteq> [] \<and> pmm' = pmm"
proof -
  have less: "f < 4096" if "f \<in> used_set pmm" for f using that by (simp add: used_set_def)
  show "pmm_inv pmm'"
    using assms pmm_inv_clear_frame [of pmm "addr div PAGE_SIZE"]
    by (auto simp: free_page_unfold unat_div_page split: if_splits)
  show "msg = [] \<and> used_set pmm' = used_set pmm - {unat addr div 4096}"
    if "unat addr mod 4096 = 0" "unat addr div 4096 \<in> used_set pmm"
    using assms that less [OF that(2)] used_set_clear_frame [of pmm "addr div PAGE_SIZE"]
    by (auto simp: free_page_unfold unat_div_page pmm_inv_def)
  show "msg \<noteq> [] \<and> pmm' = pmm"
    if "\<not> (unat addr mod 4096 = 0 \<and> unat addr div 4096 \<in> used_set pmm)"
    using assms that by (auto simp: free_page_unfold split: if_splits)
qed

section \<open>Contiguous allocation\<close>

text \<open>A run of \<open>n\<close> free frames starting at frame \<open>s\<close>.\<close>

definition free_run :: "pmm_t \<Rightarrow> nat \<Rightarrow> nat \<Rightarrow> bool" where
  "free_run pmm s n \<longleftrightarrow> s + n \<le> 4096 \<and> {s..<s + n} \<inter> used_set pmm = {}"

lemma alloc_pages_scan_spec:
  assumes "unat c < unat count" "unat c \<le> f" "c \<noteq> 0 \<longrightarrow> unat s = f - unat c" "f \<le> 4096"
    and "{f - unat c..<f} \<inter> used_set pmm = {}"
    and "\<forall>s0 < f - unat c. {s0..<s0 + unat count} \<inter> used_set pmm \<noteq> {}"
  shows "case alloc_pages_scan (map of_nat [f..<4096]) count s c pmm of
      Some s' \<Rightarrow> free_run pmm (unat s') (unat count) \<and> (\<forall>s0 < unat s'. \<not> free_run pmm s0 (unat count))
    | None \<Rightarrow> \<forall>s0. \<not> free_run pmm s0 (unat count)"
  using assms
proof (induction "4096 - f" arbitrary: f s c)
  case 0
  then have f: "f = 4096" by simp
  have "\<not> free_run pmm s0 (unat count)" for s0
  proof (cases "s0 < f - unat c")
    case True
    then show ?thesis using "0.prems"(6) by (simp add: free_run_def)
  next
    case False
    then show ?thesis using "0.prems"(1) f by (simp add: free_run_def)
  qed
  then show ?case using f by simp
next
  case (Suc n)
  have f: "f < 4096" "n = 4096 - Suc f" using Suc.hyps(2) by simp_all
  have list: "map (of_nat :: nat \<Rightarrow> u32) [f..<4096] = of_nat f # map of_nat [Suc f..<4096]"
    using f(1) by (simp add: upt_conv_Cons)
  have uf: "unat (of_nat f :: u32) = f" using f(1) by (intro unat_of_nat_u32) simp
  have test: "pmm_test_frame (of_nat f) pmm \<longleftrightarrow> f \<in> used_set pmm"
    using f(1) by (simp only: pmm_test_frame_iff uf used_set_def mem_Collect_eq) simp
  show ?case
  proof (cases "f \<in> used_set pmm")
    case True
    have "{s0..<s0 + unat count} \<inter> used_set pmm \<noteq> {}" if "s0 < Suc f" for s0
    proof (cases "s0 < f - unat c")
      case False
      then have "f \<in> {s0..<s0 + unat count}" using that Suc.prems(1) by auto
      with True show ?thesis by blast
    qed (use Suc.prems(6) in blast)
    then have "case alloc_pages_scan (map of_nat [Suc f..<4096]) count s 0 pmm of
      Some s' \<Rightarrow> free_run pmm (unat s') (unat count) \<and> (\<forall>s0 < unat s'. \<not> free_run pmm s0 (unat count))
    | None \<Rightarrow> \<forall>s0. \<not> free_run pmm s0 (unat count)"
      using Suc.prems(1) f by (intro Suc.hyps(1)) auto
    then show ?thesis using True test unfolding list by simp
  next
    case False
    define s' where "s' = (if c = 0 then of_nat f else s)"
    have s': "unat s' = f - unat c" using Suc.prems(3) uf by (auto simp: s'_def)
    have c1: "unat (c + 1) = Suc (unat c)"
      using Suc.prems(2) f(1) by (subst unat_add_u32) auto
    have run: "{f - unat c..<Suc f} \<inter> used_set pmm = {}"
      using Suc.prems(5) False by (auto simp: less_Suc_eq disjoint_iff)
    show ?thesis
    proof (cases "c + 1 = count")
      case True
      then have cnt: "unat count = Suc (unat c)" using c1 by simp
      have "free_run pmm (unat s') (unat count)"
        using run f(1) Suc.prems(2) by (simp add: free_run_def s' cnt)
      moreover have "\<not> free_run pmm s0 (unat count)" if "s0 < unat s'" for s0
        using that Suc.prems(6) by (simp add: free_run_def s')
      ultimately show ?thesis using True False test unfolding list by (simp add: s'_def)
    next
      case neq: False
      then have "Suc (unat c) < unat count"
        using Suc.prems(1) c1 by (metis Suc_lessI u32_eq_iff_unat)
      then have "case alloc_pages_scan (map of_nat [Suc f..<4096]) count s' (c + 1) pmm of
          Some s' \<Rightarrow> free_run pmm (unat s') (unat count) \<and> (\<forall>s0 < unat s'. \<not> free_run pmm s0 (unat count))
        | None \<Rightarrow> \<forall>s0. \<not> free_run pmm s0 (unat count)"
        using Suc.prems f run by (intro Suc.hyps(1)) (auto simp: c1 s')
      then show ?thesis using neq False test unfolding list by (simp add: s'_def)
    qed
  qed
qed

lemma free_run_1: "free_run pmm s (Suc 0) \<longleftrightarrow> s < 4096 \<and> s \<notin> used_set pmm"
  by (auto simp: free_run_def)

lemma mark_run:
  assumes "pmm_inv pmm" "free_run pmm (unat s) (unat count)"
  defines "pmm' \<equiv> fold (\<lambda>i. pmm_set_frame (s + of_nat i)) [0..<unat count] pmm"
  shows "pmm_inv pmm'" "used_set pmm' = {unat s..<unat s + unat count} \<union> used_set pmm"
proof -
  have frame: "unat (s + of_nat i) = unat s + i" if "i < unat count" for i
  proof -
    have "i < 4096" "unat s + i < 4096" using that assms(2) by (simp_all add: free_run_def)
    then show ?thesis by (simp add: unat_add_u32 unat_of_nat_u32)
  qed
  have "inj_on (\<lambda>i. s + of_nat i) {0..<unat count}"
    by (rule inj_onI) (metis frame add_left_cancel atLeastLessThan_iff)
  then show "pmm_inv pmm'"
    unfolding pmm'_def using assms(1,2) frame
    by (intro pmm_inv_fold_set_frame) (auto simp: free_run_def disjoint_iff)
  have "unat ` (\<lambda>i. s + of_nat i) ` {0..<unat count} = (\<lambda>i. unat s + i) ` {0..<unat count}"
    unfolding image_image using frame by (intro image_cong) simp_all
  also have "\<dots> = {unat s..<unat s + unat count}"
    by (simp add: add.commute [of "unat s"] image_add_atLeastLessThan')
  finally show "used_set pmm' = {unat s..<unat s + unat count} \<union> used_set pmm"
    unfolding pmm'_def using assms(1,2) frame by (subst fold_set_frame(1)) (auto simp: pmm_inv_def free_run_def)
qed

text \<open>First fit: the lowest run of \<open>count\<close> free frames, and failure only when there is none.\<close>

lemma alloc_pages_spec:
  assumes "pmm_inv pmm" "alloc_pages count pmm = (addr, pmm')" "count \<noteq> 0"
  shows "pmm_inv pmm'"
    and "\<exists>s. free_run pmm s (unat count) \<Longrightarrow>
       unat addr mod 4096 = 0 \<and> free_run pmm (unat addr div 4096) (unat count) \<and>
       (\<forall>s < unat addr div 4096. \<not> free_run pmm s (unat count)) \<and>
       used_set pmm' = {unat addr div 4096..<unat addr div 4096 + unat count} \<union> used_set pmm"
    and "\<nexists>s. free_run pmm s (unat count) \<Longrightarrow> addr = 0 \<and> pmm' = pmm"
proof -
  let ?ok = "pmm_inv pmm' \<and>
    ((\<exists>s. free_run pmm s (unat count)) \<longrightarrow>
       unat addr mod 4096 = 0 \<and> free_run pmm (unat addr div 4096) (unat count) \<and>
       (\<forall>s < unat addr div 4096. \<not> free_run pmm s (unat count)) \<and>
       used_set pmm' = {unat addr div 4096..<unat addr div 4096 + unat count} \<union> used_set pmm) \<and>
    ((\<nexists>s. free_run pmm s (unat count)) \<longrightarrow> addr = 0 \<and> pmm' = pmm)"
  have ?ok
  proof (cases "count = 1")
    case True
    then have alloc: "alloc_page pmm = (addr, pmm')" using assms(2) by (simp add: alloc_pages_def)
    show ?thesis
    proof (cases "used_set pmm = {..<4096}")
      case full: True
      then have "\<not> free_run pmm s 1" for s by (simp add: free_run_1)
      with True full alloc_page_spec(1,2) [OF assms(1) alloc] show ?thesis by simp
    next
      case False
      from alloc_page_spec(1,3) [OF assms(1) alloc] False
      have new: "pmm_inv pmm'" "unat addr mod 4096 = 0" "free_run pmm (unat addr div 4096) 1"
        "\<forall>s < unat addr div 4096. \<not> free_run pmm s 1"
        "used_set pmm' = {unat addr div 4096..<unat addr div 4096 + 1} \<union> used_set pmm"
        by (simp_all add: free_run_1)
      then have "\<exists>s. free_run pmm s 1" by blast
      moreover have "unat count = 1" using True by simp
      ultimately show ?thesis using new by (simp only: simp_thms)
    qed
  next
    case False
    let ?scan = "alloc_pages_scan (map of_nat [0..<unat (total_frames pmm)]) count 0 0 pmm"
    have eq: "(addr, pmm') = (case ?scan of
        Some s \<Rightarrow> (s * PAGE_SIZE, fold (\<lambda>i. pmm_set_frame (s + of_nat i)) [0..<unat count] pmm)
      | None \<Rightarrow> (0, pmm))"
      using assms(2,3) False by (simp add: alloc_pages_def)
    have spec: "case ?scan of
        Some s \<Rightarrow> free_run pmm (unat s) (unat count) \<and> (\<forall>s0 < unat s. \<not> free_run pmm s0 (unat count))
      | None \<Rightarrow> \<forall>s0. \<not> free_run pmm s0 (unat count)"
      using assms(1,3) alloc_pages_scan_spec [of 0 count 0 0 pmm]
      by (simp add: pmm_inv_def unat_gt_0)
    show ?thesis
    proof (cases ?scan)
      case None
      with eq spec assms(1) show ?thesis by auto
    next
      case (Some s)
      then have run: "free_run pmm (unat s) (unat count)" using spec by simp
      then have "unat (s * PAGE_SIZE) = unat s * 4096"
        by (subst unat_mult_u32) (auto simp: free_run_def)
      with Some eq spec mark_run [OF assms(1) run] show ?thesis by auto
    qed
  qed
  then show "pmm_inv pmm'"
    and "\<exists>s. free_run pmm s (unat count) \<Longrightarrow>
       unat addr mod 4096 = 0 \<and> free_run pmm (unat addr div 4096) (unat count) \<and>
       (\<forall>s < unat addr div 4096. \<not> free_run pmm s (unat count)) \<and>
       used_set pmm' = {unat addr div 4096..<unat addr div 4096 + unat count} \<union> used_set pmm"
    and "\<nexists>s. free_run pmm s (unat count) \<Longrightarrow> addr = 0 \<and> pmm' = pmm"
    by blast+
qed

section \<open>The state after boot\<close>

lemma image_unat_of_nat: "b \<le> 4096 \<Longrightarrow> unat ` (of_nat :: nat \<Rightarrow> u32) ` {a..<b} = {a..<b}"
  by (force simp: image_image unat_of_nat_u32 image_iff)

definition pmm_reset :: pmm_t where
  "pmm_reset = \<lparr>total_frames = 4096, used_frames = 0, bitmap = replicate 128 0, bitmap_size = 128\<rparr>"

lemma pmm_inv_reset: "pmm_inv pmm_reset" "used_set pmm_reset = {}"
proof -
  show "used_set pmm_reset = {}"
    by (auto simp: used_set_def frame_used_def pmm_reset_def)
  then show "pmm_inv pmm_reset" by (simp add: pmm_inv_def pmm_reset_def)
qed

lemma fold_set_range:
  assumes "pmm_inv pmm" "b \<le> 4096" "{a..<b} \<inter> used_set pmm = {}"
  defines "pmm' \<equiv> fold (\<lambda>frame. pmm_set_frame (of_nat frame)) [a..<b] pmm"
  shows "pmm_inv pmm'" "used_set pmm' = {a..<b} \<union> used_set pmm"
proof -
  have "unat (of_nat x :: u32) = x" if "x \<in> {a..<b}" for x
    using that assms(2) by (intro unat_of_nat_u32) simp
  then have "inj_on (of_nat :: nat \<Rightarrow> u32) {a..<b}" by (rule inj_on_inverseI)
  then show "pmm_inv pmm'" unfolding pmm'_def
    using assms(1-3) by (intro pmm_inv_fold_set_frame) (auto simp: unat_of_nat_u32 disjoint_iff)
  show "used_set pmm' = {a..<b} \<union> used_set pmm" unfolding pmm'_def
    using assms(1,2) image_unat_of_nat [of b a]
    by (subst fold_set_frame(1)) (auto simp: pmm_inv_def unat_of_nat_u32)
qed

lemma pmm_init_inv: "pmm_inv pmm_init" "used_set pmm_init = {..<513} \<union> {3840..<4096}"
proof -
  define p1 where "p1 = fold (\<lambda>frame. pmm_set_frame (of_nat frame)) [0..<256] pmm_reset"
  define p2 where "p2 = fold (\<lambda>frame. pmm_set_frame (of_nat frame)) [256..<512] p1"
  define p3 where "p3 = fold (\<lambda>i. pmm_set_frame (512 + of_nat i)) [0..<1] p2"
  define p4 where "p4 = fold (\<lambda>frame. pmm_set_frame (of_nat frame)) [3840..<4096] p3"
  have p1: "pmm_inv p1 \<and> used_set p1 = {0..<256}"
    using fold_set_range [of pmm_reset 256 0, folded p1_def] pmm_inv_reset by simp
  then have p2: "pmm_inv p2 \<and> used_set p2 = {256..<512} \<union> {0..<256}"
    using fold_set_range [of p1 512 256, folded p2_def] by auto
  have disj: "{512..<513} \<inter> ({256..<512} \<union> {0..<256}) = ({} :: nat set)" by auto
  from p2 have p3: "pmm_inv p3 \<and> used_set p3 = {512..<513} \<union> ({256..<512} \<union> {0..<256})"
    using mark_run [of p2 512 1] disj by (simp add: p3_def free_run_def)
  have "{3840..<4096} \<inter> used_set p3 = {}" using p3 by (simp add: disjoint_iff)
  with p3 have p4: "pmm_inv p4 \<and> used_set p4 = {3840..<4096} \<union> ({512..<513} \<union> ({256..<512} \<union> {0..<256}))"
    using fold_set_range [of p3 4096 3840, folded p4_def] by simp
  have sizes: "unat (bitmap_size p2 * 4 div PAGE_SIZE + 1) = 1" "PMM_BITMAP_ADDRESS div PAGE_SIZE = 512"
    using p2 by (simp_all add: pmm_inv_def)
  have "pmm_init = pmm_mark_reserved_regions pmm_reset" by (simp add: pmm_init_def pmm_reset_def)
  also have "\<dots> = p4"
    unfolding pmm_mark_reserved_regions_def Let_def p1_def [symmetric] p2_def [symmetric] sizes
      p3_def [symmetric] p4_def [symmetric] by (rule refl)
  finally have init: "pmm_init = p4" .
  have ivl: "{512..<513} \<union> ({256..<512} \<union> {0..<256}) = {..<513 :: nat}"
    by (rule set_eqI, simp only: Un_iff atLeastLessThan_iff lessThan_iff, arith)
  show "pmm_inv pmm_init" "used_set pmm_init = {..<513} \<union> {3840..<4096}"
    using p4 unfolding init ivl by (simp_all only: Un_commute)
qed

section \<open>The contract of a page allocator\<close>

text \<open>
  What the clients of the physical memory manager (paging, tasks, the ELF loader)
  rely on: \<open>used\<close> is the set of frames in use out of \<open>cap\<close>, an allocation takes
  a fresh frame, 0 stands for failure, and a release only ever gives back the frame
  it names.  Frame 0 is in use from boot on (\<open>reserved\<close>).
\<close>

locale page_allocator =
  fixes alloc :: "'s \<Rightarrow> u32 \<times> 's"
    and release :: "u32 \<Rightarrow> 's \<Rightarrow> string \<times> 's"
    and used :: "'s \<Rightarrow> nat set"
    and inv :: "'s \<Rightarrow> bool"
    and cap :: nat
  assumes alloc_inv: "inv s \<Longrightarrow> inv (snd (alloc s))"
    and alloc_fail: "inv s \<Longrightarrow> used s = {..<cap} \<Longrightarrow> alloc s = (0, s)"
    and alloc_new: "inv s \<Longrightarrow> used s \<noteq> {..<cap} \<Longrightarrow> alloc s = (addr, s') \<Longrightarrow>
        unat addr mod 4096 = 0 \<and> unat addr div 4096 \<notin> used s \<and>
        used s' = insert (unat addr div 4096) (used s)"
    and used_cap: "inv s \<Longrightarrow> used s \<subseteq> {..<cap}"
    and release_inv: "inv s \<Longrightarrow> inv (snd (release addr s))"
    and release_used: "inv s \<Longrightarrow> unat addr mod 4096 = 0 \<Longrightarrow> unat addr div 4096 \<in> used s \<Longrightarrow>
        fst (release addr s) = [] \<and> used (snd (release addr s)) = used s - {unat addr div 4096}"
    and release_bad: "inv s \<Longrightarrow> \<not> (unat addr mod 4096 = 0 \<and> unat addr div 4096 \<in> used s) \<Longrightarrow>
        snd (release addr s) = s"
begin

text \<open>With frame 0 in use, a failed allocation is recognised by its result.\<close>

lemma alloc_zero_iff: "inv s \<Longrightarrow> 0 \<in> used s \<Longrightarrow> fst (alloc s) = 0 \<longleftrightarrow> used s = {..<cap}"
proof
  assume "inv s" "0 \<in> used s" "fst (alloc s) = 0"
  then show "used s = {..<cap}"
    using alloc_new [of s 0 "snd (alloc s)"] by (metis div_0 prod.collapse unat_0)
qed (simp add: alloc_fail)

lemma used_mono: "inv s \<Longrightarrow> used s \<subseteq> used (snd (alloc s))"
  using alloc_fail [of s] alloc_new [of s "fst (alloc s)" "snd (alloc s)"]
  by (cases "used s = {..<cap}") auto

lemma release_alloc:
  assumes "inv s" "used s \<noteq> {..<cap}" "alloc s = (addr, s')"
  shows "fst (release addr s') = [] \<and> used (snd (release addr s')) = used s"
proof -
  have "inv s'" using alloc_inv [OF assms(1)] assms(3) by simp
  then show ?thesis using release_used [of s' addr] alloc_new [OF assms] by auto
qed

lemma release_twice:
  assumes "inv s" "release addr s = (msg, s')"
  shows "snd (release addr s') = s'"
proof -
  have s': "inv s'" "s' = snd (release addr s)" using release_inv [OF assms(1)] assms(2) by (metis snd_conv)+
  then show ?thesis
    using release_bad [of s' addr] release_bad [OF assms(1), of addr] release_used [OF assms(1), of addr]
    by (metis DiffD2 insertI1)
qed

text \<open>Successive allocations, in the order they are handed out.\<close>

primrec alloc_seq :: "nat \<Rightarrow> 's \<Rightarrow> u32 list \<times> 's" where
  "alloc_seq 0 s = ([], s)"
| "alloc_seq (Suc n) s =
     (let (addr, s1) = alloc s; (addrs, s2) = alloc_seq n s1 in (addr # addrs, s2))"

lemma alloc_seq_fresh:
  assumes "inv s" "n + card (used s) \<le> cap" "alloc_seq n s = (addrs, s')"
  shows "inv s' \<and> length addrs = n \<and> distinct (map (\<lambda>a. unat a div 4096) addrs) \<and>
    (\<forall>a \<in> set addrs. unat a mod 4096 = 0 \<and> unat a div 4096 \<notin> used s) \<and>
    used s' = used s \<union> (\<lambda>a. unat a div 4096) ` set addrs"
  using assms
proof (induction n arbitrary: s addrs)
  case 0
  then show ?case by simp
next
  case (Suc n)
  obtain a s1 where a: "alloc s = (a, s1)" by fastforce
  obtain as where as: "alloc_seq n s1 = (as, s')" "addrs = a # as"
    using Suc.prems(3) a by (auto split: prod.splits)
  have fin: "finite (used s)" using used_cap [OF Suc.prems(1)] by (rule finite_subset) simp
  have "used s \<noteq> {..<cap}"
  proof
    assume "used s = {..<cap}"
    then have "card (used s) = cap" by simp
    with Suc.prems(2) show False by simp
  qed
  then have new: "unat a mod 4096 = 0" "unat a div 4096 \<notin> used s"
    "used s1 = insert (unat a div 4096) (used s)"
    using alloc_new [OF Suc.prems(1) _ a] by simp_all
  have "inv s1" using alloc_inv [OF Suc.prems(1)] a by simp
  moreover have "n + card (used s1) \<le> cap" using Suc.prems(2) new fin by simp
  ultimately show ?case using Suc.IH [OF _ _ as(1)] new as(2) by auto
qed

end

interpretation pmm: page_allocator alloc_page free_page used_set pmm_inv 4096
proof unfold_locales
  fix pmm pmm' :: pmm_t and addr :: u32
  assume inv: "pmm_inv pmm"
  obtain a p where a: "alloc_page pmm = (a, p)" by fastforce
  obtain m q where f: "free_page addr pmm = (m, q)" by fastforce
  show "pmm_inv (snd (alloc_page pmm))" using alloc_page_spec(1) [OF inv a] a by simp
  show "used_set pmm = {..<4096} \<Longrightarrow> alloc_page pmm = (0, pmm)" using alloc_page_spec(2) [OF inv a] a by simp
  show "used_set pmm \<subseteq> {..<4096}" by (auto simp: used_set_def)
  show "pmm_inv (snd (free_page addr pmm))" using free_page_spec(1) [OF inv f] f by simp
  show "unat addr mod 4096 = 0 \<Longrightarrow> unat addr div 4096 \<in> used_set pmm \<Longrightarrow>
      fst (free_page addr pmm) = [] \<and> used_set (snd (free_page addr pmm)) = used_set pmm - {unat addr div 4096}"
    using free_page_spec(2) [OF inv f] f by simp
  show "\<not> (unat addr mod 4096 = 0 \<and> unat addr div 4096 \<in> used_set pmm) \<Longrightarrow> snd (free_page addr pmm) = pmm"
    using free_page_spec(3) [OF inv f] f by simp
  show "used_set pmm \<noteq> {..<4096} \<Longrightarrow> alloc_page pmm = (addr, pmm') \<Longrightarrow>
      unat addr mod 4096 = 0 \<and> unat addr div 4096 \<notin> used_set pmm \<and>
      used_set pmm' = insert (unat addr div 4096) (used_set pmm)"
    using alloc_page_spec(3) [OF inv, of addr pmm'] by blast
qed

section \<open>Properties\<close>

lemma pmm_init_not_full: "used_set pmm_init \<noteq> {..<4096}"
proof -
  have "600 \<notin> used_set pmm_init" "600 \<in> {..<4096 :: nat}" by (simp_all add: pmm_init_inv(2))
  then show ?thesis by blast
qed

text \<open>(C25) \<^verbatim>\<open>alloc_page\<close> keeps the bitmap and its counter consistent and returns the page-aligned
  address of the lowest free frame, marking that frame and no other; it returns 0, leaving the
  state unchanged, when every frame is in use.\<close>

theorem alloc_page_lowest_free:
  assumes "pmm_inv pmm" "alloc_page pmm = (addr, pmm')"
  shows "pmm_inv pmm' \<and>
    (if used_set pmm = {..<4096} then addr = 0 \<and> pmm' = pmm
     else unat addr mod 4096 = 0 \<and> unat addr div 4096 \<in> {..<4096} - used_set pmm \<and>
          (\<forall>g < unat addr div 4096. g \<in> used_set pmm) \<and>
          used_set pmm' = insert (unat addr div 4096) (used_set pmm))"
  using alloc_page_spec [OF assms] by auto

theorem alloc_page_lowest_free_witness:
  "let (addr, pmm') = alloc_page pmm_init
   in pmm_inv pmm' \<and> unat addr div 4096 = 513 \<and> used_set pmm' = {..<514} \<union> {3840..<4096}"
proof -
  obtain addr pmm' where a: "alloc_page pmm_init = (addr, pmm')" by fastforce
  note new = alloc_page_lowest_free [OF pmm_init_inv(1) a, simplified if_not_P [OF pmm_init_not_full]]
  define f where "f = unat addr div 4096"
  have "f \<notin> used_set pmm_init" "\<forall>g < f. g \<in> used_set pmm_init" using new by (simp_all add: f_def)
  then have "\<not> f < 513" "\<not> 513 < f" unfolding pmm_init_inv(2) by fastforce+
  then have f: "f = 513" by simp
  have "used_set pmm' = insert 513 ({..<513} \<union> {3840..<4096})"
    using new f by (simp add: f_def pmm_init_inv(2))
  also have "\<dots> = {..<514} \<union> {3840..<4096}"
    by (rule set_eqI, simp only: Un_iff insert_iff atLeastLessThan_iff lessThan_iff, arith)
  finally show ?thesis using new f a by (simp add: f_def)
qed

text \<open>(C24) \<^verbatim>\<open>alloc_pages\<close> is first fit: it takes the lowest run of \<open>count\<close> contiguous free frames
  and marks exactly these, and it fails (address 0, state unchanged) only when no such run exists.\<close>

theorem alloc_pages_first_fit:
  assumes "pmm_inv pmm" "count \<noteq> 0" "alloc_pages count pmm = (addr, pmm')"
  shows "pmm_inv pmm' \<and>
    (if \<exists>s. free_run pmm s (unat count) then
       unat addr mod 4096 = 0 \<and> free_run pmm (unat addr div 4096) (unat count) \<and>
       (\<forall>s < unat addr div 4096. \<not> free_run pmm s (unat count)) \<and>
       used_set pmm' = {unat addr div 4096..<unat addr div 4096 + unat count} \<union> used_set pmm
     else addr = 0 \<and> pmm' = pmm)"
proof (cases "\<exists>s. free_run pmm s (unat count)")
  case True
  note alloc_pages_spec(1) [OF assms(1,3,2)] alloc_pages_spec(2) [OF assms(1,3,2) True]
  then show ?thesis unfolding if_P [OF True] by (rule conjI)
next
  case False
  note alloc_pages_spec(1) [OF assms(1,3,2)] alloc_pages_spec(3) [OF assms(1,3,2) False]
  then show ?thesis unfolding if_not_P [OF False] by (rule conjI)
qed

theorem alloc_pages_first_fit_witness:
  "(let (addr, pmm') = alloc_pages 4 pmm_init
    in pmm_inv pmm' \<and> {600..<604} \<inter> used_set pmm_init = {} \<and> unat addr mod 4096 = 0 \<and>
       used_set pmm' = {unat addr div 4096..<unat addr div 4096 + 4} \<union> used_set pmm_init) \<and>
   alloc_pages 4000 pmm_init = (0, pmm_init)"
proof
  obtain addr pmm' where a: "alloc_pages 4 pmm_init = (addr, pmm')" by fastforce
  have run: "free_run pmm_init 600 4" by (auto simp: free_run_def pmm_init_inv(2))
  then have disj: "{600..<604} \<inter> used_set pmm_init = {}" by (simp add: free_run_def)
  show "let (addr, pmm') = alloc_pages 4 pmm_init
    in pmm_inv pmm' \<and> {600..<604} \<inter> used_set pmm_init = {} \<and> unat addr mod 4096 = 0 \<and>
       used_set pmm' = {unat addr div 4096..<unat addr div 4096 + 4} \<union> used_set pmm_init"
    using alloc_pages_first_fit [OF pmm_init_inv(1) _ a] run disj a by (auto split: if_splits)
  obtain addr2 pmm2 where b: "alloc_pages 4000 pmm_init = (addr2, pmm2)" by fastforce
  have "\<not> free_run pmm_init s 4000" for s
  proof
    assume "free_run pmm_init s 4000"
    then have "s \<le> 96" and disj: "{s..<s + 4000} \<inter> used_set pmm_init = {}"
      by (simp_all add: free_run_def)
    moreover have "s \<in> {s..<s + 4000}" by simp
    ultimately have "s \<le> 96" "s \<notin> used_set pmm_init" by blast+
    then show False by (simp add: pmm_init_inv(2))
  qed
  then show "alloc_pages 4000 pmm_init = (0, pmm_init)"
    using alloc_pages_first_fit [OF pmm_init_inv(1) _ b] b by simp
qed

text \<open>(C26) \<^verbatim>\<open>free_page\<close> gives back exactly a page-aligned frame that is in use, silently; every other
  address (misaligned, out of range, already free) is reported and changes nothing.  In particular
  freeing the page just allocated restores the set of used frames.\<close>

theorem free_page_exact:
  assumes "pmm_inv pmm" "free_page addr pmm = (msg, pmm')"
  shows "pmm_inv pmm' \<and>
    (if unat addr mod 4096 = 0 \<and> unat addr div 4096 \<in> used_set pmm
     then msg = [] \<and> used_set pmm' = used_set pmm - {unat addr div 4096}
     else msg \<noteq> [] \<and> pmm' = pmm) \<and>
    (\<forall>a p. used_set pmm \<noteq> {..<4096} \<and> alloc_page pmm = (a, p) \<longrightarrow>
       fst (free_page a p) = [] \<and> used_set (snd (free_page a p)) = used_set pmm)"
  using free_page_spec [OF assms] pmm.release_alloc [OF assms(1)] by auto

theorem free_page_exact_witness:
  "fst (free_page 0x300000 pmm_init) \<noteq> [] \<and> snd (free_page 0x300000 pmm_init) = pmm_init \<and>
   fst (free_page 0x5000 pmm_init) = [] \<and> 5 \<notin> used_set (snd (free_page 0x5000 pmm_init)) \<and>
   snd (free_page 0x5001 pmm_init) = pmm_init"
proof -
  obtain m p where a: "free_page 0x300000 pmm_init = (m, p)" by fastforce
  obtain m' p' where b: "free_page 0x5000 pmm_init = (m', p')" by fastforce
  obtain m'' p'' where c: "free_page 0x5001 pmm_init = (m'', p'')" by fastforce
  show ?thesis
    using free_page_exact [OF pmm_init_inv(1) a] free_page_exact [OF pmm_init_inv(1) b]
      free_page_exact [OF pmm_init_inv(1) c] a b c by (simp add: pmm_init_inv(2))
qed

text \<open>After \<^verbatim>\<open>pmm_init\<close> the bitmap marks the first megabyte, the kernel heap, the bitmap page and the
  last megabyte, the counter agrees with it, and the statistics add up to the 16 MB of the machine.\<close>

lemma pmm_init_reserves:
  "pmm_inv pmm_init \<and> used_set pmm_init = {..<513} \<union> {3840..<4096} \<and>
   unat (get_used_memory pmm_init) = 769 * 4096 \<and>
   unat (get_free_memory pmm_init) = 3327 * 4096 \<and>
   get_total_memory pmm_init = TOTAL_MEMORY"
proof -
  have "card (used_set pmm_init) = card {..<513 :: nat} + card {3840..<4096 :: nat}"
    unfolding pmm_init_inv(2) by (rule card_Un_disjoint) auto
  then have c: "unat (used_frames pmm_init) = 769" using pmm_init_inv(1) by (simp add: pmm_inv_def)
  then have u: "used_frames pmm_init = 769" by (simp add: u32_eq_iff_unat)
  show ?thesis using pmm_init_inv
    by (simp add: get_used_memory_def get_free_memory_def get_total_memory_def pmm_inv_def u)
qed

end
