(* ===== verification/Kmalloc.thy ===== *)
theory Kmalloc
  imports Screen
begin

text \<open>
  The kernel heap of \<^verbatim>\<open>kernel/mem/kmalloc.c\<close>: a best-fit allocator whose blocks tile the
  megabyte from \<^verbatim>\<open>HEAP_START\<close> to \<^verbatim>\<open>HEAP_END\<close>.  The heap is the memory itself, as a store of
  aligned 32-bit words: the header of a block at address \<open>a\<close> is the word at \<open>a\<close> (its size) and
  the word at \<open>a + 4\<close> (its flag), the payload starts at \<open>a + 8\<close>.  The scans follow the sizes found
  in memory, so they need not end; they are partial functions, and \<open>None\<close> means that the loop
  of the source does not leave.  A list of blocks (size, free) is the abstraction.
\<close>

section \<open>Memory layout\<close>

type_synonym heap = "u32 \<Rightarrow> u32"

abbreviation HEAP_START :: u32 where "HEAP_START \<equiv> 0x100000"
abbreviation HEAP_END :: u32 where "HEAP_END \<equiv> 0x200000"
abbreviation HEAP_SIZE :: u32 where "HEAP_SIZE \<equiv> HEAP_END - HEAP_START"
abbreviation MIN_ALLOC_SIZE :: u32 where "MIN_ALLOC_SIZE \<equiv> 16"
abbreviation sizeof_header :: u32 where "sizeof_header \<equiv> 8"

text \<open>The two fields of \<^verbatim>\<open>block_header_t\<close> at an address.\<close>

definition hsize :: "heap \<Rightarrow> u32 \<Rightarrow> u32" where
  "hsize m a = m a"

definition is_free :: "heap \<Rightarrow> u32 \<Rightarrow> u32" where
  "is_free m a = m (a + 4)"

definition set_size :: "u32 \<Rightarrow> u32 \<Rightarrow> heap \<Rightarrow> heap" where
  "set_size a v m = m(a := v)"

definition set_free :: "u32 \<Rightarrow> u32 \<Rightarrow> heap \<Rightarrow> heap" where
  "set_free a v m = m(a + 4 := v)"

section \<open>Operations\<close>

definition kmalloc_init :: "heap \<Rightarrow> heap" where
  "kmalloc_init m = set_free HEAP_START 1 (set_size HEAP_START HEAP_SIZE m)"

text \<open>The best-fit scan of \<^verbatim>\<open>kmalloc\<close>; it returns \<^verbatim>\<open>best_fit\<close>, 0 being \<^verbatim>\<open>NULL\<close>.\<close>

partial_function (option) kmalloc_scan ::
  "heap \<Rightarrow> u32 \<Rightarrow> u32 \<Rightarrow> u32 \<Rightarrow> u32 \<Rightarrow> u32 option" where
  "kmalloc_scan m total_size current best_fit best_fit_size =
     (if current < HEAP_END then
        if is_free m current \<noteq> 0 \<and> total_size \<le> hsize m current \<and> hsize m current < best_fit_size then
          if hsize m current = total_size then Some current
          else kmalloc_scan m total_size (current + hsize m current) current (hsize m current)
        else kmalloc_scan m total_size (current + hsize m current) best_fit best_fit_size
      else Some best_fit)"

definition kmalloc_place :: "u32 \<Rightarrow> u32 \<Rightarrow> heap \<Rightarrow> heap" where
  "kmalloc_place best_fit total_size m =
     (let m1 = (if total_size + sizeof_header + MIN_ALLOC_SIZE \<le> hsize m best_fit then
                  let new_block = best_fit + total_size
                  in set_size best_fit total_size
                       (set_free new_block 1
                         (set_size new_block (hsize m best_fit - total_size) m))
                else m)
      in set_free best_fit 0 m1)"

definition kmalloc :: "u32 \<Rightarrow> heap \<Rightarrow> (u32 \<times> heap) option" where
  "kmalloc sz m =
     (if sz = 0 then Some (0, m)
      else let sz = (if sz mod 4 \<noteq> 0 then sz + (4 - sz mod 4) else sz);
               total_size = sz + sizeof_header
           in case kmalloc_scan m total_size HEAP_START 0 0xFFFFFFFF of
                None \<Rightarrow> None
              | Some best_fit \<Rightarrow>
                  if best_fit = 0 then Some (0, m)
                  else Some (best_fit + sizeof_header, kmalloc_place best_fit total_size m))"

text \<open>The scan of \<^verbatim>\<open>kfree\<close> for the block before \<open>block\<close>; it returns \<^verbatim>\<open>prev\<close>.\<close>

partial_function (option) kfree_scan :: "heap \<Rightarrow> u32 \<Rightarrow> u32 \<Rightarrow> u32 \<Rightarrow> u32 option" where
  "kfree_scan m block current prev =
     (if current < HEAP_END \<and> current \<noteq> block
      then kfree_scan m block (current + hsize m current) current
      else Some prev)"

definition kfree :: "u32 \<Rightarrow> heap \<Rightarrow> heap option" where
  "kfree ptr m =
     (if ptr = 0 then Some m
      else let block = ptr - sizeof_header;
               m1 = set_free block 1 m;
               nxt = block + hsize m1 block;
               m2 = (if nxt < HEAP_END \<and> is_free m1 nxt \<noteq> 0
                     then set_size block (hsize m1 block + hsize m1 nxt) m1 else m1)
           in case kfree_scan m2 block HEAP_START 0 of
                None \<Rightarrow> None
              | Some prev \<Rightarrow>
                  Some (if prev \<noteq> 0 \<and> is_free m2 prev \<noteq> 0 \<and> prev + hsize m2 prev = block
                        then set_size prev (hsize m2 prev + hsize m2 block) m2 else m2))"

text \<open>The counters of \<^verbatim>\<open>kmalloc_status\<close>: total, free and allocated blocks, free and allocated bytes.\<close>

partial_function (option) kmalloc_status_scan ::
  "heap \<Rightarrow> u32 \<Rightarrow> u32 \<Rightarrow> u32 \<Rightarrow> u32 \<Rightarrow> u32 \<Rightarrow> u32 \<Rightarrow> (u32 \<times> u32 \<times> u32 \<times> u32 \<times> u32) option" where
  "kmalloc_status_scan m current total_blocks free_blocks allocated_blocks total_free total_allocated =
     (if current < HEAP_END then
        if is_free m current \<noteq> 0 then
          kmalloc_status_scan m (current + hsize m current) (total_blocks + 1) (free_blocks + 1)
            allocated_blocks (total_free + (hsize m current - sizeof_header)) total_allocated
        else
          kmalloc_status_scan m (current + hsize m current) (total_blocks + 1) free_blocks
            (allocated_blocks + 1) total_free (total_allocated + (hsize m current - sizeof_header))
      else Some (total_blocks, free_blocks, allocated_blocks, total_free, total_allocated))"

definition kmalloc_status :: "heap \<Rightarrow> string option" where
  "kmalloc_status m =
     (case kmalloc_status_scan m HEAP_START 0 0 0 0 0 of
        None \<Rightarrow> None
      | Some (total_blocks, free_blocks, allocated_blocks, total_free, total_allocated) \<Rightarrow>
          Some ([CHR 0x0A] @ ''=== Heap Status ==='' @ [CHR 0x0A] @
            ''Total blocks: '' @ num_str total_blocks @
            [CHR 0x0A] @ ''Free blocks: '' @ num_str free_blocks @
            [CHR 0x0A] @ ''Allocated blocks: '' @ num_str allocated_blocks @
            [CHR 0x0A] @ ''Free memory: '' @ num_str total_free @ '' bytes'' @ [CHR 0x0A] @
            ''Allocated memory: '' @ num_str total_allocated @ '' bytes'' @ [CHR 0x0A]))"

section \<open>The block list\<close>

type_synonym block = "nat \<times> bool"

abbreviation total :: "block list \<Rightarrow> nat" where
  "total bs \<equiv> sum_list (map fst bs)"

text \<open>The blocks \<open>bs\<close> follow each other in memory from address \<open>a\<close> on.\<close>

fun heap_seg :: "heap \<Rightarrow> nat \<Rightarrow> block list \<Rightarrow> bool" where
  "heap_seg m a [] = True"
| "heap_seg m a ((n, f) # bs) \<longleftrightarrow>
     unat (hsize m (of_nat a)) = n \<and> (is_free m (of_nat a) \<noteq> 0 \<longleftrightarrow> f) \<and> 12 \<le> n \<and> 4 dvd n \<and>
     heap_seg m (a + n) bs"

definition heap_rep :: "heap \<Rightarrow> block list \<Rightarrow> bool" where
  "heap_rep m bs \<longleftrightarrow> heap_seg m 0x100000 bs \<and> total bs = 0x100000"

text \<open>No two neighbouring blocks are both free.\<close>

fun coalesced :: "block list \<Rightarrow> bool" where
  "coalesced (x # y # bs) \<longleftrightarrow> \<not> (snd x \<and> snd y) \<and> coalesced (y # bs)"
| "coalesced bs = True"

lemma heap_seg_append:
  "heap_seg m a (xs @ ys) \<longleftrightarrow> heap_seg m a xs \<and> heap_seg m (a + total xs) ys"
  by (induction m a xs rule: heap_seg.induct) (auto simp: add.assoc)

lemma coalesced_Cons:
  "coalesced (x # bs) \<longleftrightarrow> coalesced bs \<and> (bs \<noteq> [] \<longrightarrow> \<not> (snd x \<and> snd (hd bs)))"
  by (cases bs) auto

lemma coalesced_append:
  "coalesced (xs @ ys) \<longleftrightarrow> coalesced xs \<and> coalesced ys \<and>
     (xs \<noteq> [] \<and> ys \<noteq> [] \<longrightarrow> \<not> (snd (last xs) \<and> snd (hd ys)))"
  by (induction xs) (auto simp: coalesced_Cons hd_append)

text \<open>Only the words inside the blocks matter.\<close>

lemma heap_seg_cong:
  assumes "\<And>k. a \<le> k \<Longrightarrow> k < a + total bs \<Longrightarrow> m' (of_nat k) = m (of_nat k)"
  shows "heap_seg m a bs \<Longrightarrow> heap_seg m' a bs"
  using assms
proof (induction m a bs rule: heap_seg.induct)
  case (2 m a n f bs)
  have n: "12 \<le> n" using "2.prems"(1) by simp
  have "m' (of_nat a) = m (of_nat a)" "m' (of_nat (a + 4)) = m (of_nat (a + 4))"
    by (rule "2.prems"(2); use n in simp)+
  moreover have "heap_seg m' (a + n) bs" using "2.prems" by (intro "2.IH") auto
  ultimately show ?case using "2.prems"(1) by (simp add: hsize_def is_free_def add.commute)
qed simp

section \<open>The scans return\<close>

lemma heap_seg_step:
  assumes "heap_seg m a ((n, f) # bs)" "a + total ((n, f) # bs) = 0x200000"
  shows "of_nat a < HEAP_END" "hsize m (of_nat a) = of_nat n" "of_nat a + hsize m (of_nat a) = of_nat (a + n)"
    "unat (hsize m (of_nat a)) = n" "is_free m (of_nat a) \<noteq> 0 \<longleftrightarrow> f" "12 \<le> n" "n \<le> 0x200000 - a"
    "heap_seg m (a + n) bs" "a + n + total bs = 0x200000" "unat (of_nat a :: u32) = a"
proof -
  show n: "unat (hsize m (of_nat a)) = n" "12 \<le> n" and "n \<le> 0x200000 - a" "heap_seg m (a + n) bs"
    "is_free m (of_nat a) \<noteq> 0 \<longleftrightarrow> f" "a + n + total bs = 0x200000"
    using assms by simp_all
  show "hsize m (of_nat a) = of_nat n" using n(1) by auto
  then show "of_nat a + hsize m (of_nat a) = of_nat (a + n)" by simp
  show ua: "unat (of_nat a :: u32) = a" using assms by (intro unat_of_nat_u32) simp
  show "of_nat a < HEAP_END" using assms by (simp add: u32_lt_iff_unat ua)
qed

text \<open>The best-fit scan on the block list, with addresses as numbers.\<close>

fun best_fit :: "nat \<Rightarrow> block list \<Rightarrow> nat \<Rightarrow> nat \<Rightarrow> nat \<Rightarrow> nat" where
  "best_fit t [] a b bsz = b"
| "best_fit t ((n, f) # bs) a b bsz =
     (if f \<and> t \<le> n \<and> n < bsz then if n = t then a else best_fit t bs (a + n) a n
      else best_fit t bs (a + n) b bsz)"

lemma kmalloc_scan_best_fit:
  assumes "heap_seg m a bs" "a + total bs = 0x200000"
  shows "kmalloc_scan m t (of_nat a) b bsz =
    Some (of_nat (best_fit (unat t) bs a (unat b) (unat bsz)))"
  using assms
proof (induction bs arbitrary: a b bsz)
  case Nil
  then show ?case by (simp add: kmalloc_scan.simps)
next
  case (Cons x bs)
  obtain n f where x: "x = (n, f)" by fastforce
  note step = heap_seg_step [OF Cons.prems [unfolded x]]
  note IH = Cons.IH [OF step(8,9)]
  show ?case
  proof (cases "f \<and> unat t \<le> n \<and> n < unat bsz")
    case True
    then show ?thesis
      by (subst kmalloc_scan.simps)
        (simp add: x step(1,5) u32_ord_unat [of t] u32_ord_unat [of "hsize m (of_nat a)"] step(4,10)
          IH [unfolded of_nat_add, folded step(2)])
  next
    case False
    then show ?thesis
      by (subst kmalloc_scan.simps)
        (auto simp: x step(1,5) u32_ord_unat [of t] u32_ord_unat [of "hsize m (of_nat a)"] step(4)
          IH [unfolded of_nat_add, folded step(2)])
  qed
qed

text \<open>The scan finds the first of the smallest free blocks that are large enough.\<close>

definition fits :: "nat \<Rightarrow> block \<Rightarrow> bool" where
  "fits t x \<longleftrightarrow> snd x \<and> t \<le> fst x"

definition best_index :: "nat \<Rightarrow> block list \<Rightarrow> nat \<Rightarrow> bool" where
  "best_index t bs i \<longleftrightarrow> i < length bs \<and> fits t (bs ! i) \<and>
     (\<forall>j < length bs. fits t (bs ! j) \<longrightarrow>
        fst (bs ! i) \<le> fst (bs ! j) \<and> (j < i \<longrightarrow> fst (bs ! i) < fst (bs ! j)))"

lemma best_index_Cons:
  "best_index t (x # bs) 0 \<longleftrightarrow> fits t x \<and> (\<forall>y \<in> set bs. fits t y \<longrightarrow> fst x \<le> fst y)"
  "best_index t (x # bs) (Suc i) \<longleftrightarrow> best_index t bs i \<and> (fits t x \<longrightarrow> fst (bs ! i) < fst x)"
proof -
  show "best_index t (x # bs) 0 \<longleftrightarrow> fits t x \<and> (\<forall>y \<in> set bs. fits t y \<longrightarrow> fst x \<le> fst y)"
    by (auto simp: best_index_def All_less_Suc2 all_set_conv_all_nth)
  show "best_index t (x # bs) (Suc i) \<longleftrightarrow> best_index t bs i \<and> (fits t x \<longrightarrow> fst (bs ! i) < fst x)"
    by (auto simp: best_index_def All_less_Suc2)
qed

lemma best_fit_best_index:
  "(\<forall>x \<in> set bs. fits t x \<longrightarrow> bsz \<le> fst x) \<and> best_fit t bs a b bsz = b \<or>
   (\<exists>i. best_index t bs i \<and> fst (bs ! i) < bsz \<and> best_fit t bs a b bsz = a + total (take i bs))"
proof (induction t bs a b bsz rule: best_fit.induct)
  case (2 t n f bs a b bsz)
  show ?case
  proof (cases "f \<and> t \<le> n \<and> n < bsz")
    case True
    have "best_index t ((n, f) # bs) 0 \<and> best_fit t ((n, f) # bs) a b bsz = a \<or>
      (\<exists>i. best_index t ((n, f) # bs) (Suc i) \<and> fst (bs ! i) < bsz \<and>
         best_fit t ((n, f) # bs) a b bsz = a + n + total (take i bs))"
    proof (cases "n = t")
      case False
      then show ?thesis using "2.IH"(1) [OF True False] True by (auto simp: best_index_Cons fits_def)
    qed (use True in \<open>auto simp: best_index_Cons fits_def\<close>)
    then show ?thesis
    proof
      assume "best_index t ((n, f) # bs) 0 \<and> best_fit t ((n, f) # bs) a b bsz = a"
      then show ?thesis using True by (intro disjI2 exI [of _ 0]) simp
    next
      assume "\<exists>i. best_index t ((n, f) # bs) (Suc i) \<and> fst (bs ! i) < bsz \<and>
         best_fit t ((n, f) # bs) a b bsz = a + n + total (take i bs)"
      then obtain i where "best_index t ((n, f) # bs) (Suc i)" "fst (bs ! i) < bsz"
         "best_fit t ((n, f) # bs) a b bsz = a + n + total (take i bs)" by blast
      then show ?thesis by (intro disjI2 exI [of _ "Suc i"]) simp
    qed
  next
    case False
    note IH = "2.IH"(2) [OF False]
    show ?thesis
    proof (cases "\<forall>x \<in> set bs. fits t x \<longrightarrow> bsz \<le> fst x")
      case True
      have "best_fit t bs (a + n) b bsz = b"
        using IH True by (metis best_index_def nth_mem not_less)
      then show ?thesis using True False by (auto simp: fits_def)
    next
      case some: False
      then obtain i where i: "best_index t bs i" "fst (bs ! i) < bsz"
        "best_fit t bs (a + n) b bsz = a + n + total (take i bs)" using IH by blast
      then have "best_index t ((n, f) # bs) (Suc i)" using False by (auto simp: best_index_Cons fits_def)
      then show ?thesis using i False by (intro disjI2 exI [of _ "Suc i"]) auto
    qed
  qed
qed simp

section \<open>Placing and splitting a block\<close>

lemma heap_rep_replace:
  assumes "heap_rep m (xs @ mid @ ys)" "heap_seg m' (0x100000 + total xs) mid'" "total mid' = total mid"
    and out: "\<And>k. k < 0x100000000 \<Longrightarrow> \<not> (0x100000 + total xs \<le> k \<and> k < 0x100000 + total xs + total mid) \<Longrightarrow>
      m' (of_nat k) = m (of_nat k)"
  shows "heap_rep m' (xs @ mid' @ ys)"
proof -
  define A where "A = 0x100000 + total xs"
  have A: "0x100000 \<le> A" "A + total mid + total ys = 0x200000"
    using assms(1) by (simp_all add: heap_rep_def A_def)
  have out': "m' (of_nat k) = m (of_nat k)" if "k < 0x100000000" "\<not> (A \<le> k \<and> k < A + total mid)" for k
    using that out unfolding A_def by blast
  have seg: "heap_seg m 0x100000 xs" "heap_seg m (A + total mid) ys"
    using assms(1) by (simp_all add: heap_rep_def heap_seg_append A_def)
  have "heap_seg m' 0x100000 xs"
    using seg(1) by (rule heap_seg_cong [rotated], intro out') (use A in \<open>simp_all only: A_def, linarith+\<close>)
  moreover have "heap_seg m' (A + total mid) ys"
    using seg(2) by (rule heap_seg_cong [rotated], intro out') (use A(2) in linarith)+
  ultimately show ?thesis
    using assms(1-3) by (simp add: heap_rep_def heap_seg_append A_def)
qed

definition place_block :: "nat \<Rightarrow> nat \<Rightarrow> block list" where
  "place_block t n = (if t + 24 \<le> n then [(t, False), (n - t, True)] else [(n, False)])"

lemma total_place_block [simp]: "t \<le> n \<Longrightarrow> total (place_block t n) = n"
  by (simp add: place_block_def)

text \<open>Reading a header word back, with addresses as numbers.\<close>

lemma header_update:
  assumes "x < 0x1000000" "y < 0x100000000"
  shows "set_size (of_nat x) v m (of_nat y) = (if x = y then v else m (of_nat y))"
    and "set_free (of_nat x) v m (of_nat y) = (if x + 4 = y then v else m (of_nat y))"
proof -
  show "set_size (of_nat x) v m (of_nat y) = (if x = y then v else m (of_nat y))"
    using assms by (simp add: set_size_def of_nat_u32_eq_iff)
  have "(of_nat x + 4 :: u32) = of_nat y \<longleftrightarrow> x + 4 = y"
    using of_nat_u32_eq_iff [of "x + 4" y] assms by simp
  then show "set_free (of_nat x) v m (of_nat y) = (if x + 4 = y then v else m (of_nat y))"
    by (simp add: set_free_def eq_commute [of "of_nat y"] fun_upd_apply)
qed

lemma heap_seg_word:
  "heap_seg m a ((n, f) # bs) \<longleftrightarrow>
     unat (m (of_nat a)) = n \<and> (m (of_nat (a + 4)) \<noteq> 0 \<longleftrightarrow> f) \<and> 12 \<le> n \<and> 4 dvd n \<and> heap_seg m (a + n) bs"
  by (simp add: hsize_def is_free_def)

lemma kmalloc_place_rep:
  assumes "heap_rep m (xs @ (n, True) # ys)" "12 \<le> t" "4 dvd t" "t \<le> n"
  defines "a \<equiv> 0x100000 + total xs"
  defines "m' \<equiv> kmalloc_place (of_nat a) (of_nat t) m"
  shows "heap_rep m' (xs @ place_block t n @ ys)"
    and "\<And>k. k < 0x100000000 \<Longrightarrow> k \<notin> {a, a + 4, a + t, a + t + 4} \<Longrightarrow> m' (of_nat k) = m (of_nat k)"
    and "\<And>k. k < 0x100000000 \<Longrightarrow> \<not> (a \<le> k \<and> k < a + n) \<Longrightarrow> m' (of_nat k) = m (of_nat k)"
proof -
  have seg: "heap_seg m a ((n, True) # ys)" "n + total ys + a = 0x200000"
    using assms(1) by (simp_all add: heap_rep_def heap_seg_append a_def)
  have a: "a < 0x200000" "n \<le> 0x100000" using seg(1,2) by (auto simp: a_def)
  have t: "unat (of_nat t :: u32) = t" "unat (of_nat (n - t) :: u32) = n - t"
    by (intro unat_of_nat_u32; use a(2) assms(4) in linarith)+
  have hs: "hsize m (of_nat a) = of_nat n" using seg(1) by auto
  have split: "(of_nat t + sizeof_header + MIN_ALLOC_SIZE \<le> hsize m (of_nat a)) \<longleftrightarrow> t + 24 \<le> n"
  proof -
    have "of_nat t + sizeof_header + MIN_ALLOC_SIZE = (of_nat (t + 24) :: u32)" by simp
    moreover have "unat (of_nat (t + 24) :: u32) = t + 24" "unat (of_nat n :: u32) = n"
      using a(2) assms(4) by (intro unat_of_nat_u32, simp)+
    ultimately show ?thesis by (simp only: hs u32_le_iff_unat)
  qed
  have diff: "of_nat n - of_nat t = (of_nat (n - t) :: u32)" using assms(4) by (simp add: of_nat_diff)
  have m': "m' = (if t + 24 \<le> n
      then set_free (of_nat a) 0 (set_size (of_nat a) (of_nat t)
             (set_free (of_nat (a + t)) 1 (set_size (of_nat (a + t)) (of_nat (n - t)) m)))
      else set_free (of_nat a) 0 m)"
    unfolding m'_def kmalloc_place_def Let_def split unfolding hs diff of_nat_add
    by (simp only: if_distrib [of "set_free (of_nat a) 0"])
  have upd: "m' (of_nat k) = (if k = a + 4 then 0
      else if t + 24 \<le> n \<and> k = a then of_nat t
      else if t + 24 \<le> n \<and> k = a + t + 4 then 1
      else if t + 24 \<le> n \<and> k = a + t then of_nat (n - t)
      else m (of_nat k))" if "k < 0x100000000" for k
    using that a assms(4) unfolding m' by (simp add: header_update del: of_nat_add)
  show other: "m' (of_nat k) = m (of_nat k)" if "k < 0x100000000" "k \<notin> {a, a + 4, a + t, a + t + 4}" for k
    using that by (simp add: upd)
  show out: "m' (of_nat k) = m (of_nat k)" if "k < 0x100000000" "\<not> (a \<le> k \<and> k < a + n)" for k
    using that seg(1) assms(2-4) by (auto simp: upd)
  have placed: "heap_seg m' a (place_block t n)"
    using seg(1) assms(2-4) a t
    by (auto simp: place_block_def heap_seg_word upd dvd_diff_nat simp del: heap_seg.simps(2) of_nat_add)
  show "heap_rep m' (xs @ place_block t n @ ys)"
  proof (rule heap_rep_replace [of m xs "[(n, True)]"])
    show "heap_rep m (xs @ [(n, True)] @ ys)" using assms(1) by simp
    show "heap_seg m' (0x100000 + total xs) (place_block t n)" using placed by (simp only: a_def)
    show "total (place_block t n) = total [(n, True)]" using assms(4) by simp
    show "m' (of_nat k) = m (of_nat k)"
      if "k < 0x100000000" "\<not> (0x100000 + total xs \<le> k \<and> k < 0x100000 + total xs + total [(n, True)])" for k
      using that out [of k] by (simp add: a_def)
  qed
qed

section \<open>Allocation on the block list\<close>

text \<open>The bytes a request takes from the heap: the size rounded up to words, plus the header.\<close>

definition need :: "u32 \<Rightarrow> nat" where
  "need sz = 4 * ((unat sz + 3) div 4) + 8"

lemma need_bounds: "sz \<noteq> 0 \<Longrightarrow> 12 \<le> need sz \<and> 4 dvd need sz \<and> unat sz + 8 \<le> need sz"
proof -
  assume "sz \<noteq> 0"
  then have "0 < unat sz" by (simp add: unat_gt_0)
  then show ?thesis unfolding need_def by presburger
qed

lemma kmalloc_total_size:
  assumes "unat sz \<le> 0xFFFFFFF4"
  shows "(if sz mod 4 \<noteq> 0 then sz + (4 - sz mod 4) else sz) + sizeof_header = of_nat (need sz)"
    and "unat (of_nat (need sz) :: u32) = need sz"
proof -
  define k where "k = unat sz"
  have k: "k \<le> 0xFFFFFFF4" "sz = of_nat k" using assms by (simp_all add: k_def)
  have md: "sz mod 4 = of_nat (k mod 4)"
    by (simp add: u32_eq_iff_unat unat_mod_distrib unat_of_nat_u32 k_def)
  have neq: "sz mod 4 \<noteq> 0 \<longleftrightarrow> k mod 4 \<noteq> 0"
    unfolding md using of_nat_u32_eq_iff [of "k mod 4" 0] by simp
  have up: "sz + (4 - sz mod 4) = of_nat (k + (4 - k mod 4))"
    unfolding md by (simp add: of_nat_diff k(2) [symmetric])
  have "(if sz mod 4 \<noteq> 0 then sz + (4 - sz mod 4) else sz) =
      (of_nat (if k mod 4 \<noteq> 0 then k + (4 - k mod 4) else k) :: u32)"
    using neq k(2) up by (cases "k mod 4 = 0") (simp_all only: if_True if_False simp_thms)
  moreover have "(if k mod 4 \<noteq> 0 then k + (4 - k mod 4) else k) = 4 * ((k + 3) div 4)" by presburger
  ultimately show "(if sz mod 4 \<noteq> 0 then sz + (4 - sz mod 4) else sz) + sizeof_header = of_nat (need sz)"
    by (simp add: need_def k_def [symmetric])
  have "4 * ((k + 3) div 4) + 8 < 4294967296" using k(1) by presburger
  then show "unat (of_nat (need sz) :: u32) = need sz"
    unfolding need_def k_def [symmetric] by (rule unat_of_nat_u32)
qed

lemma total_take_less: "i < length bs \<Longrightarrow> total (take i bs) + fst (bs ! i) \<le> total bs"
proof -
  assume "i < length bs"
  then have "total bs = total (take i bs @ bs ! i # drop (Suc i) bs)" by (simp add: id_take_nth_drop [symmetric])
  then show ?thesis by (simp only: map_append sum_list_append list.map sum_list.Cons)
qed

lemma heap_rep_fst: "heap_rep m bs \<Longrightarrow> x \<in> set bs \<Longrightarrow> 12 \<le> fst x \<and> 4 dvd fst x \<and> fst x \<le> 0x100000"
proof -
  assume rep: "heap_rep m bs" and x: "x \<in> set bs"
  have "heap_seg m a bs \<Longrightarrow> 12 \<le> fst x \<and> 4 dvd fst x" for a
    using x by (induction m a bs rule: heap_seg.induct) auto
  moreover have "fst x \<le> total bs" using x by (simp add: member_le_sum_list)
  ultimately show ?thesis using rep by (auto simp: heap_rep_def)
qed

definition block_addr :: "block list \<Rightarrow> nat \<Rightarrow> nat" where
  "block_addr bs i = 0x100000 + total (take i bs)"

definition alloc_blocks :: "nat \<Rightarrow> nat \<Rightarrow> block list \<Rightarrow> block list" where
  "alloc_blocks t i bs = take i bs @ place_block t (fst (bs ! i)) @ drop (Suc i) bs"

lemma block_addr_less: "heap_rep m bs \<Longrightarrow> i < length bs \<Longrightarrow> block_addr bs i + fst (bs ! i) \<le> 0x200000"
  using total_take_less [of i bs] by (simp add: heap_rep_def block_addr_def)

lemma kmalloc_cases:
  assumes "heap_rep m bs" "sz \<noteq> 0" "unat sz \<le> 0xFFFFFFF4"
  obtains (none) "\<forall>x \<in> set bs. \<not> fits (need sz) x" "kmalloc sz m = Some (0, m)"
  | (placed) i where "best_index (need sz) bs i"
      "kmalloc sz m = Some (of_nat (block_addr bs i + 8), kmalloc_place (of_nat (block_addr bs i)) (of_nat (need sz)) m)"
proof -
  let ?b = "best_fit (need sz) bs 0x100000 0 0xFFFFFFFF"
  have scan: "kmalloc_scan m (of_nat (need sz)) HEAP_START 0 0xFFFFFFFF = Some (of_nat ?b)"
    using kmalloc_scan_best_fit [of m "0x100000" bs "of_nat (need sz)" 0 "0xFFFFFFFF"] assms(1)
    by (simp add: heap_rep_def kmalloc_total_size(2) [OF assms(3)])
  have km: "kmalloc sz m = (if of_nat ?b = (0 :: u32) then Some (0, m)
      else Some (of_nat ?b + sizeof_header, kmalloc_place (of_nat ?b) (of_nat (need sz)) m))"
    using assms(2) unfolding kmalloc_def Let_def kmalloc_total_size(1) [OF assms(3)] scan by simp
  have size: "fst x < 0xFFFFFFFF" if "x \<in> set bs" for x using heap_rep_fst [OF assms(1) that] by simp
  from best_fit_best_index [of bs "need sz" "0xFFFFFFFF" "0x100000" 0] show thesis
  proof (elim disjE exE conjE)
    assume "\<forall>x\<in>set bs. fits (need sz) x \<longrightarrow> 0xFFFFFFFF \<le> fst x" "?b = 0"
    then show thesis using size km by (intro none) fastforce+
  next
    fix i assume i: "best_index (need sz) bs i" and b: "?b = 0x100000 + total (take i bs)"
    have "i < length bs" using i by (simp add: best_index_def)
    then have "block_addr bs i < 4294967296" using block_addr_less [OF assms(1)] by fastforce
    then have "of_nat (block_addr bs i) \<noteq> (0 :: u32)"
      using of_nat_u32_eq_iff [of "block_addr bs i" 0] by (simp add: block_addr_def)
    then show thesis using km i unfolding b block_addr_def [symmetric] by (intro placed [OF i]) simp
  qed
qed

lemma alloc_blocks_rep:
  assumes "heap_rep m bs" "best_index (need sz) bs i" "sz \<noteq> 0"
  defines "m' \<equiv> kmalloc_place (of_nat (block_addr bs i)) (of_nat (need sz)) m"
  shows "heap_rep m' (alloc_blocks (need sz) i bs)"
    and "\<And>k. k < 0x100000000 \<Longrightarrow> \<not> (block_addr bs i \<le> k \<and> k < block_addr bs i + fst (bs ! i)) \<Longrightarrow>
           m' (of_nat k) = m (of_nat k)"
proof -
  have i: "i < length bs" "snd (bs ! i)" "need sz \<le> fst (bs ! i)"
    using assms(2) by (auto simp: best_index_def fits_def)
  then have "bs = take i bs @ (fst (bs ! i), True) # drop (Suc i) bs"
    by (metis id_take_nth_drop prod.collapse)
  then have "heap_rep m (take i bs @ (fst (bs ! i), True) # drop (Suc i) bs)" using assms(1) by simp
  from kmalloc_place_rep(1,3) [OF this _ _ i(3)] need_bounds [OF assms(3)]
  show "heap_rep m' (alloc_blocks (need sz) i bs)"
    and "\<And>k. k < 0x100000000 \<Longrightarrow> \<not> (block_addr bs i \<le> k \<and> k < block_addr bs i + fst (bs ! i)) \<Longrightarrow>
           m' (of_nat k) = m (of_nat k)"
    unfolding m'_def alloc_blocks_def block_addr_def by blast+
qed

section \<open>Release on the block list\<close>

text \<open>
  Freeing the block of size \<open>n\<close> between \<open>xs\<close> and \<open>ys\<close>: it absorbs a free successor, then a free
  predecessor absorbs it.
\<close>

fun absorb_next :: "nat \<Rightarrow> block list \<Rightarrow> block list" where
  "absorb_next n ((k, True) # ys) = (n + k, True) # ys"
| "absorb_next n ys = (n, True) # ys"

definition absorb_prev :: "block list \<Rightarrow> block list \<Rightarrow> block list" where
  "absorb_prev xs ys =
     (if xs \<noteq> [] \<and> snd (last xs) then butlast xs @ (fst (last xs) + fst (hd ys), True) # tl ys else xs @ ys)"

definition free_blocks :: "nat \<Rightarrow> block list \<Rightarrow> block list" where
  "free_blocks i bs = absorb_prev (take i bs) (absorb_next (fst (bs ! i)) (drop (Suc i) bs))"

lemma absorb_next_cases:
  obtains (merge) k zs where "ys = (k, True) # zs" "absorb_next n ys = (n + k, True) # zs"
  | (keep) "ys = [] \<or> \<not> snd (hd ys)" "absorb_next n ys = (n, True) # ys"
  by (cases "(n, ys)" rule: absorb_next.cases) auto

lemma heap_rep_bound: "heap_rep m (xs @ (n, f) # ys) \<Longrightarrow> 0x100000 + total xs + n \<le> 0x200000 \<and> 12 \<le> n"
  using heap_rep_fst [of m "xs @ (n, f) # ys" "(n, f)"] by (simp add: heap_rep_def)

lemma set_free_rep:
  assumes "heap_rep m (xs @ (n, f) # ys)"
  shows "heap_rep (set_free (of_nat (0x100000 + total xs)) 1 m) (xs @ (n, True) # ys)"
proof -
  define a where "a = 0x100000 + total xs"
  have a: "a < 0x200000" "12 \<le> n" using heap_rep_bound [OF assms] by (simp_all add: a_def)
  have seg: "heap_seg m a [(n, f)]"
    using assms unfolding heap_rep_def heap_seg_append a_def by (cases ys) simp_all
  have upd: "set_free (of_nat a) 1 m (of_nat k) = (if a + 4 = k then 1 else m (of_nat k))"
    if "k < 0x100000000" for k using that a by (simp add: header_update del: of_nat_add)
  have "heap_rep (set_free (of_nat a) 1 m) (xs @ [(n, True)] @ ys)"
  proof (rule heap_rep_replace [of m xs "[(n, f)]"])
    show "heap_rep m (xs @ [(n, f)] @ ys)" using assms by simp
    show "heap_seg (set_free (of_nat a) 1 m) (0x100000 + total xs) [(n, True)]"
      using seg a unfolding a_def [symmetric]
      by (simp add: heap_seg_word upd del: heap_seg.simps(2) of_nat_add)
    show "set_free (of_nat a) 1 m (of_nat k) = m (of_nat k)"
      if "k < 0x100000000" "\<not> (0x100000 + total xs \<le> k \<and> k < 0x100000 + total xs + total [(n, f)])" for k
      using that upd [of k] a by (auto simp: a_def)
  qed simp
  then show ?thesis unfolding a_def by simp
qed

text \<open>A block absorbs its successor by growing over it.\<close>

lemma set_size_rep:
  assumes "heap_rep m (xs @ (n, f) # (k, g) # ys)"
  shows "heap_rep (set_size (of_nat (0x100000 + total xs)) (of_nat (n + k)) m) (xs @ (n + k, f) # ys)"
proof -
  define a where "a = 0x100000 + total xs"
  have sum: "a + n + k \<le> 0x200000" using assms by (simp add: heap_rep_def a_def)
  have seg: "heap_seg m a [(n, f), (k, g)]"
    using assms unfolding heap_rep_def heap_seg_append a_def by simp
  then have a: "a < 0x200000" "12 \<le> n" "12 \<le> k" "4 dvd n" "4 dvd k" using sum by simp_all
  have u: "unat (of_nat (n + k) :: u32) = n + k" using sum by (intro unat_of_nat_u32) simp
  have upd: "set_size (of_nat a) v m (of_nat j) = (if a = j then v else m (of_nat j))"
    if "j < 0x100000000" for v j using that a by (simp add: header_update del: of_nat_add)
  have "heap_rep (set_size (of_nat a) (of_nat (n + k)) m) (xs @ [(n + k, f)] @ ys)"
  proof (rule heap_rep_replace [of m xs "[(n, f), (k, g)]"])
    show "heap_rep m (xs @ [(n, f), (k, g)] @ ys)" using assms by simp
    show "heap_seg (set_size (of_nat a) (of_nat (n + k)) m) (0x100000 + total xs) [(n + k, f)]"
      using seg a u unfolding a_def [symmetric]
      by (simp add: heap_seg_word upd dvd_add del: heap_seg.simps(2) of_nat_add)
    show "set_size (of_nat a) (of_nat (n + k)) m (of_nat j) = m (of_nat j)"
      if "j < 0x100000000" "\<not> (0x100000 + total xs \<le> j \<and> j < 0x100000 + total xs + total [(n, f), (k, g)])" for j
      using that upd [of j] a by (auto simp: a_def)
  qed simp
  then show ?thesis unfolding a_def by simp
qed

text \<open>The backward scan finds the predecessor.\<close>

lemma kfree_scan_prev:
  assumes "heap_seg m a xs" "a + total xs < 0x200000"
  shows "kfree_scan m (of_nat (a + total xs)) (of_nat a) p =
    Some (if xs = [] then p else of_nat (a + total (butlast xs)))"
  using assms
proof (induction xs arbitrary: a p)
  case Nil
  then show ?case by (simp add: kfree_scan.simps)
next
  case (Cons x xs)
  obtain n f where x: "x = (n, f)" by fastforce
  have n: "12 \<le> n" "hsize m (of_nat a) = of_nat n" "heap_seg m (a + n) xs" "a + n + total xs < 0x200000"
    using Cons.prems x by auto
  have "of_nat a < HEAP_END" "(of_nat a :: u32) \<noteq> of_nat (a + total (x # xs))"
    using n(1,4) x of_nat_u32_eq_iff [of a "a + total (x # xs)"] by (simp_all add: u32_lt_iff_unat unat_of_nat_u32)
  moreover have "(of_nat a :: u32) + hsize m (of_nat a) = of_nat (a + n)" using n(2) by simp
  moreover have "a + total (x # xs) = a + n + total xs" using x by simp
  ultimately have "kfree_scan m (of_nat (a + total (x # xs))) (of_nat a) p =
      kfree_scan m (of_nat (a + n + total xs)) (of_nat (a + n)) (of_nat a)"
    by (subst kfree_scan.simps) (simp only: simp_thms if_True)
  also have "\<dots> = Some (if xs = [] then of_nat a else of_nat (a + n + total (butlast xs)))"
    by (rule Cons.IH [OF n(3,4)])
  also have "\<dots> = Some (if x # xs = [] then p else of_nat (a + total (butlast (x # xs))))"
    using x by (simp add: add.assoc)
  finally show ?case .
qed

lemma heap_rep_header:
  assumes "heap_rep m (xs @ (n, f) # ys)"
  shows "hsize m (of_nat (0x100000 + total xs)) = of_nat n"
    and "is_free m (of_nat (0x100000 + total xs)) \<noteq> 0 \<longleftrightarrow> f"
  using assms unfolding heap_rep_def heap_seg_append by auto

lemma kfree_forward:
  assumes "heap_rep m (xs @ (n, True) # ys)"
  defines "a \<equiv> 0x100000 + total xs"
  defines "m' \<equiv> (if of_nat a + hsize m (of_nat a) < HEAP_END \<and> is_free m (of_nat a + hsize m (of_nat a)) \<noteq> 0
       then set_size (of_nat a) (hsize m (of_nat a) + hsize m (of_nat a + hsize m (of_nat a))) m else m)"
  shows "heap_rep m' (xs @ absorb_next n ys)"
    and "k < 0x100000000 \<Longrightarrow> k \<noteq> a \<Longrightarrow> m' (of_nat k) = m (of_nat k)"
proof -
  have nxt: "of_nat a + hsize m (of_nat a) = of_nat (a + n)"
    using heap_rep_header(1) [OF assms(1)] by (simp add: a_def)
  have bound: "a + n + total ys = 0x200000" using assms(1) by (simp add: heap_rep_def a_def)
  have "heap_rep m' (xs @ absorb_next n ys) \<and> (m' = m \<or> (\<exists>v. m' = set_size (of_nat a) v m))"
  proof (cases ys n rule: absorb_next_cases)
    case (merge j zs)
    have rep: "heap_rep m ((xs @ [(n, True)]) @ (j, True) # zs)" using assms(1) merge(1) by simp
    have "of_nat (a + n) < HEAP_END"
      using heap_rep_bound [OF rep] by (simp add: u32_lt_iff_unat unat_of_nat_u32 a_def del: of_nat_add)
    then have "m' = set_size (of_nat a) (of_nat n + of_nat j) m"
      using heap_rep_header [OF rep] heap_rep_header(1) [OF assms(1)]
      unfolding m'_def nxt by (simp add: a_def add.assoc)
    then show ?thesis
      using set_size_rep [of m xs n True j True zs] assms(1) merge by (auto simp: a_def)
  next
    case keep
    have "\<not> (of_nat (a + n) < HEAP_END \<and> is_free m (of_nat (a + n)) \<noteq> 0)"
    proof (cases ys)
      case Nil
      then show ?thesis using bound by simp
    next
      case (Cons y zs)
      then have rep: "heap_rep m ((xs @ [(n, True)]) @ (fst y, False) # zs)"
        using assms(1) keep(1) by (cases y) simp
      show ?thesis using heap_rep_header(2) [OF rep] by (simp add: a_def add.assoc)
    qed
    then have "m' = m" unfolding m'_def nxt by (rule if_not_P)
    then show ?thesis using assms(1) keep(2) by simp
  qed
  then show "heap_rep m' (xs @ absorb_next n ys)"
    and "k < 0x100000000 \<Longrightarrow> k \<noteq> a \<Longrightarrow> m' (of_nat k) = m (of_nat k)"
    using bound by (auto simp: header_update(1))
qed

lemma kfree_backward:
  assumes "heap_rep m (xs @ (n, True) # ys)"
  defines "a \<equiv> 0x100000 + total xs"
  defines "prev \<equiv> (if xs = [] then 0 else of_nat (0x100000 + total (butlast xs)))"
  defines "m' \<equiv> (if prev \<noteq> 0 \<and> is_free m prev \<noteq> 0 \<and> prev + hsize m prev = of_nat a
       then set_size prev (hsize m prev + hsize m (of_nat a)) m else m)"
  shows "kfree_scan m (of_nat a) HEAP_START 0 = Some prev"
    and "heap_rep m' (absorb_prev xs ((n, True) # ys))"
    and "k < 0x100000000 \<Longrightarrow> xs = [] \<or> k \<noteq> 0x100000 + total (butlast xs) \<Longrightarrow> m' (of_nat k) = m (of_nat k)"
proof -
  have a: "a < 0x200000" using heap_rep_bound [OF assms(1)] by (simp add: a_def)
  have "heap_seg m 0x100000 xs" using assms(1) by (simp add: heap_rep_def heap_seg_append)
  then show "kfree_scan m (of_nat a) HEAP_START 0 = Some prev"
    using kfree_scan_prev [of m "0x100000" xs 0] a by (simp add: a_def prev_def)
  have "heap_rep m' (absorb_prev xs ((n, True) # ys)) \<and>
      (m' = m \<or> xs \<noteq> [] \<and> (\<exists>v. m' = set_size (of_nat (0x100000 + total (butlast xs))) v m))"
  proof (cases xs rule: rev_cases)
    case Nil
    then show ?thesis using assms(1) by (simp add: m'_def prev_def absorb_prev_def)
  next
    case (snoc zs x)
    obtain j f where x: "x = (j, f)" by fastforce
    have rep: "heap_rep m (zs @ (j, f) # (n, True) # ys)" using assms(1) snoc x by simp
    note hd = heap_rep_header [OF rep]
    have prev: "prev = of_nat (0x100000 + total zs)" using snoc by (simp add: prev_def)
    moreover have "prev \<noteq> 0"
      using heap_rep_bound [OF rep] of_nat_u32_eq_iff [of "0x100000 + total zs" 0] unfolding prev by simp
    moreover have "prev + hsize m prev = of_nat a" using hd(1) snoc x by (simp add: prev a_def add.assoc)
    moreover have "hsize m prev + hsize m (of_nat a) = of_nat (j + n)"
      using hd(1) heap_rep_header(1) [OF assms(1)] unfolding prev a_def by simp
    ultimately have "m' = (if f then set_size (of_nat (0x100000 + total zs)) (of_nat (j + n)) m else m)"
      using hd(2) unfolding m'_def by simp
    then show ?thesis using set_size_rep [OF rep] rep snoc x by (auto simp: absorb_prev_def)
  qed
  moreover have "total (butlast xs) \<le> total xs" by (induction xs) auto
  ultimately show "heap_rep m' (absorb_prev xs ((n, True) # ys))"
    and "k < 0x100000000 \<Longrightarrow> xs = [] \<or> k \<noteq> 0x100000 + total (butlast xs) \<Longrightarrow> m' (of_nat k) = m (of_nat k)"
    using a by (auto simp: header_update(1) a_def simp del: of_nat_add)
qed

text \<open>The words of the headers, and the payload of a block.\<close>

definition in_header :: "block list \<Rightarrow> nat \<Rightarrow> bool" where
  "in_header bs k \<longleftrightarrow> (\<exists>i < length bs. k = block_addr bs i \<or> k = block_addr bs i + 4)"

definition payload :: "block list \<Rightarrow> nat \<Rightarrow> nat set" where
  "payload bs i = {block_addr bs i + 8..<block_addr bs i + fst (bs ! i)}"

lemma kfree_rep:
  assumes "heap_rep m bs" "i < length bs"
  obtains m' where "kfree (of_nat (block_addr bs i + 8)) m = Some m'" "heap_rep m' (free_blocks i bs)"
    "\<And>k. k < 0x100000000 \<Longrightarrow> \<not> in_header bs k \<Longrightarrow> m' (of_nat k) = m (of_nat k)"
proof -
  define xs n ys a where "xs = take i bs" and "n = fst (bs ! i)" and "ys = drop (Suc i) bs" and
    "a = block_addr bs i"
  have bs: "bs = xs @ (n, snd (bs ! i)) # ys"
    using assms(2) by (simp add: xs_def n_def ys_def id_take_nth_drop [symmetric])
  have a: "a = 0x100000 + total xs" by (simp add: a_def block_addr_def xs_def)
  have bound: "a < 0x200000" using heap_rep_bound [of m xs n "snd (bs ! i)" ys] assms(1) bs a by simp
  define m1 where "m1 = set_free (of_nat a) 1 m"
  have rep1: "heap_rep m1 (xs @ (n, True) # ys)"
    using set_free_rep [of m xs n "snd (bs ! i)" ys] assms(1) bs by (simp only: m1_def a)
  define m2 where "m2 = (if of_nat a + hsize m1 (of_nat a) < HEAP_END \<and> is_free m1 (of_nat a + hsize m1 (of_nat a)) \<noteq> 0
       then set_size (of_nat a) (hsize m1 (of_nat a) + hsize m1 (of_nat a + hsize m1 (of_nat a))) m1 else m1)"
  note fwd = kfree_forward [OF rep1, folded a, folded m2_def]
  obtain n' zs where nz: "absorb_next n ys = (n', True) # zs" by (cases ys n rule: absorb_next_cases)
  define prev :: u32 where "prev = (if xs = [] then 0 else of_nat (0x100000 + total (butlast xs)))"
  define m3 where "m3 = (if prev \<noteq> 0 \<and> is_free m2 prev \<noteq> 0 \<and> prev + hsize m2 prev = of_nat a
       then set_size prev (hsize m2 prev + hsize m2 (of_nat a)) m2 else m2)"
  have rep2: "heap_rep m2 (xs @ (n', True) # zs)" using fwd(1) by (simp only: nz)
  note bwd = kfree_backward [OF rep2, folded a, folded prev_def, folded m3_def]
  have ptr: "(of_nat (a + 8) :: u32) \<noteq> 0" "of_nat (a + 8) - sizeof_header = (of_nat a :: u32)"
    using bound of_nat_u32_eq_iff [of "a + 8" 0] by simp_all
  have scan: "kfree_scan m2 (of_nat a) HEAP_START 0 = Some prev" by (rule bwd(1))
  have "kfree (of_nat (a + 8)) m = Some m3"
    unfolding kfree_def Let_def ptr(2) m1_def [symmetric] m2_def [symmetric] scan
    using ptr(1) by (simp add: m3_def)
  moreover have "heap_rep m3 (free_blocks i bs)"
    using bwd(2) unfolding nz [symmetric] by (simp add: free_blocks_def xs_def n_def ys_def)
  moreover have "m3 (of_nat k) = m (of_nat k)" if k: "k < 0x100000000" "\<not> in_header bs k" for k
  proof -
    have "k \<noteq> a" "k \<noteq> a + 4" using k(2) assms(2) by (auto simp: in_header_def a_def)
    moreover have "xs = [] \<or> k \<noteq> 0x100000 + total (butlast xs)"
      using k(2) assms(2) by (cases i) (auto simp: in_header_def xs_def butlast_take block_addr_def)
    ultimately show ?thesis using k(1) fwd(2) bwd(3) bound by (simp add: m1_def header_update(2))
  qed
  ultimately show thesis using that unfolding a_def by blast
qed

lemma block_addr_mono: "i < j \<Longrightarrow> j < length bs \<Longrightarrow> block_addr bs i + fst (bs ! i) \<le> block_addr bs j"
proof (induction j)
  case (Suc j)
  have "block_addr bs (Suc j) = block_addr bs j + fst (bs ! j)"
    using Suc.prems by (simp add: block_addr_def take_Suc_conv_app_nth)
  with Suc show ?case by (cases "i = j") auto
qed simp

lemma payload_not_header:
  assumes "heap_rep m bs" "j < length bs" "k \<in> payload bs j"
  shows "\<not> in_header bs k"
proof
  assume "in_header bs k"
  then obtain i where i: "i < length bs" "k = block_addr bs i \<or> k = block_addr bs i + 4"
    by (auto simp: in_header_def)
  have k: "block_addr bs j + 8 \<le> k" "k < block_addr bs j + fst (bs ! j)" using assms(3) by (auto simp: payload_def)
  have "12 \<le> fst (bs ! i)" using heap_rep_fst [OF assms(1) nth_mem [OF i(1)]] by simp
  then show False
    using block_addr_mono [of i j bs] block_addr_mono [of j i bs] i assms(2) k
    by (cases i j rule: linorder_cases) auto
qed

lemma payload_disjoint:
  "i < length bs \<Longrightarrow> j < length bs \<Longrightarrow> i \<noteq> j \<Longrightarrow> payload bs i \<inter> payload bs j = {}"
  using block_addr_mono [of i j bs] block_addr_mono [of j i bs]
  by (cases i j rule: linorder_cases) (auto simp: payload_def)

section \<open>Coalescing\<close>

lemma coalesced_absorb_next:
  "coalesced ((n, f) # ys) \<Longrightarrow> coalesced (absorb_next n ys)"
  by (cases ys n rule: absorb_next_cases) (auto simp: coalesced_Cons)

lemma coalesced_free_blocks:
  assumes "coalesced bs" "i < length bs"
  shows "coalesced (free_blocks i bs)"
proof -
  define xs n f ys where "xs = take i bs" and "n = fst (bs ! i)" and "f = snd (bs ! i)" and "ys = drop (Suc i) bs"
  have "bs = xs @ (n, f) # ys"
    using assms(2) by (simp add: xs_def n_def f_def ys_def id_take_nth_drop [symmetric])
  then have xs: "coalesced xs" and tl: "coalesced ((n, f) # ys)"
    using assms(1) by (simp_all add: coalesced_append)
  obtain n' zs where nz: "absorb_next n ys = (n', True) # zs" by (cases ys n rule: absorb_next_cases)
  have zs: "coalesced ((n', True) # zs)" using coalesced_absorb_next [OF tl] nz by simp
  have "coalesced (absorb_prev xs ((n', True) # zs))"
  proof (cases xs rule: rev_cases)
    case (snoc ws x)
    then show ?thesis using xs zs by (auto simp: absorb_prev_def coalesced_append coalesced_Cons)
  qed (use zs in \<open>simp add: absorb_prev_def\<close>)
  then show ?thesis by (simp add: free_blocks_def nz [symmetric] xs_def n_def ys_def)
qed

lemma coalesced_alloc_blocks:
  assumes "coalesced bs" "i < length bs" "snd (bs ! i)"
  shows "coalesced (alloc_blocks t i bs)"
proof -
  define xs n ys where "xs = take i bs" and "n = fst (bs ! i)" and "ys = drop (Suc i) bs"
  have "bs = xs @ (n, True) # ys"
    using assms(2,3) by (metis id_take_nth_drop prod.collapse xs_def n_def ys_def)
  then have "coalesced (xs @ (n, True) # ys)" using assms(1) by simp
  then have "coalesced (xs @ place_block t n @ ys)"
    by (auto simp: coalesced_append coalesced_Cons place_block_def)
  then show ?thesis by (simp add: alloc_blocks_def xs_def n_def ys_def)
qed

text \<open>Releasing the block just taken restores the block list.\<close>

lemma free_alloc_blocks:
  assumes "coalesced bs" "i < length bs" "snd (bs ! i)" "t \<le> fst (bs ! i)"
  shows "free_blocks i (alloc_blocks t i bs) = bs"
proof -
  define xs n ys where "xs = take i bs" and "n = fst (bs ! i)" and "ys = drop (Suc i) bs"
  have bs: "bs = xs @ (n, True) # ys"
    using assms(2,3) by (metis id_take_nth_drop prod.collapse xs_def n_def ys_def)
  have i: "length xs = i" using assms(2) by (simp add: xs_def)
  have co: "xs = [] \<or> \<not> snd (last xs)" "ys = [] \<or> \<not> snd (hd ys)"
    using assms(1) unfolding bs by (auto simp: coalesced_append coalesced_Cons)
  have nxt: "absorb_next n ys = (n, True) # ys" for n
    using co(2) by (cases ys n rule: absorb_next_cases) auto
  have "alloc_blocks t i bs = xs @ place_block t n @ ys" by (simp add: alloc_blocks_def xs_def n_def ys_def)
  then show ?thesis
    using co(1) assms(4) unfolding bs
    by (auto simp: free_blocks_def place_block_def absorb_prev_def nxt nth_append i [symmetric] n_def)
qed

section \<open>Live allocations\<close>

text \<open>The allocations of a heap: start and length of the payload of every block in use.\<close>

fun live_from :: "nat \<Rightarrow> block list \<Rightarrow> (nat \<times> nat) set" where
  "live_from a [] = {}"
| "live_from a ((n, f) # bs) = (if f then {} else {(a + 8, n - 8)}) \<union> live_from (a + n) bs"

definition live :: "heap \<Rightarrow> (nat \<times> nat) set" where
  "live m = {x. \<exists>bs. heap_rep m bs \<and> x \<in> live_from 0x100000 bs}"

definition heap_ok :: "heap \<Rightarrow> bool" where
  "heap_ok m \<longleftrightarrow> (\<exists>bs. heap_rep m bs \<and> coalesced bs)"

lemma heap_seg_unique:
  "heap_seg m a bs \<Longrightarrow> heap_seg m a bs' \<Longrightarrow> total bs = total bs' \<Longrightarrow> bs = bs'"
proof (induction m a bs arbitrary: bs' rule: heap_seg.induct)
  case (1 m a)
  then show ?case by (cases bs') auto
next
  case (2 m a n f bs)
  then obtain n' f' zs where bs': "bs' = (n', f') # zs" by (cases bs') auto
  then show ?case using "2.prems" by (auto intro: "2.IH")
qed

lemma heap_rep_unique: "heap_rep m bs \<Longrightarrow> heap_rep m bs' \<Longrightarrow> bs' = bs"
  unfolding heap_rep_def by (rule heap_seg_unique [of m "0x100000"]) simp_all

lemma live_eq: "heap_rep m bs \<Longrightarrow> live m = live_from 0x100000 bs"
  by (auto simp only: live_def mem_Collect_eq dest: heap_rep_unique)

lemma live_from_append: "live_from a (xs @ ys) = live_from a xs \<union> live_from (a + total xs) ys"
  by (induction a xs rule: live_from.induct) (auto simp: add.assoc)

lemma live_from_bounds:
  assumes "(p, n) \<in> live_from a bs" "\<forall>x \<in> set bs. 12 \<le> fst x"
  shows "a + 8 \<le> p" "p + n \<le> a + total bs" "4 \<le> n"
  using assms by (induction a bs rule: live_from.induct) (fastforce split: if_splits)+

lemma live_alloc_blocks:
  assumes "i < length bs" "snd (bs ! i)" "t \<le> fst (bs ! i)"
  shows "live_from 0x100000 (alloc_blocks t i bs) =
    insert (block_addr bs i + 8, (if t + 24 \<le> fst (bs ! i) then t else fst (bs ! i)) - 8) (live_from 0x100000 bs)"
proof -
  define xs n ys where "xs = take i bs" and "n = fst (bs ! i)" and "ys = drop (Suc i) bs"
  have bs: "bs = xs @ (n, True) # ys"
    using assms(1,2) by (metis id_take_nth_drop prod.collapse xs_def n_def ys_def)
  have "live_from 0x100000 bs = live_from 0x100000 xs \<union> live_from (0x100000 + total xs + n) ys"
    unfolding bs by (simp add: live_from_append)
  moreover have "live_from 0x100000 (alloc_blocks t i bs) =
      live_from 0x100000 xs \<union> (live_from (0x100000 + total xs) (place_block t n) \<union> live_from (0x100000 + total xs + n) ys)"
    using assms(3) by (simp add: alloc_blocks_def live_from_append xs_def n_def ys_def)
  ultimately show ?thesis
    by (auto simp: place_block_def block_addr_def xs_def n_def)
qed

lemma live_free_blocks:
  assumes "i < length bs" "\<forall>x \<in> set bs. 12 \<le> fst x" "\<not> snd (bs ! i)"
  shows "live_from 0x100000 (free_blocks i bs) = live_from 0x100000 bs - {(block_addr bs i + 8, fst (bs ! i) - 8)}"
proof -
  define xs n ys where "xs = take i bs" and "n = fst (bs ! i)" and "ys = drop (Suc i) bs"
  have bs: "bs = xs @ (n, False) # ys"
    using assms(1,3) by (metis id_take_nth_drop prod.collapse xs_def n_def ys_def)
  define a where "a = 0x100000 + total xs"
  have ge: "\<forall>x \<in> set xs. 12 \<le> fst x" "\<forall>x \<in> set ys. 12 \<le> fst x" "12 \<le> n"
    using assms(2) unfolding bs by auto
  have lb: "live_from 0x100000 bs = live_from 0x100000 xs \<union> insert (a + 8, n - 8) (live_from (a + n) ys)"
    unfolding bs by (simp add: live_from_append a_def)
  have out: "(a + 8, n - 8) \<notin> live_from 0x100000 xs" "(a + 8, n - 8) \<notin> live_from (a + n) ys"
    using live_from_bounds(2,3) [OF _ ge(1)] live_from_bounds(1) [OF _ ge(2)] ge(3)
    by (fastforce simp: a_def)+
  have nxt: "live_from b (absorb_next n ys) = live_from (b + n) ys" for b
    by (cases ys n rule: absorb_next_cases) (auto simp: add.assoc)
  obtain n' zs where nz: "absorb_next n ys = (n', True) # zs" by (cases ys n rule: absorb_next_cases)
  have "live_from 0x100000 (absorb_prev xs (absorb_next n ys)) = live_from 0x100000 xs \<union> live_from (a + n) ys"
    using nxt [of a] unfolding nz
    by (cases xs rule: rev_cases) (auto simp: absorb_prev_def live_from_append a_def add.assoc)
  then have "live_from 0x100000 (free_blocks i bs) = live_from 0x100000 bs - {(a + 8, n - 8)}"
    using out unfolding lb by (auto simp: free_blocks_def xs_def n_def ys_def)
  then show ?thesis by (simp add: a_def block_addr_def xs_def n_def)
qed

lemma live_from_nth:
  "(p, n) \<in> live_from a bs \<longleftrightarrow>
     (\<exists>i < length bs. \<not> snd (bs ! i) \<and> p = a + total (take i bs) + 8 \<and> n = fst (bs ! i) - 8)"
proof (induction a bs rule: live_from.induct)
  case (2 a k f bs)
  show ?case unfolding live_from.simps Un_iff "2.IH" length_Cons Ex_less_Suc2 by (auto simp: add.assoc)
qed simp

lemma block_addr_dvd: "heap_rep m bs \<Longrightarrow> 4 dvd block_addr bs i"
proof -
  assume "heap_rep m bs"
  then have "\<forall>x \<in> set bs. 4 dvd fst x" using heap_rep_fst by blast
  then have "4 dvd total (take i bs)" by (induction bs arbitrary: i) (auto simp: take_Cons' dvd_add)
  then show ?thesis by (auto simp: block_addr_def intro!: dvd_add)
qed

lemma unat_block_addr:
  "heap_rep m bs \<Longrightarrow> i < length bs \<Longrightarrow> unat (of_nat (block_addr bs i + 8) :: u32) = block_addr bs i + 8"
  using block_addr_less by (intro unat_of_nat_u32) fastforce

text \<open>What \<^verbatim>\<open>kmalloc\<close> promises its callers, in terms of the live allocations.\<close>

lemma kmalloc_ok:
  assumes "heap_ok m" "sz \<noteq> 0" "unat sz \<le> 0xFFFFFFF4"
  obtains (fail) "kmalloc sz m = Some (0, m)"
  | (new) p n m' where "kmalloc sz m = Some (p, m')" "p \<noteq> 0" "heap_ok m'" "unat sz \<le> n"
      "live m' = insert (unat p, n) (live m)" "4 dvd unat p" "unat p + n \<le> 0x200000"
      "\<And>q k. (q, k) \<in> live m \<Longrightarrow> {unat p..<unat p + n} \<inter> {q..<q + k} = {}"
proof -
  obtain bs where bs: "heap_rep m bs" "coalesced bs" using assms(1) by (auto simp: heap_ok_def)
  from bs(1) assms(2,3) show thesis
  proof (cases rule: kmalloc_cases)
    case none
    then show thesis by (intro fail)
  next
    case (placed i)
    define t where "t = need sz"
    define m' where "m' = kmalloc_place (of_nat (block_addr bs i)) (of_nat t) m"
    define p :: u32 where "p = of_nat (block_addr bs i + 8)"
    define n where "n = (if t + 24 \<le> fst (bs ! i) then t else fst (bs ! i)) - 8"
    have i: "i < length bs" "snd (bs ! i)" "t \<le> fst (bs ! i)"
      using placed(1) by (auto simp: best_index_def fits_def t_def)
    have t: "unat sz + 8 \<le> t" using need_bounds [OF assms(2)] by (simp add: t_def)
    have up: "unat p = block_addr bs i + 8" using unat_block_addr [OF bs(1) i(1)] by (simp add: p_def)
    have rep: "heap_rep m' (alloc_blocks t i bs)"
      using alloc_blocks_rep(1) [OF bs(1) placed(1) assms(2)] by (simp add: m'_def t_def)
    have sub: "{unat p..<unat p + n} \<subseteq> payload bs i"
      using t i(3) up by (auto simp: payload_def n_def)
    show thesis
    proof (rule new)
      show "kmalloc sz m = Some (p, m')" using placed(2) by (simp only: p_def m'_def t_def)
      show "p \<noteq> 0" using up by auto
      show "heap_ok m'" using rep coalesced_alloc_blocks [OF bs(2) i(1,2)] by (auto simp: heap_ok_def)
      show "unat sz \<le> n" using t i(3) by (auto simp: n_def)
      show "live m' = insert (unat p, n) (live m)"
        using live_alloc_blocks [OF i] live_eq [OF rep] live_eq [OF bs(1)] up by (simp add: n_def)
      show "4 dvd unat p" using block_addr_dvd [OF bs(1), of i] unfolding up by (intro dvd_add) simp_all
      show "unat p + n \<le> 0x200000" using block_addr_less [OF bs(1) i(1)] up i(3) t by (auto simp: n_def)
      fix q k assume "(q, k) \<in> live m"
      then obtain j where j: "j < length bs" "\<not> snd (bs ! j)" "q = block_addr bs j + 8" "k = fst (bs ! j) - 8"
        by (auto simp: live_eq [OF bs(1)] live_from_nth block_addr_def)
      have "8 \<le> fst (bs ! j)" using heap_rep_fst [OF bs(1) nth_mem [OF j(1)]] by simp
      then have "{q..<q + k} = payload bs j" using j by (auto simp: payload_def)
      moreover have "i \<noteq> j" using i(2) j(2) by auto
      ultimately show "{unat p..<unat p + n} \<inter> {q..<q + k} = {}"
        using payload_disjoint [OF i(1) j(1)] sub by blast
    qed
  qed
qed

lemma kfree_ok:
  assumes "heap_ok m" "(unat p, n) \<in> live m"
  obtains m' where "kfree p m = Some m'" "heap_ok m'" "live m' = live m - {(unat p, n)}"
    "\<And>q k x. (q, k) \<in> live m \<Longrightarrow> x \<in> {q..<q + k} \<Longrightarrow> m' (of_nat x) = m (of_nat x)"
proof -
  obtain bs where bs: "heap_rep m bs" "coalesced bs" using assms(1) by (auto simp: heap_ok_def)
  obtain i where i: "i < length bs" "\<not> snd (bs ! i)" "unat p = block_addr bs i + 8" "n = fst (bs ! i) - 8"
    using assms(2) by (auto simp: live_eq [OF bs(1)] live_from_nth block_addr_def)
  have p: "of_nat (block_addr bs i + 8) = p" using i(3) by (metis u32_of_unat)
  obtain m' where m': "kfree p m = Some m'" "heap_rep m' (free_blocks i bs)"
    "\<And>k. k < 0x100000000 \<Longrightarrow> \<not> in_header bs k \<Longrightarrow> m' (of_nat k) = m (of_nat k)"
    using kfree_rep [OF bs(1) i(1)] unfolding p by blast
  have ge: "\<forall>x \<in> set bs. 12 \<le> fst x" using heap_rep_fst [OF bs(1)] by blast
  show thesis
  proof (rule that)
    show "kfree p m = Some m'" by (rule m'(1))
    show "heap_ok m'" using m'(2) coalesced_free_blocks [OF bs(2) i(1)] by (auto simp: heap_ok_def)
    show "live m' = live m - {(unat p, n)}"
      using live_free_blocks [OF i(1) ge i(2)] live_eq [OF m'(2)] live_eq [OF bs(1)] i(3,4) by simp
    fix q k x assume qk: "(q, k) \<in> live m" "x \<in> {q..<q + k}"
    then obtain j where j: "j < length bs" "q = block_addr bs j + 8" "k = fst (bs ! j) - 8"
      by (auto simp: live_eq [OF bs(1)] live_from_nth block_addr_def)
    then have "x \<in> payload bs j" using qk(2) by (auto simp: payload_def)
    then have "\<not> in_header bs x" "x < 0x100000000"
      using payload_not_header [OF bs(1) j(1)] block_addr_less [OF bs(1) j(1)] by (auto simp: payload_def)
    then show "m' (of_nat x) = m (of_nat x)" using m'(3) by blast
  qed
qed

section \<open>The contract of a kernel heap\<close>

text \<open>
  The interface the rest of the kernel sees (task stacks, shell buffers, the ELF loader's file
  buffer): requests up to \<open>limit\<close> return, a success is a fresh region disjoint from every live one, a
  failure changes nothing, and a release takes away exactly the region it names.
\<close>

locale kernel_heap =
  fixes malloc :: "u32 \<Rightarrow> 'h \<Rightarrow> (u32 \<times> 'h) option"
    and release :: "u32 \<Rightarrow> 'h \<Rightarrow> 'h option"
    and inv :: "'h \<Rightarrow> bool"
    and regions :: "'h \<Rightarrow> (nat \<times> nat) set"
    and limit :: nat
  assumes malloc_returns: "inv h \<Longrightarrow> sz \<noteq> 0 \<Longrightarrow> unat sz \<le> limit \<Longrightarrow> \<exists>p h'. malloc sz h = Some (p, h') \<and> inv h'"
    and malloc_fail: "inv h \<Longrightarrow> sz \<noteq> 0 \<Longrightarrow> unat sz \<le> limit \<Longrightarrow> malloc sz h = Some (0, h') \<Longrightarrow> h' = h"
    and malloc_new: "inv h \<Longrightarrow> sz \<noteq> 0 \<Longrightarrow> unat sz \<le> limit \<Longrightarrow> malloc sz h = Some (p, h') \<Longrightarrow> p \<noteq> 0 \<Longrightarrow>
        \<exists>n. unat sz \<le> n \<and> regions h' = insert (unat p, n) (regions h) \<and>
            (\<forall>(q, k) \<in> regions h. {unat p..<unat p + n} \<inter> {q..<q + k} = {})"
    and release_returns: "inv h \<Longrightarrow> (unat p, n) \<in> regions h \<Longrightarrow>
        \<exists>h'. release p h = Some h' \<and> inv h' \<and> regions h' = regions h - {(unat p, n)}"
begin

lemma malloc_release:
  assumes "inv h" "sz \<noteq> 0" "unat sz \<le> limit" "malloc sz h = Some (p, h')" "p \<noteq> 0"
  shows "\<exists>h''. release p h' = Some h'' \<and> inv h'' \<and> regions h'' = regions h"
proof -
  obtain n where n: "unat sz \<le> n" "regions h' = insert (unat p, n) (regions h)"
    "\<forall>(q, k) \<in> regions h. {unat p..<unat p + n} \<inter> {q..<q + k} = {}"
    using malloc_new [OF assms] by blast
  have "0 < unat sz" using assms(2) by (simp add: unat_gt_0)
  then have "(unat p, n) \<notin> regions h" using n(1,3) by auto
  moreover have "inv h'" using malloc_returns [OF assms(1-3)] assms(4) by auto
  ultimately show ?thesis using release_returns [of h' p n] n(2) by auto
qed

text \<open>Two allocations in a row never overlap.\<close>

lemma malloc_twice_disjoint:
  assumes "inv h" "sz \<noteq> 0" "unat sz \<le> limit" "malloc sz h = Some (p, h')" "p \<noteq> 0"
    and "sz' \<noteq> 0" "unat sz' \<le> limit" "malloc sz' h' = Some (p', h'')" "p' \<noteq> 0"
  shows "{unat p..<unat p + unat sz} \<inter> {unat p'..<unat p' + unat sz'} = {}"
proof -
  obtain n where n: "unat sz \<le> n" "regions h' = insert (unat p, n) (regions h)"
    using malloc_new [OF assms(1-5)] by blast
  have "inv h'" using malloc_returns [OF assms(1-3)] assms(4) by auto
  from malloc_new [OF this assms(6-9)] obtain n' where n': "unat sz' \<le> n'"
    "{unat p'..<unat p' + n'} \<inter> {unat p..<unat p + n} = {}" unfolding n(2) by auto
  have "{unat p..<unat p + unat sz} \<subseteq> {unat p..<unat p + n}" "{unat p'..<unat p' + unat sz'} \<subseteq> {unat p'..<unat p' + n'}"
    using n(1) n'(1) by auto
  with n'(2) show ?thesis by blast
qed

end

interpretation kheap: kernel_heap kmalloc kfree heap_ok live "0xFFFFFFF4"
proof unfold_locales
  fix h h' :: heap and sz p :: u32 and n :: nat
  assume h: "heap_ok h"
  show "\<exists>h'. kfree p h = Some h' \<and> heap_ok h' \<and> live h' = live h - {(unat p, n)}" if "(unat p, n) \<in> live h"
    using kfree_ok [OF h that] by metis
  assume sz: "sz \<noteq> 0" "unat sz \<le> 0xFFFFFFF4"
  show "\<exists>p h'. kmalloc sz h = Some (p, h') \<and> heap_ok h'"
    using h sz by (cases rule: kmalloc_ok) (use h in blast)+
  show "h' = h" if "kmalloc sz h = Some (0, h')" using h sz by (cases rule: kmalloc_ok) (use that in auto)
  show "\<exists>n. unat sz \<le> n \<and> live h' = insert (unat p, n) (live h) \<and>
            (\<forall>(q, k) \<in> live h. {unat p..<unat p + n} \<inter> {q..<q + k} = {})"
    if "kmalloc sz h = Some (p, h')" "p \<noteq> 0"
    using h sz
  proof (cases rule: kmalloc_ok)
    case (new p' k h'')
    then show ?thesis using that by (intro exI [of _ k]) auto
  qed (use that in simp)
qed

section \<open>Properties\<close>

lemma kmalloc_init_rep: "heap_rep (kmalloc_init m) [(0x100000, True)]"
  by (simp add: heap_rep_def kmalloc_init_def hsize_def is_free_def set_size_def set_free_def)

lemma best_index_single: "best_index t [(n, True)] 0 \<longleftrightarrow> t \<le> n"
  by (simp add: best_index_def fits_def)

text \<open>(C5) \<^verbatim>\<open>kmalloc\<close> refines best-fit allocation on the list of blocks: on a heap that is tiled by
  coalesced blocks every request for at least one byte (and at most \<^verbatim>\<open>0xFFFFFFF4\<close>, where the rounding cannot wrap) returns, takes the
  first of the smallest free blocks that hold it, splits it when the rest can hold another block, and
  fails without changing memory exactly when no free block is large enough.\<close>

theorem kmalloc_best_fit:
  assumes "heap_rep m bs" "coalesced bs" "sz \<noteq> 0" "unat sz \<le> 0xFFFFFFF4"
  shows "if \<exists>x \<in> set bs. fits (need sz) x
     then \<exists>i m'. best_index (need sz) bs i \<and> kmalloc sz m = Some (of_nat (block_addr bs i + 8), m') \<and>
            heap_rep m' (alloc_blocks (need sz) i bs) \<and> coalesced (alloc_blocks (need sz) i bs)
     else kmalloc sz m = Some (0, m)"
  using assms(1,3,4)
proof (cases rule: kmalloc_cases)
  case (placed i)
  then have i: "i < length bs" "snd (bs ! i)" "fits (need sz) (bs ! i)" by (auto simp: best_index_def fits_def)
  then show ?thesis
    using placed alloc_blocks_rep(1) [OF assms(1) placed(1) assms(3)] coalesced_alloc_blocks [OF assms(2) i(1,2)]
    by (auto intro: nth_mem)
qed simp

theorem kmalloc_best_fit_witness:
  "\<exists>m'. kmalloc 10 (kmalloc_init (\<lambda>_. 0)) = Some (0x100008, m') \<and>
     heap_rep m' [(20, False), (0xFFFEC, True)] \<and>
     kmalloc 0x100000 (kmalloc_init (\<lambda>_. 0)) = Some (0, kmalloc_init (\<lambda>_. 0))"
proof -
  let ?m = "kmalloc_init (\<lambda>_. 0)"
  obtain i m' where i: "best_index (need 10) [(0x100000, True)] i"
    "kmalloc 10 ?m = Some (of_nat (block_addr [(0x100000, True)] i + 8), m')"
    "heap_rep m' (alloc_blocks (need 10) i [(0x100000, True)])"
    using kmalloc_best_fit [OF kmalloc_init_rep, of 10 "\<lambda>_. 0"] by (auto simp: fits_def need_def)
  then have "i = 0" by (simp add: best_index_def)
  moreover have "kmalloc 0x100000 ?m = Some (0, ?m)"
    using kmalloc_best_fit [OF kmalloc_init_rep, of "0x100000" "\<lambda>_. 0"] by (simp add: fits_def need_def)
  ultimately show ?thesis
    using i by (intro exI [of _ m']) (simp add: block_addr_def alloc_blocks_def place_block_def need_def)
qed

text \<open>(C23) \<^verbatim>\<open>kfree\<close> of a block returns, marks the block free and merges it with its free neighbours on both sides, so that the
  blocks still tile the heap and no two neighbours are both free; of the whole memory only words of block headers change, so every
  payload and everything outside the heap is as it was.\<close>

theorem kfree_coalesces:
  assumes "heap_rep m bs" "coalesced bs" "i < length bs"
  shows "\<exists>m'. kfree (of_nat (block_addr bs i + 8)) m = Some m' \<and> heap_rep m' (free_blocks i bs) \<and>
    coalesced (free_blocks i bs) \<and>
    (\<forall>x. \<not> in_header bs (unat x) \<longrightarrow> m' x = m x) \<and>
    (\<forall>j < length bs. \<forall>k \<in> payload bs j. m' (of_nat k) = m (of_nat k))"
proof -
  obtain m' where m': "kfree (of_nat (block_addr bs i + 8)) m = Some m'" "heap_rep m' (free_blocks i bs)"
    "\<And>k. k < 0x100000000 \<Longrightarrow> \<not> in_header bs k \<Longrightarrow> m' (of_nat k) = m (of_nat k)"
    using kfree_rep [OF assms(1,3)] by blast
  have frame: "m' x = m x" if "\<not> in_header bs (unat x)" for x
    using m'(3) [OF _ that] unat_less_2p32 [of x] by (simp add: u32_of_unat)
  have "m' (of_nat k) = m (of_nat k)" if "j < length bs" "k \<in> payload bs j" for j k
    using payload_not_header [OF assms(1) that] block_addr_less [OF assms(1) that(1)] that(2)
    by (intro m'(3)) (auto simp: payload_def)
  then show ?thesis using m'(1,2) frame coalesced_free_blocks [OF assms(2,3)] by blast
qed

definition demo_heap :: heap where
  "demo_heap = (\<lambda>_. 0)(0x100000 := 32, 0x100004 := 1, 0x100020 := 16, 0x100030 := 0xFFFD0, 0x100034 := 1)"

theorem kfree_coalesces_witness:
  "\<exists>m'. kfree 0x100028 demo_heap = Some m' \<and> heap_rep m' [(0x100000, True)] \<and> m' HEAP_END = demo_heap HEAP_END"
proof -
  have rep: "heap_rep demo_heap [(32, True), (16, False), (0xFFFD0, True)]"
    by (simp add: heap_rep_def demo_heap_def hsize_def is_free_def)
  have "\<not> in_header [(32, True), (16, False), (0xFFFD0, True)] (unat HEAP_END)"
    using block_addr_less [OF rep] heap_rep_fst [OF rep nth_mem] by (fastforce simp: in_header_def)
  then show ?thesis using kfree_coalesces [OF rep, of 1]
    by (auto simp: block_addr_def free_blocks_def absorb_prev_def)
qed

text \<open>(C4) Live allocations never overlap and stay inside the heap: for a size from 1 to \<^verbatim>\<open>0xFFFFFFF4\<close> (beyond it the rounding of the
  request may wrap around), a \<^verbatim>\<open>kmalloc\<close> that returns a pointer adds one word-aligned region of at least the requested size, inside the heap and
  disjoint from all live regions; a \<^verbatim>\<open>kfree\<close> of that pointer right after returns, and the live regions are again those before the call.\<close>

theorem kmalloc_disjoint:
  assumes "heap_ok m" "sz \<noteq> 0" "unat sz \<le> 0xFFFFFFF4" "kmalloc sz m = Some (p, m')" "p \<noteq> 0"
  shows "heap_ok m' \<and> 4 dvd unat p \<and>
    (\<exists>n. unat sz \<le> n \<and> unat p + n \<le> 0x200000 \<and> live m' = insert (unat p, n) (live m) \<and>
       (\<forall>(q, k) \<in> live m. {unat p..<unat p + n} \<inter> {q..<q + k} = {})) \<and>
    (\<exists>m''. kfree p m' = Some m'' \<and> heap_ok m'' \<and> live m'' = live m)"
proof -
  have undo: "\<exists>m''. kfree p m' = Some m'' \<and> heap_ok m'' \<and> live m'' = live m"
    by (rule kheap.malloc_release [OF assms])
  from assms(1-3) show ?thesis
  proof (cases rule: kmalloc_ok)
    case (new p' n m1)
    then show ?thesis using assms(4) undo by auto
  qed (use assms(4,5) in simp)
qed

lemma kmalloc_init_ok: "heap_ok (kmalloc_init m)" "live (kmalloc_init m) = {}"
  using kmalloc_init_rep [of m] live_eq [OF kmalloc_init_rep, of m] by (auto simp: heap_ok_def)

theorem kmalloc_disjoint_witness:
  "\<exists>p m'. kmalloc 10 (kmalloc_init (\<lambda>_. 0)) = Some (p, m') \<and> p \<noteq> 0 \<and> heap_ok m' \<and>
     (\<exists>n. 10 \<le> n \<and> live m' = {(unat p, n)})"
proof -
  let ?m = "kmalloc_init (\<lambda>_. 0)"
  have "fits (need 10) (0x100000, True)" by (simp add: fits_def need_def)
  then obtain i m' where k: "best_index (need 10) [(0x100000, True)] i"
    "kmalloc 10 ?m = Some (of_nat (block_addr [(0x100000, True)] i + 8), m')"
    by (cases rule: kmalloc_cases [OF kmalloc_init_rep [of "\<lambda>_. 0"], of 10]) auto
  then have "i = 0" by (simp add: best_index_def)
  then have k: "kmalloc 10 ?m = Some (0x100008, m')" using k(2) by (simp add: block_addr_def)
  have "heap_ok m' \<and> (\<exists>n. 10 \<le> n \<and> live m' = {(unat (0x100008 :: u32), n)})"
    using kmalloc_disjoint [OF kmalloc_init_ok(1) _ _ k] by (auto simp: kmalloc_init_ok(2))
  with k show ?thesis by (intro exI [of _ "0x100008"] exI [of _ m']) simp
qed

text \<open>A scan that meets a block of size 0 in use stays there forever.\<close>

lemma kmalloc_scan_stuck:
  assumes "hsize m c = 0" "is_free m c = 0" "c < HEAP_END"
  shows "kmalloc_scan m t c b z = None"
proof (rule ccontr)
  assume "kmalloc_scan m t c b z \<noteq> None"
  then obtain y where "kmalloc_scan m t c b z = Some y" by blast
  then have "\<not> (hsize m c = 0 \<and> is_free m c = 0 \<and> c < HEAP_END)"
    by (rule kmalloc_scan.raw_induct [rotated]) (auto split: if_splits)
  with assms show False by simp
qed

text \<open>(C39) The rounding of the request is not guarded against wrap-around: on the fresh heap a request of
  \<^verbatim>\<open>0xFFFFFFF8\<close> bytes succeeds, leaves a block of size 0 at the start of the heap, and after it no
  call of \<^verbatim>\<open>kmalloc\<close> for a non-zero size ever returns.\<close>

theorem kmalloc_wraps:
  "\<exists>m'. kmalloc 0xFFFFFFF8 (kmalloc_init m) = Some (0x100008, m') \<and> hsize m' HEAP_START = 0 \<and>
     (\<forall>sz. sz \<noteq> 0 \<longrightarrow> kmalloc sz m' = None)"
proof -
  let ?m = "kmalloc_init m"
  have hd: "hsize ?m HEAP_START = 0x100000" "is_free ?m HEAP_START = 1"
    by (simp_all add: kmalloc_init_def hsize_def is_free_def set_size_def set_free_def)
  have scan: "kmalloc_scan ?m 0 HEAP_START 0 0xFFFFFFFF = Some HEAP_START"
    by (subst kmalloc_scan.simps, simp add: hd, subst kmalloc_scan.simps, simp)
  have "(0xFFFFFFF8 :: u32) mod 4 = 0" "(0xFFFFFFF8 :: u32) + sizeof_header = 0" by simp_all
  then have "kmalloc 0xFFFFFFF8 ?m = (if (0xFFFFFFF8 :: u32) = 0 \<or> HEAP_START = 0 then Some (0, ?m)
      else Some (HEAP_START + sizeof_header, kmalloc_place HEAP_START 0 ?m))"
    unfolding kmalloc_def Let_def by (simp only: simp_thms if_False scan option.case split: if_split) simp
  then have k: "kmalloc 0xFFFFFFF8 ?m = Some (0x100008, kmalloc_place HEAP_START 0 ?m)" by simp
  define m' where "m' = kmalloc_place HEAP_START 0 ?m"
  have m': "hsize m' HEAP_START = 0" "is_free m' HEAP_START = 0"
    using hd by (simp_all add: m'_def kmalloc_place_def hsize_def is_free_def set_size_def set_free_def)
  have "kmalloc sz m' = None" if "sz \<noteq> 0" for sz
    using that by (simp add: kmalloc_def kmalloc_scan_stuck [OF m'])
  then show ?thesis using k m'(1) by (auto simp: m'_def)
qed

theorem kmalloc_wraps_witness:
  "\<exists>m'. kmalloc 0xFFFFFFF8 (kmalloc_init (\<lambda>_. 0)) = Some (0x100008, m') \<and> kmalloc 1 m' = None"
  using kmalloc_wraps [of "\<lambda>_. 0"] by auto

end
