(* ===== verification/Descriptors.thy ===== *)
theory Descriptors
  imports ApPa_Prelude
begin

text \<open>
  The descriptor tables of \<^verbatim>\<open>kernel/arch/gdt.c\<close>, \<^verbatim>\<open>tss.c\<close> and \<^verbatim>\<open>idt.c\<close>.  The
  addresses of the tables and of the assembly stubs are chosen by the linker; they are arguments.
  \<^verbatim>\<open>lgdt\<close>, \<^verbatim>\<open>ltr\<close> and \<^verbatim>\<open>lidt\<close> are instructions and appear as the pointer they load.
  The lemmas read a descriptor back the way the processor does.
\<close>

section \<open>Global descriptor table\<close>

record gdt_entry =
  limit_low :: u16
  base_low :: u16
  base_middle :: u8
  access :: u8
  granularity :: u8
  base_high :: u8

record table_ptr =
  tp_limit :: u16
  tp_base :: u32

abbreviation GDT_ENTRIES :: nat where "GDT_ENTRIES \<equiv> 6"
abbreviation GDT_KERNEL_CODE_SEG :: u32 where "GDT_KERNEL_CODE_SEG \<equiv> 0x08"
abbreviation GDT_KERNEL_DATA_SEG :: u32 where "GDT_KERNEL_DATA_SEG \<equiv> 0x10"
abbreviation GDT_USER_CODE_SEG :: u32 where "GDT_USER_CODE_SEG \<equiv> 0x1B"
abbreviation GDT_USER_DATA_SEG :: u32 where "GDT_USER_DATA_SEG \<equiv> 0x23"

definition gdt_set_gate :: "nat \<Rightarrow> u32 \<Rightarrow> u32 \<Rightarrow> u8 \<Rightarrow> u8 \<Rightarrow> gdt_entry list \<Rightarrow> gdt_entry list" where
  "gdt_set_gate num base limit acc gran gdt =
     gdt[num :=
       \<lparr>limit_low = ucast (limit AND 0xFFFF),
        base_low = ucast (base AND 0xFFFF),
        base_middle = ucast (drop_bit 16 base AND 0xFF),
        access = acc,
        granularity = ucast (drop_bit 16 limit AND 0x0F) OR (gran AND 0xF0),
        base_high = ucast (drop_bit 24 base AND 0xFF)\<rparr>]"

definition gdt_set_gate_ext :: "nat \<Rightarrow> u32 \<Rightarrow> u32 \<Rightarrow> u8 \<Rightarrow> u8 \<Rightarrow> gdt_entry list \<Rightarrow> gdt_entry list" where
  "gdt_set_gate_ext num base limit acc gran gdt = gdt_set_gate num base limit acc gran gdt"

text \<open>The pointer handed to \<^verbatim>\<open>gdt_flush\<close>; an entry is 8 bytes.\<close>

definition gdt_reload :: "u32 \<Rightarrow> table_ptr" where
  "gdt_reload gdt_addr = \<lparr>tp_limit = of_nat (8 * GDT_ENTRIES) - 1, tp_base = gdt_addr\<rparr>"

definition gdt_init :: "u32 \<Rightarrow> gdt_entry list \<Rightarrow> gdt_entry list \<times> table_ptr" where
  "gdt_init gdt_addr gdt =
     (let gp = \<lparr>tp_limit = of_nat (8 * GDT_ENTRIES) - 1, tp_base = gdt_addr\<rparr>;
          gdt = gdt_set_gate 0 0 0 0 0 gdt;
          gdt = gdt_set_gate 1 0 0xFFFFFFFF 0x9A 0xCF gdt;
          gdt = gdt_set_gate 2 0 0xFFFFFFFF 0x92 0xCF gdt;
          gdt = gdt_set_gate 3 0 0xFFFFFFFF 0xFA 0xCF gdt;
          gdt = gdt_set_gate 4 0 0xFFFFFFFF 0xF2 0xCF gdt;
          gdt = gdt_set_gate 5 0 0 0 0 gdt
      in (gdt, gp))"

text \<open>Base, limit, access byte and flag nibble as the processor assembles them from an entry.\<close>

definition desc_base :: "gdt_entry \<Rightarrow> u32" where
  "desc_base e = ucast (base_low e) OR push_bit 16 (ucast (base_middle e)) OR push_bit 24 (ucast (base_high e))"

definition desc_limit :: "gdt_entry \<Rightarrow> u32" where
  "desc_limit e = ucast (limit_low e) OR push_bit 16 (ucast (granularity e) AND 0x0F)"

definition desc_flags :: "gdt_entry \<Rightarrow> u8" where
  "desc_flags e = granularity e AND 0xF0"

text \<open>
  What the processor makes of an entry: nothing when it is not present; otherwise base, size in bytes (the limit counts
  pages when the granularity bit is set), privilege, operand size and kind of the segment.
\<close>

datatype seg_kind = Code bool | Data bool | System u8

record segment =
  seg_base :: u32
  seg_bytes :: nat
  seg_dpl :: u8
  seg_32bit :: bool
  seg_kind :: seg_kind

definition seg_of :: "gdt_entry \<Rightarrow> segment option" where
  "seg_of e =
     (if bit (access e) 7 then
        Some \<lparr>seg_base = desc_base e,
              seg_bytes = (unat (desc_limit e) + 1) * (if bit (desc_flags e) 7 then 4096 else 1),
              seg_dpl = drop_bit 5 (access e) AND 3,
              seg_32bit = bit (desc_flags e) 6,
              seg_kind = (if \<not> bit (access e) 4 then System (access e AND 0x0F)
                          else if bit (access e) 3 then Code (bit (access e) 1) else Data (bit (access e) 1))\<rparr>
      else None)"

text \<open>The entry that a selector chooses; its two low bits are the privilege asked for.\<close>

definition selected :: "u32 \<Rightarrow> gdt_entry list \<Rightarrow> gdt_entry" where
  "selected sel gdt = gdt ! unat (drop_bit 3 sel)"

definition flat :: "u8 \<Rightarrow> seg_kind \<Rightarrow> segment" where
  "flat dpl kind = \<lparr>seg_base = 0, seg_bytes = 4294967296, seg_dpl = dpl, seg_32bit = True, seg_kind = kind\<rparr>"

section \<open>Task state segment\<close>

record tss_entry =
  tss_prev :: u32
  tss_esp0 :: u32
  tss_ss0 :: u32
  tss_regs :: "u32 list"
  tss_trap :: u16
  tss_iomap_base :: u16

text \<open>The 22 double words from \<^verbatim>\<open>esp1\<close> to \<^verbatim>\<open>ldt\<close> are \<open>tss_regs\<close>; the structure is 104 bytes.\<close>

abbreviation sizeof_tss :: u32 where "sizeof_tss \<equiv> 104"

definition tss_init ::
  "u32 \<Rightarrow> u32 \<Rightarrow> u32 \<Rightarrow> u32 \<Rightarrow> gdt_entry list \<Rightarrow> tss_entry \<times> gdt_entry list \<times> table_ptr" where
  "tss_init tss_addr gdt_addr kernel_ss kernel_esp gdt =
     (let tss = \<lparr>tss_prev = 0, tss_esp0 = 0, tss_ss0 = 0, tss_regs = replicate 22 0, tss_trap = 0, tss_iomap_base = 0\<rparr>;
          tss = tss\<lparr>tss_ss0 := kernel_ss, tss_esp0 := kernel_esp\<rparr>;
          tss = tss\<lparr>tss_iomap_base := ucast sizeof_tss\<rparr>;
          base = tss_addr;
          limit = sizeof_tss - 1
      in (tss, gdt_set_gate_ext 5 base limit 0xE9 0x00 gdt, gdt_reload gdt_addr))"

definition tss_set_kernel_stack :: "u32 \<Rightarrow> tss_entry \<Rightarrow> tss_entry" where
  "tss_set_kernel_stack esp0 tss = tss\<lparr>tss_esp0 := esp0\<rparr>"

section \<open>Interrupt descriptor table\<close>

record idt_entry =
  offset_1 :: u16
  selector :: u16
  zero_byte :: u8
  type_attributes :: u8
  offset_2 :: u16

abbreviation IDT_ENTRIES :: nat where "IDT_ENTRIES \<equiv> 256"
abbreviation KERNEL_CODE_SEG :: u16 where "KERNEL_CODE_SEG \<equiv> 0x08"
abbreviation IDT_FLAG_PRESENT :: u8 where "IDT_FLAG_PRESENT \<equiv> 0x80"
abbreviation IDT_FLAG_RING0 :: u8 where "IDT_FLAG_RING0 \<equiv> 0x00"
abbreviation IDT_FLAG_RING3 :: u8 where "IDT_FLAG_RING3 \<equiv> 0x60"
abbreviation IDT_FLAG_GATE_INT :: u8 where "IDT_FLAG_GATE_INT \<equiv> 0x0E"

definition idt_set_gate :: "u8 \<Rightarrow> u32 \<Rightarrow> u16 \<Rightarrow> u8 \<Rightarrow> idt_entry list \<Rightarrow> idt_entry list" where
  "idt_set_gate num handler sel flags idt =
     idt[unat num :=
       \<lparr>offset_1 = ucast (handler AND 0xFFFF), selector = sel, zero_byte = 0, type_attributes = flags,
        offset_2 = ucast (drop_bit 16 handler AND 0xFFFF)\<rparr>]"

text \<open>\<open>isr i\<close> and \<open>irq i\<close> are the addresses of the stubs \<^verbatim>\<open>isr0\<close> to \<^verbatim>\<open>isr31\<close> and \<^verbatim>\<open>irq0\<close> to \<^verbatim>\<open>irq15\<close>.\<close>

definition idt_init :: "u32 \<Rightarrow> (nat \<Rightarrow> u32) \<Rightarrow> (nat \<Rightarrow> u32) \<Rightarrow> idt_entry list \<Rightarrow> idt_entry list \<times> table_ptr" where
  "idt_init idt_addr isr irq idt =
     (let idtp = \<lparr>tp_limit = of_nat (8 * IDT_ENTRIES) - 1, tp_base = idt_addr\<rparr>;
          idt = fold (\<lambda>i. idt_set_gate (of_nat i) 0 0 0) [0..<IDT_ENTRIES] idt;
          flags = IDT_FLAG_PRESENT OR IDT_FLAG_RING0 OR IDT_FLAG_GATE_INT;
          idt = idt_set_gate 0 (isr 0) KERNEL_CODE_SEG flags idt;
          idt = idt_set_gate 1 (isr 1) KERNEL_CODE_SEG flags idt;
          idt = idt_set_gate 2 (isr 2) KERNEL_CODE_SEG flags idt;
          idt = idt_set_gate 3 (isr 3) KERNEL_CODE_SEG flags idt;
          idt = idt_set_gate 4 (isr 4) KERNEL_CODE_SEG flags idt;
          idt = idt_set_gate 5 (isr 5) KERNEL_CODE_SEG flags idt;
          idt = idt_set_gate 6 (isr 6) KERNEL_CODE_SEG flags idt;
          idt = idt_set_gate 7 (isr 7) KERNEL_CODE_SEG flags idt;
          idt = idt_set_gate 8 (isr 8) KERNEL_CODE_SEG flags idt;
          idt = idt_set_gate 9 (isr 9) KERNEL_CODE_SEG flags idt;
          idt = idt_set_gate 10 (isr 10) KERNEL_CODE_SEG flags idt;
          idt = idt_set_gate 11 (isr 11) KERNEL_CODE_SEG flags idt;
          idt = idt_set_gate 12 (isr 12) KERNEL_CODE_SEG flags idt;
          idt = idt_set_gate 13 (isr 13) KERNEL_CODE_SEG flags idt;
          idt = idt_set_gate 14 (isr 14) KERNEL_CODE_SEG flags idt;
          idt = idt_set_gate 15 (isr 15) KERNEL_CODE_SEG flags idt;
          idt = idt_set_gate 16 (isr 16) KERNEL_CODE_SEG flags idt;
          idt = idt_set_gate 17 (isr 17) KERNEL_CODE_SEG flags idt;
          idt = idt_set_gate 18 (isr 18) KERNEL_CODE_SEG flags idt;
          idt = idt_set_gate 19 (isr 19) KERNEL_CODE_SEG flags idt;
          idt = idt_set_gate 20 (isr 20) KERNEL_CODE_SEG flags idt;
          idt = idt_set_gate 21 (isr 21) KERNEL_CODE_SEG flags idt;
          idt = idt_set_gate 22 (isr 22) KERNEL_CODE_SEG flags idt;
          idt = idt_set_gate 23 (isr 23) KERNEL_CODE_SEG flags idt;
          idt = idt_set_gate 24 (isr 24) KERNEL_CODE_SEG flags idt;
          idt = idt_set_gate 25 (isr 25) KERNEL_CODE_SEG flags idt;
          idt = idt_set_gate 26 (isr 26) KERNEL_CODE_SEG flags idt;
          idt = idt_set_gate 27 (isr 27) KERNEL_CODE_SEG flags idt;
          idt = idt_set_gate 28 (isr 28) KERNEL_CODE_SEG flags idt;
          idt = idt_set_gate 29 (isr 29) KERNEL_CODE_SEG flags idt;
          idt = idt_set_gate 30 (isr 30) KERNEL_CODE_SEG flags idt;
          idt = idt_set_gate 31 (isr 31) KERNEL_CODE_SEG flags idt;
          idt = idt_set_gate 32 (irq 0) KERNEL_CODE_SEG flags idt;
          idt = idt_set_gate 33 (irq 1) KERNEL_CODE_SEG flags idt;
          idt = idt_set_gate 34 (irq 2) KERNEL_CODE_SEG flags idt;
          idt = idt_set_gate 35 (irq 3) KERNEL_CODE_SEG flags idt;
          idt = idt_set_gate 36 (irq 4) KERNEL_CODE_SEG flags idt;
          idt = idt_set_gate 37 (irq 5) KERNEL_CODE_SEG flags idt;
          idt = idt_set_gate 38 (irq 6) KERNEL_CODE_SEG flags idt;
          idt = idt_set_gate 39 (irq 7) KERNEL_CODE_SEG flags idt;
          idt = idt_set_gate 40 (irq 8) KERNEL_CODE_SEG flags idt;
          idt = idt_set_gate 41 (irq 9) KERNEL_CODE_SEG flags idt;
          idt = idt_set_gate 42 (irq 10) KERNEL_CODE_SEG flags idt;
          idt = idt_set_gate 43 (irq 11) KERNEL_CODE_SEG flags idt;
          idt = idt_set_gate 44 (irq 12) KERNEL_CODE_SEG flags idt;
          idt = idt_set_gate 45 (irq 13) KERNEL_CODE_SEG flags idt;
          idt = idt_set_gate 46 (irq 14) KERNEL_CODE_SEG flags idt;
          idt = idt_set_gate 47 (irq 15) KERNEL_CODE_SEG flags idt
      in (idt, idtp))"

definition gate_offset :: "idt_entry \<Rightarrow> u32" where
  "gate_offset e = ucast (offset_1 e) OR push_bit 16 (ucast (offset_2 e))"

section \<open>Reading descriptors back\<close>

lemma split16: "ucast (ucast (w AND 0xFFFF) :: u16) OR push_bit 16 (ucast (ucast (drop_bit 16 w AND 0xFFFF) :: u16)) = (w :: u32)"
proof (rule bit_word_eqI)
  fix n assume n: "n < LENGTH(32)"
  have m: "(0xFFFF :: u32) = mask 16" by (simp add: mask_eq_exp_minus_1)
  show "bit (ucast (ucast (w AND 0xFFFF) :: u16) OR push_bit 16 (ucast (ucast (drop_bit 16 w AND 0xFFFF) :: u16)) :: u32) n = bit w n"
    unfolding m using n by (cases "n < 16") (auto simp: bit_simps)
qed

lemma gate_offset_set:
  "unat num < length idt \<Longrightarrow> gate_offset (idt_set_gate num h sel fl idt ! unat num) = h"
  by (simp add: idt_set_gate_def gate_offset_def split16)

lemma desc_set_gate:
  assumes "num < length gdt"
  shows "desc_base (gdt_set_gate num base limit acc gran gdt ! num) = base"
    and "desc_limit (gdt_set_gate num base limit acc gran gdt ! num) = limit AND 0xFFFFF"
    and "desc_flags (gdt_set_gate num base limit acc gran gdt ! num) = gran AND 0xF0"
    and "access (gdt_set_gate num base limit acc gran gdt ! num) = acc"
proof -
  have m: "(0xFFFF :: u32) = mask 16" "(0xFF :: u32) = mask 8" "(0x0F :: u32) = mask 4" "(0xFFFFF :: u32) = mask 20"
    by (simp_all add: mask_eq_exp_minus_1)
  have f: "(0xF0 :: u8) = push_bit 4 (mask 4)" by (simp add: mask_eq_exp_minus_1)
  have "desc_base (gdt_set_gate num base limit acc gran gdt ! num) =
      ucast (ucast (base AND mask 16) :: u16) OR push_bit 16 (ucast (ucast (drop_bit 16 base AND mask 8) :: u8)) OR
      push_bit 24 (ucast (ucast (drop_bit 24 base AND mask 8) :: u8))"
    using assms by (simp add: gdt_set_gate_def desc_base_def m)
  also have "\<dots> = base"
  proof (rule bit_word_eqI)
    fix n assume "n < LENGTH(32)"
    then consider "n < 16" | "16 \<le> n" "n < 24" | "24 \<le> n" "n < 32" by fastforce
    then show "bit (ucast (ucast (base AND mask 16) :: u16) OR push_bit 16 (ucast (ucast (drop_bit 16 base AND mask 8) :: u8)) OR
      push_bit 24 (ucast (ucast (drop_bit 24 base AND mask 8) :: u8)) :: u32) n = bit base n"
      by cases (auto simp: bit_simps)
  qed
  finally show "desc_base (gdt_set_gate num base limit acc gran gdt ! num) = base" .
  have "desc_limit (gdt_set_gate num base limit acc gran gdt ! num) =
      ucast (ucast (limit AND mask 16) :: u16) OR
      push_bit 16 (ucast (ucast (drop_bit 16 limit AND mask 4) OR (gran AND push_bit 4 (mask 4)) :: u8) AND mask 4)"
    using assms by (simp add: gdt_set_gate_def desc_limit_def m f)
  also have "\<dots> = limit AND mask 20"
  proof (rule bit_word_eqI)
    fix n assume "n < LENGTH(32)"
    then consider "n < 16" | "16 \<le> n" "n < 20" | "20 \<le> n" "n < 32" by fastforce
    then show "bit (ucast (ucast (limit AND mask 16) :: u16) OR
      push_bit 16 (ucast (ucast (drop_bit 16 limit AND mask 4) OR (gran AND push_bit 4 (mask 4)) :: u8) AND mask 4) :: u32) n =
      bit (limit AND mask 20) n"
      by cases (auto simp: bit_simps)
  qed
  finally show "desc_limit (gdt_set_gate num base limit acc gran gdt ! num) = limit AND 0xFFFFF" by (simp add: m)
  have "desc_flags (gdt_set_gate num base limit acc gran gdt ! num) =
      (ucast (drop_bit 16 limit AND mask 4) OR (gran AND push_bit 4 (mask 4))) AND push_bit 4 (mask 4)"
    using assms by (simp add: gdt_set_gate_def desc_flags_def m f)
  also have "\<dots> = gran AND push_bit 4 (mask 4)"
    by (rule bit_word_eqI) (auto simp: bit_simps)
  finally show "desc_flags (gdt_set_gate num base limit acc gran gdt ! num) = gran AND 0xF0" by (simp add: f)
  show "access (gdt_set_gate num base limit acc gran gdt ! num) = acc"
    using assms by (simp add: gdt_set_gate_def)
qed

text \<open>Gates set in a row.\<close>

definition gate :: "u32 \<Rightarrow> u16 \<Rightarrow> u8 \<Rightarrow> idt_entry" where
  "gate h sel fl = \<lparr>offset_1 = ucast (h AND 0xFFFF), selector = sel, zero_byte = 0, type_attributes = fl,
     offset_2 = ucast (drop_bit 16 h AND 0xFFFF)\<rparr>"

lemma gate_offset_gate [simp]: "gate_offset (gate h sel fl) = h"
  by (simp add: gate_def gate_offset_def split16)

lemma gate_fields [simp]: "selector (gate h sel fl) = sel" "type_attributes (gate h sel fl) = fl" "zero_byte (gate h sel fl) = 0"
  by (simp_all add: gate_def)

lemma fold_set_gate:
  assumes "a + n \<le> 256" "length idt = 256" "j < 256"
  shows "fold (\<lambda>i. idt_set_gate (of_nat (a + i)) (f i) sel fl) [0..<n] idt ! j =
      (if a \<le> j \<and> j < a + n then gate (f (j - a)) sel fl else idt ! j) \<and>
    length (fold (\<lambda>i. idt_set_gate (of_nat (a + i)) (f i) sel fl) [0..<n] idt) = 256"
  using assms(1)
proof (induction n)
  case (Suc n)
  let ?l = "fold (\<lambda>i. idt_set_gate (of_nat (a + i)) (f i) sel fl) [0..<n] idt"
  have u: "unat (of_nat (a + n) :: u8) = a + n"
    using Suc.prems by (simp only: unat_of_nat) (simp add: take_bit_nat_eq_self)
  have "fold (\<lambda>i. idt_set_gate (of_nat (a + i)) (f i) sel fl) [0..<Suc n] idt = ?l[a + n := gate (f n) sel fl]"
    by (simp only: upt_Suc_append [OF le0] fold_append comp_apply fold.simps id_apply idt_set_gate_def u gate_def)
  then show ?case using Suc assms(2,3) by (auto simp: nth_list_update)
qed (use assms in auto)

text \<open>The 48 gates as two ranges.\<close>

lemma idt_init_ranges:
  "fst (idt_init addr isr irq idt) =
     fold (\<lambda>i. idt_set_gate (of_nat (32 + i)) (irq i) KERNEL_CODE_SEG 0x8E) [0..<16]
       (fold (\<lambda>i. idt_set_gate (of_nat (0 + i)) (isr i) KERNEL_CODE_SEG 0x8E) [0..<32]
         (fold (\<lambda>i. idt_set_gate (of_nat (0 + i)) ((\<lambda>_. 0) i) 0 0) [0..<256] idt))"
proof -
  have fl: "IDT_FLAG_PRESENT OR IDT_FLAG_RING0 OR IDT_FLAG_GATE_INT = (0x8E :: u8)" by simp
  have u32: "[0..<32] = [0, 1, 2, 3, 4, 5, 6, 7, 8, 9, 10, 11, 12, 13, 14, 15, 16, 17, 18, 19, 20, 21, 22, 23, 24, 25, 26, 27, 28, 29, 30, 31]"
    and u16: "[0..<16] = [0, 1, 2, 3, 4, 5, 6, 7, 8, 9, 10, 11, 12, 13, 14, 15]"
    by (simp_all add: upt_rec)
  have z: "fold (\<lambda>i. idt_set_gate (of_nat i) 0 0 0) [0..<IDT_ENTRIES] idt = fold (\<lambda>i. idt_set_gate (of_nat (0 + i)) ((\<lambda>_. 0) i) 0 0) [0..<256] idt"
    by (simp only: add_0)
  show ?thesis
    unfolding idt_init_def Let_def fst_conv fl z u32 u16 fold.simps comp_apply id_apply
    by simp
qed

lemma idt_init_nth:
  assumes "length idt = 256" "j < 256"
  shows "fst (idt_init addr isr irq idt) ! j =
      (if j < 32 then gate (isr j) KERNEL_CODE_SEG 0x8E
       else if j < 48 then gate (irq (j - 32)) KERNEL_CODE_SEG 0x8E
       else gate 0 0 0)"
proof -
  define i0 where "i0 = fold (\<lambda>i. idt_set_gate (of_nat (0 + i)) ((\<lambda>_. 0) i) 0 0) [0..<256] idt"
  define i1 where "i1 = fold (\<lambda>i. idt_set_gate (of_nat (0 + i)) (isr i) KERNEL_CODE_SEG 0x8E) [0..<32] i0"
  define i2 where "i2 = fold (\<lambda>i. idt_set_gate (of_nat (32 + i)) (irq i) KERNEL_CODE_SEG 0x8E) [0..<16] i1"
  have i2: "fst (idt_init addr isr irq idt) = i2" unfolding idt_init_ranges i0_def i1_def i2_def by (rule refl)
  have l0: "length i0 = 256 \<and> i0 ! j = gate 0 0 0"
    using fold_set_gate [of 0 256 idt j "\<lambda>_. 0" 0 0, folded i0_def] assms by simp
  then have l1: "length i1 = 256 \<and> i1 ! j = (if j < 32 then gate (isr j) KERNEL_CODE_SEG 0x8E else gate 0 0 0)"
    using fold_set_gate [of 0 32 i0 j isr KERNEL_CODE_SEG "0x8E", folded i1_def] assms by simp
  then show ?thesis
    using fold_set_gate [of 32 16 i1 j irq KERNEL_CODE_SEG "0x8E", folded i2_def] assms unfolding i2 by auto
qed

section \<open>Properties\<close>

text \<open>(C35) \<^verbatim>\<open>idt_init\<close> installs a present ring-0 32-bit interrupt gate (type 14, so interrupts are off in the handler) with the
  kernel code selector for every exception vector 0-31 and every interrupt vector 32-47, each leading to the stub of its number, leaves
  all other vectors not present, and loads a pointer to the whole table of 256 gates of 8 bytes.\<close>

theorem idt_init_gates:
  assumes "length idt = 256" "j < 256"
  shows "let (idt', idtp) = idt_init addr isr irq idt; g = idt' ! j
    in tp_base idtp = addr \<and> tp_limit idtp = 2047 \<and>
       (if j < 48 then gate_offset g = (if j < 32 then isr j else irq (j - 32)) \<and>
          selector g = KERNEL_CODE_SEG \<and> zero_byte g = 0 \<and>
          bit (type_attributes g) 7 \<and> drop_bit 5 (type_attributes g) AND 3 = 0 \<and> type_attributes g AND 0x1F = 0x0E
        else \<not> bit (type_attributes g) 7)"
proof -
  have "tp_base (snd (idt_init addr isr irq idt)) = addr" "tp_limit (snd (idt_init addr isr irq idt)) = 2047"
    unfolding idt_init_def Let_def by simp_all
  then show ?thesis
    unfolding case_prod_beta Let_def idt_init_nth [OF assms]
    by (cases "j < 32"; cases "j < 48") simp_all
qed

theorem idt_init_gates_witness:
  "let g = fst (idt_init 0 (\<lambda>i. 100 + of_nat i) (\<lambda>i. 200 + of_nat i) (replicate 256 (gate 0 0 0))) ! 33
   in gate_offset g = 201 \<and> type_attributes g AND 0x1F = 0x0E"
  using idt_init_gates [of "replicate 256 (gate 0 0 0)" 33 0 "\<lambda>i. 100 + of_nat i" "\<lambda>i. 200 + of_nat i"]
  by (simp add: Let_def case_prod_beta)

text \<open>(C34) The segments the processor sees after \<^verbatim>\<open>gdt_init\<close> and \<^verbatim>\<open>tss_init\<close>: the four selectors the kernel uses choose present flat
  32-bit segments of 4 GB, readable code and writable data, of privilege 0 for the kernel and 3 for user programs, equal to the
  privilege in the selector; entry 0 is not present, and entry 5 is an available task state segment of 104 bytes at the address of
  the structure, which holds the given stack.  The table pointer covers the six entries.\<close>

theorem gdt_flat_segments:
  assumes "length gdt = 6"
  shows "let (gdt1, gp) = gdt_init gdt_addr gdt;
             (tss, gdt2, gp2) = tss_init tss_addr gdt_addr ss0 esp gdt1
    in seg_of (selected GDT_KERNEL_CODE_SEG gdt2) = Some (flat 0 (Code True)) \<and> GDT_KERNEL_CODE_SEG AND 3 = 0 \<and>
       seg_of (selected GDT_KERNEL_DATA_SEG gdt2) = Some (flat 0 (Data True)) \<and> GDT_KERNEL_DATA_SEG AND 3 = 0 \<and>
       seg_of (selected GDT_USER_CODE_SEG gdt2) = Some (flat 3 (Code True)) \<and> GDT_USER_CODE_SEG AND 3 = 3 \<and>
       seg_of (selected GDT_USER_DATA_SEG gdt2) = Some (flat 3 (Data True)) \<and> GDT_USER_DATA_SEG AND 3 = 3 \<and>
       seg_of (gdt2 ! 0) = None \<and>
       seg_of (gdt2 ! 5) = Some \<lparr>seg_base = tss_addr, seg_bytes = 104, seg_dpl = 3, seg_32bit = False, seg_kind = System 9\<rparr> \<and>
       tss_ss0 tss = ss0 \<and> tss_esp0 tss = esp \<and> tp_base gp2 = gdt_addr \<and> tp_limit gp2 = 47 \<and> gp = gp2"
proof -
  have set_other: "i \<noteq> num \<Longrightarrow> gdt_set_gate num b l a g gs ! i = gs ! i"
    and len: "length (gdt_set_gate num b l a g gs) = length gs" for i num b l a g gs
    by (simp_all add: gdt_set_gate_def)
  show ?thesis
    using assms
    by (simp add: gdt_init_def tss_init_def gdt_reload_def gdt_set_gate_ext_def Let_def selected_def seg_of_def flat_def set_other len desc_set_gate)
qed

theorem gdt_flat_segments_witness:
  "let gdt2 = fst (snd (tss_init 0x9000 0x8000 0x10 0 (fst (gdt_init 0x8000
       (replicate 6 \<lparr>limit_low = 0, base_low = 0, base_middle = 0, access = 0, granularity = 0, base_high = 0\<rparr>)))))
   in seg_of (selected GDT_USER_CODE_SEG gdt2) = Some (flat 3 (Code True)) \<and>
      seg_of (gdt2 ! 5) = Some \<lparr>seg_base = 0x9000, seg_bytes = 104, seg_dpl = 3, seg_32bit = False, seg_kind = System 9\<rparr>"
  using gdt_flat_segments [of "replicate 6 \<lparr>limit_low = 0, base_low = 0, base_middle = 0, access = 0, granularity = 0, base_high = 0\<rparr>" "0x8000" "0x9000" "0x10" 0]
  by (simp add: Let_def split: prod.splits)

end
