(* ===== verification/Interrupts.thy ===== *)
theory Interrupts
  imports Descriptors Screen
begin

text \<open>
  Interrupt dispatch and the legacy devices behind it: \<^verbatim>\<open>kernel/arch/isr.c\<close>, \<^verbatim>\<open>irq.c\<close>,
  \<^verbatim>\<open>pic.c\<close>, \<^verbatim>\<open>pit.c\<close> and \<^verbatim>\<open>serial_init\<close> of \<^verbatim>\<open>drivers/serial.c\<close>.  The devices are
  hardware: a driver function is the list of port accesses it makes (\<^verbatim>\<open>drivers/ports.c\<close>), and a value it
  reads from a port is given by the argument \<open>inb\<close>.  A registered handler is the name of the C function.
\<close>

section \<open>Port accesses\<close>

datatype port_op = Out_byte u16 u8

definition io_wait :: port_op where
  "io_wait = Out_byte 0x80 0"

section \<open>Exceptions\<close>

datatype isr_fn = Page_fault_handler | Gpf_handler | Timer_handler | Keyboard_handler

type_synonym handlers = "isr_fn option list"

record registers_t =
  ds :: u32
  edi :: u32
  esi :: u32
  ebp :: u32
  esp :: u32
  ebx :: u32
  edx :: u32
  ecx :: u32
  eax :: u32
  int_no :: u32
  err_code :: u32
  eip :: u32
  cs :: u32
  eflags :: u32
  useresp :: u32
  ss :: u32

definition exception_messages :: "string list" where
  "exception_messages =
    [''Division By Zero'', ''Debug'', ''Non Maskable Interrupt'',
     ''Breakpoint'', ''Overflow'', ''Bound Range Exceeded'',
     ''Invalid Opcode'', ''Device Not Available'', ''Double Fault'',
     ''Coprocessor Segment Overrun'', ''Invalid TSS'', ''Segment Not Present'',
     ''Stack-Segment Fault'', ''General Protection Fault'', ''Page Fault'',
     ''Reserved'', ''x87 Floating-Point Exception'', ''Alignment Check'',
     ''Machine Check'', ''SIMD Floating-Point Exception'', ''Virtualization Exception'',
     ''Control Protection Exception'', ''Reserved'', ''Reserved'',
     ''Reserved'', ''Reserved'', ''Reserved'',
     ''Reserved'', ''Reserved'', ''VMM Communication Exception'',
     ''Security Exception'', ''Reserved'']"

definition register_interrupt_handler :: "u8 \<Rightarrow> isr_fn \<Rightarrow> handlers \<Rightarrow> handlers" where
  "register_interrupt_handler n handler interrupt_handlers = interrupt_handlers[unat n := Some handler]"

text \<open>\<^verbatim>\<open>isr_handler\<close> either calls the registered handler or prints its report and halts for good.\<close>

datatype isr_outcome = Dispatch isr_fn | Halted string

definition isr_report :: "registers_t \<Rightarrow> string" where
  "isr_report regs =
     [CHR 0x0A] @ ''========== CPU EXCEPTION =========='' @ [CHR 0x0A] @ ''Exception: '' @
     (if int_no regs < 32 then exception_messages ! unat (int_no regs) else []) @
     '' ('' @ hex_str (int_no regs) @ '')'' @ [CHR 0x0A] @
     ''Error Code: '' @ hex_str (err_code regs) @ [CHR 0x0A] @
     ''EIP: '' @ hex_str (eip regs) @ ''  CS: '' @ hex_str (cs regs) @ [CHR 0x0A] @
     ''EFLAGS: '' @ hex_str (eflags regs) @ [CHR 0x0A] @
     ''EAX: '' @ hex_str (eax regs) @ ''  EBX: '' @ hex_str (ebx regs) @ [CHR 0x0A] @
     ''ECX: '' @ hex_str (ecx regs) @ ''  EDX: '' @ hex_str (edx regs) @ [CHR 0x0A] @
     ''ESP: '' @ hex_str (esp regs) @ ''  EBP: '' @ hex_str (ebp regs) @ [CHR 0x0A] @
     ''ESI: '' @ hex_str (esi regs) @ ''  EDI: '' @ hex_str (edi regs) @ [CHR 0x0A] @
     ''DS: '' @ hex_str (ds regs) @ [CHR 0x0A] @
     ''===================================='' @ [CHR 0x0A] @ ''System Halted.'' @ [CHR 0x0A]"

definition isr_handler :: "handlers \<Rightarrow> registers_t \<Rightarrow> isr_outcome" where
  "isr_handler interrupt_handlers regs =
     (case interrupt_handlers ! unat (int_no regs) of
        Some h \<Rightarrow> Dispatch h
      | None \<Rightarrow> Halted (isr_report regs))"

section \<open>The interrupt controller\<close>

abbreviation PIC1_COMMAND :: u16 where "PIC1_COMMAND \<equiv> 0x20"
abbreviation PIC1_DATA :: u16 where "PIC1_DATA \<equiv> 0x21"
abbreviation PIC2_COMMAND :: u16 where "PIC2_COMMAND \<equiv> 0xA0"
abbreviation PIC2_DATA :: u16 where "PIC2_DATA \<equiv> 0xA1"
abbreviation PIC_EOI :: u8 where "PIC_EOI \<equiv> 0x20"
abbreviation ICW1_INIT :: u8 where "ICW1_INIT \<equiv> 0x10"
abbreviation ICW1_ICW4 :: u8 where "ICW1_ICW4 \<equiv> 0x01"
abbreviation ICW4_8086 :: u8 where "ICW4_8086 \<equiv> 0x01"

text \<open>The two mask reads at the start of \<^verbatim>\<open>pic_remap\<close> are not used afterwards.\<close>

definition pic_remap :: "u8 \<Rightarrow> u8 \<Rightarrow> port_op list" where
  "pic_remap offset1 offset2 =
     [Out_byte PIC1_COMMAND (ICW1_INIT OR ICW1_ICW4), io_wait,
      Out_byte PIC2_COMMAND (ICW1_INIT OR ICW1_ICW4), io_wait,
      Out_byte PIC1_DATA offset1, io_wait,
      Out_byte PIC2_DATA offset2, io_wait,
      Out_byte PIC1_DATA 0x04, io_wait,
      Out_byte PIC2_DATA 0x02, io_wait,
      Out_byte PIC1_DATA ICW4_8086, io_wait,
      Out_byte PIC2_DATA ICW4_8086, io_wait,
      Out_byte PIC1_DATA 0x00,
      Out_byte PIC2_DATA 0x00]"

definition pic_send_eoi :: "u8 \<Rightarrow> port_op list" where
  "pic_send_eoi irq =
     (if 8 \<le> irq then [Out_byte PIC2_COMMAND PIC_EOI] else []) @ [Out_byte PIC1_COMMAND PIC_EOI]"

definition irq_clear_mask :: "(u16 \<Rightarrow> u8) \<Rightarrow> u8 \<Rightarrow> port_op list" where
  "irq_clear_mask inb irq =
     (let (port, irq) = (if irq < 8 then (PIC1_DATA, irq) else (PIC2_DATA, irq - 8));
          v = inb port AND NOT (push_bit (unat irq) 1)
      in [Out_byte port v, Out_byte 0xE9 (of_char (CHR ''U'')), Out_byte 0xE9 (of_char (CHR ''0'') + irq)])"

definition irq_set_mask :: "(u16 \<Rightarrow> u8) \<Rightarrow> u8 \<Rightarrow> port_op list" where
  "irq_set_mask inb irq =
     (let (port, irq) = (if irq < 8 then (PIC1_DATA, irq) else (PIC2_DATA, irq - 8));
          v = inb port OR push_bit (unat irq) 1
      in [Out_byte port v])"

text \<open>\<^verbatim>\<open>irq_handler\<close>: the end-of-interrupt first, then the registered handler.\<close>

definition irq_handler :: "handlers \<Rightarrow> registers_t \<Rightarrow> port_op list \<times> isr_fn option" where
  "irq_handler interrupt_handlers regs =
     (let irq = ucast (int_no regs - 32)
      in (pic_send_eoi irq, interrupt_handlers ! unat (int_no regs)))"

section \<open>The interval timer and the serial port\<close>

text \<open>\<^verbatim>\<open>pit_init\<close>; a frequency of 0 divides by zero, which traps.\<close>

definition pit_divisor :: "u32 \<Rightarrow> u32 option" where
  "pit_divisor frequency =
     (if frequency = 0 then None
      else let divisor = 1193182 div frequency;
               divisor = (if 0xFFFF < divisor then 0xFFFF else divisor);
               divisor = (if divisor < 1 then 1 else divisor)
           in Some divisor)"

definition pit_init :: "u32 \<Rightarrow> port_op list option" where
  "pit_init frequency =
     (case pit_divisor frequency of
        None \<Rightarrow> None
      | Some divisor \<Rightarrow>
          let command = 0x00 OR 0x30 OR 0x06 OR 0x00
          in Some [Out_byte 0x43 command, Out_byte 0x40 (ucast (divisor AND 0xFF)),
                   Out_byte 0x40 (ucast (drop_bit 8 divisor AND 0xFF))])"

definition serial_init :: "port_op list" where
  "serial_init =
     [Out_byte (0x3F8 + 1) 0x00, Out_byte (0x3F8 + 3) 0x80, Out_byte (0x3F8 + 0) 0x03, Out_byte (0x3F8 + 1) 0x00,
      Out_byte (0x3F8 + 3) 0x03, Out_byte (0x3F8 + 2) 0xC7, Out_byte (0x3F8 + 4) 0x0B]"

section \<open>Properties\<close>

lemma unat_sub_8: "8 \<le> irq \<Longrightarrow> unat (irq - 8 :: u8) = unat irq - 8"
  by (simp add: unat_sub word_le_nat_alt)

text \<open>\<^verbatim>\<open>irq_set_mask\<close> and \<^verbatim>\<open>irq_clear_mask\<close> write to the data port of the controller that owns the
  line, and change exactly the bit of that line in the mask read from it.\<close>

lemma irq_mask_exact:
  assumes "irq < 16"
  defines "port \<equiv> if irq < 8 then PIC1_DATA else PIC2_DATA"
  shows "\<exists>v w dbg. irq_set_mask inb irq = [Out_byte port v] \<and> irq_clear_mask inb irq = Out_byte port w # dbg \<and>
    (\<forall>b < 8. bit v b \<longleftrightarrow> bit (inb port) b \<or> b = unat irq mod 8) \<and>
    (\<forall>b < 8. bit w b \<longleftrightarrow> bit (inb port) b \<and> b \<noteq> unat irq mod 8)"
proof -
  define k where "k = (if irq < 8 then irq else irq - 8)"
  have lt: "irq < 8 \<longleftrightarrow> unat irq < 8" "unat irq < 16" using assms(1) by (simp_all add: word_less_nat_alt)
  have k: "unat k = unat irq mod 8"
  proof (cases "irq < 8")
    case True
    then show ?thesis using lt by (simp add: k_def)
  next
    case False
    then show ?thesis using lt unat_sub_8 [of irq] by (simp add: k_def mod_if)
  qed
  have "irq_set_mask inb irq = [Out_byte port (inb port OR push_bit (unat k) 1)]"
    "irq_clear_mask inb irq = Out_byte port (inb port AND NOT (push_bit (unat k) 1)) #
       [Out_byte 0xE9 (of_char (CHR ''U'')), Out_byte 0xE9 (of_char (CHR ''0'') + k)]"
    by (simp_all add: irq_set_mask_def irq_clear_mask_def port_def k_def)
  moreover have "bit (inb port OR push_bit (unat k) 1) b \<longleftrightarrow> bit (inb port) b \<or> b = unat irq mod 8"
    "bit (inb port AND NOT (push_bit (unat k) 1)) b \<longleftrightarrow> bit (inb port) b \<and> b \<noteq> unat irq mod 8" if "b < 8" for b
    using that k by (auto simp: bit_simps)
  ultimately show ?thesis by blast
qed

text \<open>The divisor as a number: the quotient, kept within 1 and 65535.\<close>

definition pit_quotient :: "nat \<Rightarrow> nat" where
  "pit_quotient f = max 1 (min 65535 (1193182 div f))"

lemma pit_divisor_quotient: "frequency \<noteq> 0 \<Longrightarrow> pit_divisor frequency = Some (of_nat (pit_quotient (unat frequency)))"
proof -
  assume nz: "frequency \<noteq> 0"
  define q where "q = 1193182 div unat frequency"
  have q: "q \<le> 1193182" using div_le_dividend [of 1193182 "unat frequency"] by (simp add: q_def)
  have "unat (1193182 div frequency) = q" by (simp add: q_def unat_div_distrib)
  then have wq: "1193182 div frequency = of_nat q" by (metis u32_of_unat)
  have "(0xFFFF :: u32) < of_nat q \<longleftrightarrow> 65535 < q" "of_nat q < (1 :: u32) \<longleftrightarrow> q < 1"
    using q by (simp_all add: u32_lt_iff_unat unat_of_nat_u32 del: unat_eq_0)
  then show ?thesis using nz by (auto simp: pit_divisor_def wq pit_quotient_def q_def [symmetric] Let_def max_def min_def)
qed

lemma pit_bytes:
  assumes "d \<le> 65535"
  shows "ucast (of_nat d AND 0xFF :: u32) = (of_nat (d mod 256) :: u8)"
    and "ucast (drop_bit 8 (of_nat d :: u32) AND 0xFF) = (of_nat (d div 256) :: u8)"
proof -
  have u: "unat (of_nat d :: u32) = d" using assms by (intro unat_of_nat_u32) simp
  have "unat (ucast (of_nat d AND 0xFF :: u32) :: u8) = d mod 256"
    by (simp only: unat_ucast_u8 unat_and_255 u mod_mod_trivial)
  moreover have "unat (of_nat (d mod 256) :: u8) = d mod 256"
    by (simp only: unat_of_nat) (simp add: take_bit_eq_mod)
  ultimately show "ucast (of_nat d AND 0xFF :: u32) = (of_nat (d mod 256) :: u8)"
    by (simp only: word_unat_eq_iff)
  have small: "d div 256 < 256" using assms by simp
  have "unat (ucast (drop_bit 8 (of_nat d :: u32) AND 0xFF) :: u8) = d div 256"
    using small by (simp only: unat_ucast_u8 unat_and_255 unat_drop_bit_u32 u) simp
  moreover have "unat (of_nat (d div 256) :: u8) = d div 256"
    using small by (simp only: unat_of_nat) (simp add: take_bit_eq_mod)
  ultimately show "ucast (drop_bit 8 (of_nat d :: u32) AND 0xFF) = (of_nat (d div 256) :: u8)"
    by (simp only: word_unat_eq_iff)
qed

text \<open>(C36) \<^verbatim>\<open>pit_init\<close> fails for frequency 0 only, where it divides by zero.  For every other frequency it selects channel 0, low byte then
  high byte, square wave, binary, and sends the two bytes of a 16-bit divisor: the exact quotient from 19 Hz to the base frequency,
  65535 below that and 1 above.\<close>

theorem pit_init_divisor:
  "if frequency = 0 then pit_init frequency = None
   else \<exists>d. pit_init frequency = Some [Out_byte 0x43 0x36, Out_byte 0x40 (of_nat (d mod 256)), Out_byte 0x40 (of_nat (d div 256))] \<and>
     d \<le> 65535 \<and>
     (if unat frequency < 19 then d = 65535
      else if 1193182 < unat frequency then d = 1
      else d * unat frequency \<le> 1193182 \<and> 1193182 < (d + 1) * unat frequency)"
proof (cases "frequency = 0")
  case False
  define f d where "f = unat frequency" and "d = pit_quotient f"
  have f: "0 < f" using False by (simp add: f_def unat_gt_0)
  have d: "d \<le> 65535" by (simp add: d_def pit_quotient_def)
  have "pit_init frequency = Some [Out_byte 0x43 0x36, Out_byte 0x40 (of_nat (d mod 256)), Out_byte 0x40 (of_nat (d div 256))]"
    by (simp add: pit_init_def pit_divisor_quotient [OF False] f_def [symmetric] d_def [symmetric] pit_bytes [OF d])
  moreover have "d = 65535" if "f < 19"
  proof -
    have "1193182 div 18 \<le> 1193182 div f" by (rule div_le_mono2) (use f that in simp_all)
    then show ?thesis by (simp add: d_def pit_quotient_def)
  qed
  moreover have "d = 1" if "1193182 < f" using that by (simp add: d_def pit_quotient_def)
  moreover have "d * f \<le> 1193182 \<and> 1193182 < (d + 1) * f" if "19 \<le> f" "f \<le> 1193182"
  proof -
    define q where "q = 1193182 div f"
    have "q \<le> 1193182 div 19" unfolding q_def by (rule div_le_mono2) (use that in simp_all)
    moreover have "1 \<le> q" using that f by (simp add: q_def less_eq_div_iff_mult_less_eq)
    ultimately have "d = q" by (simp add: d_def pit_quotient_def q_def [symmetric])
    moreover have "q * f + 1193182 mod f = 1193182" "1193182 mod f < f"
      using f div_mult_mod_eq [of 1193182 f] by (simp_all only: q_def mod_less_divisor)
    ultimately show ?thesis by (simp only: add_mult_distrib nat_mult_1) linarith
  qed
  ultimately show ?thesis using False d unfolding f_def [symmetric] by (intro if_not_P [THEN iffD2] exI [of _ d]) auto
qed (simp add: pit_init_def pit_divisor_def)

theorem pit_init_divisor_witness:
  "pit_init 100 = Some [Out_byte 0x43 0x36, Out_byte 0x40 0x9B, Out_byte 0x40 0x2E] \<and> pit_init 0 = None"
proof -
  obtain d where d: "pit_init 100 = Some [Out_byte 0x43 0x36, Out_byte 0x40 (of_nat (d mod 256)), Out_byte 0x40 (of_nat (d div 256))]"
    "d * 100 \<le> 1193182" "1193182 < (d + 1) * 100"
    using pit_init_divisor [of 100] by auto
  from d(2,3) have "d = 11931" by presburger
  with d(1) have "pit_init 100 = Some [Out_byte 0x43 0x36, Out_byte 0x40 0x9B, Out_byte 0x40 0x2E]" by simp
  then show ?thesis using pit_init_divisor [of 0] by simp
qed

end
