(* ===== verification/Phys_Mem.thy ===== *)
theory Phys_Mem
  imports ApPa_Prelude
begin

text \<open>
  Physical memory as the kernel sees it under its identity mapping: a store of bytes.  32-bit
  accesses are little-endian; \<^verbatim>\<open>memset\<close> and \<^verbatim>\<open>memcpy\<close> of \<^verbatim>\<open>klibc/string.c\<close> are the byte
  loops of the source.  Page tables, page directories, user pages and stacks all live here; the lemmas
  on page entries let the paging proofs treat a page as an array of 1024 words.
\<close>

type_synonym pmem = "u32 \<Rightarrow> u8"

section \<open>Access\<close>

definition read32 :: "pmem \<Rightarrow> u32 \<Rightarrow> u32" where
  "read32 m a = ucast (m a) OR push_bit 8 (ucast (m (a + 1))) OR
     push_bit 16 (ucast (m (a + 2))) OR push_bit 24 (ucast (m (a + 3)))"

definition write32 :: "u32 \<Rightarrow> u32 \<Rightarrow> pmem \<Rightarrow> pmem" where
  "write32 a v m = m(a := ucast v, a + 1 := ucast (drop_bit 8 v),
     a + 2 := ucast (drop_bit 16 v), a + 3 := ucast (drop_bit 24 v))"

definition memset :: "u32 \<Rightarrow> u8 \<Rightarrow> u32 \<Rightarrow> pmem \<Rightarrow> pmem" where
  "memset ptr b num m = fold (\<lambda>i m. m(ptr + of_nat i := b)) [0..<unat num] m"

definition memcpy :: "u32 \<Rightarrow> u32 \<Rightarrow> u32 \<Rightarrow> pmem \<Rightarrow> pmem" where
  "memcpy dest src num m = fold (\<lambda>i m. m(dest + of_nat i := m (src + of_nat i))) [0..<unat num] m"

section \<open>Words in memory\<close>

lemma read32_write32_same: "read32 (write32 a v m) a = v"
proof -
  let ?w = "ucast (ucast v :: u8) OR push_bit 8 (ucast (ucast (drop_bit 8 v) :: u8)) OR
     push_bit 16 (ucast (ucast (drop_bit 16 v) :: u8)) OR push_bit 24 (ucast (ucast (drop_bit 24 v) :: u8)) :: u32"
  have "read32 (write32 a v m) a = ?w"
    by (simp add: read32_def write32_def)
  also have "\<dots> = v"
  proof (rule bit_word_eqI)
    fix n assume "n < LENGTH(32)"
    then consider "n < 8" | "8 \<le> n" "n < 16" | "16 \<le> n" "n < 24" | "24 \<le> n" "n < 32" by fastforce
    then show "bit ?w n = bit v n" by cases (auto simp: bit_simps)
  qed
  finally show ?thesis .
qed

text \<open>Writing back the word that is there changes nothing.\<close>

lemma write32_read32: "write32 a (read32 m a) m = m"
proof -
  have byte: "ucast (drop_bit (8 * k) (read32 m a)) = m (a + of_nat k)" if "k < 4" for k
  proof (rule bit_word_eqI)
    fix n assume n: "n < LENGTH(8)"
    have b: "bit (m x) j \<Longrightarrow> j < 8" for x j using bit_imp_le_length [of "m x" j] by simp
    from that consider "k = 0" | "k = 1" | "k = 2" | "k = 3" by fastforce
    then show "bit (ucast (drop_bit (8 * k) (read32 m a)) :: u8) n = bit (m (a + of_nat k)) n"
      by cases (use n in \<open>auto simp: read32_def bit_simps dest: b\<close>)
  qed
  show ?thesis
    using byte [of 0] byte [of 1] byte [of 2] byte [of 3] by (simp add: write32_def)
qed

lemma unat_plus_small:
  assumes "unat (a :: u32) mod 4 = 0" "k < 4"
  shows "unat (a + of_nat k) = unat a + k"
proof -
  have "unat a \<le> 4294967292" using assms(1) unat_less_2p32 [of a] by presburger
  then show ?thesis using assms(2) by (subst unat_add_u32) (simp_all add: unat_of_nat_u32)
qed

lemma aligned_distinct:
  assumes "unat (a :: u32) mod 4 = 0" "unat b mod 4 = 0" "a \<noteq> b" "j < 4" "k < 4"
  shows "a + of_nat j \<noteq> b + of_nat k"
proof
  assume "a + of_nat j = b + of_nat k"
  then have "unat a + j = unat b + k" using unat_plus_small assms(1,2,4,5) by metis
  then have "unat a = unat b" using assms(1,2,4,5) by presburger
  with assms(3) show False by (simp add: u32_eq_iff_unat)
qed

lemma read32_write32_other:
  assumes "unat a mod 4 = 0" "unat b mod 4 = 0" "a \<noteq> b"
  shows "read32 (write32 a v m) b = read32 m b"
proof -
  note d = aligned_distinct [OF assms]
  have "write32 a v m (b + of_nat k) = m (b + of_nat k)" if "k < 4" for k
    using d [of 0 k] d [of 1 k] d [of 2 k] d [of 3 k] that by (simp add: write32_def)
  from this [of 0] this [of 1] this [of 2] this [of 3] show ?thesis by (simp add: read32_def)
qed

lemma read32_cong:
  assumes "\<And>k. k < 4 \<Longrightarrow> m (a + of_nat k) = m' (b + of_nat k)"
  shows "read32 m a = read32 m' b"
  using assms [of 0] assms [of 1] assms [of 2] assms [of 3] by (simp add: read32_def)

section \<open>Bulk operations\<close>

lemma offset_inj:
  assumes "i < 4294967296" "j < 4294967296"
  shows "p + of_nat i = p + (of_nat j :: u32) \<longleftrightarrow> i = j"
  using of_nat_u32_eq_iff [OF assms] by simp

lemma offset_diff: "x = p + of_nat (unat (x - p :: u32))"
  by simp

lemma fold_write_apply:
  "n \<le> 4294967296 \<Longrightarrow>
   fold (\<lambda>i m. m(p + of_nat i := f i)) [0..<n] m x = (if unat (x - p :: u32) < n then f (unat (x - p)) else m x)"
proof (induction n)
  case (Suc n)
  have "x = p + of_nat n \<longleftrightarrow> unat (x - p) = n"
    using Suc.prems offset_inj [of "unat (x - p)" n p] offset_diff [of x p] by auto
  with Suc show ?case by auto
qed simp

lemma memset_apply: "memset p b n m x = (if unat (x - p) < unat n then b else m x)"
  unfolding memset_def by (subst fold_write_apply) (simp_all add: less_imp_le)

text \<open>Copying between regions that do not overlap.\<close>

lemma memcpy_apply:
  assumes "\<And>i j. i < unat n \<Longrightarrow> j < unat n \<Longrightarrow> d + of_nat i \<noteq> s + of_nat j"
  shows "memcpy d s n m x = (if unat (x - d) < unat n then m (s + (x - d)) else m x)"
proof -
  have "fold (\<lambda>i m. m(d + of_nat i := m (s + of_nat i))) [0..<k] m x =
      fold (\<lambda>i m'. m'(d + of_nat i := m (s + of_nat i))) [0..<k] m x" if "k \<le> unat n" for k x
    using that
  proof (induction k arbitrary: x)
    case (Suc k)
    have k: "k \<le> unat n" "k \<le> 4294967296"
      using Suc.prems less_imp_le [OF unat_less_2p32, of n] by linarith+
    have IH: "fold (\<lambda>i m. m(d + of_nat i := m (s + of_nat i))) [0..<k] m =
        fold (\<lambda>i m'. m'(d + of_nat i := m (s + of_nat i))) [0..<k] m"
      using Suc.IH k(1) by blast
    have "\<not> unat (s + of_nat k - d) < k"
    proof
      assume "unat (s + of_nat k - d) < k"
      then have "d + of_nat (unat (s + of_nat k - d)) \<noteq> s + of_nat k"
        using Suc.prems by (intro assms) simp_all
      then show False by simp
    qed
    then have "fold (\<lambda>i m'. m'(d + of_nat i := m (s + of_nat i))) [0..<k] m (s + of_nat k) = m (s + of_nat k)"
      unfolding fold_write_apply [OF k(2)] by (rule if_not_P)
    then show ?case by (simp del: fun_upd_apply add: IH)
  qed simp
  then have "memcpy d s n m x = fold (\<lambda>i m'. m'(d + of_nat i := m (s + of_nat i))) [0..<unat n] m x"
    by (simp add: memcpy_def)
  also have "\<dots> = (if unat (x - d) < unat n then m (s + (x - d)) else m x)"
    by (subst fold_write_apply) (simp_all add: less_imp_le)
  finally show ?thesis .
qed

section \<open>Pages as arrays of entries\<close>

text \<open>\<^verbatim>\<open>entries[i]\<close> of a page table or page directory at address \<open>t\<close>.\<close>

definition entry :: "pmem \<Rightarrow> u32 \<Rightarrow> nat \<Rightarrow> u32" where
  "entry m t i = read32 m (t + of_nat (4 * i))"

definition set_entry :: "u32 \<Rightarrow> nat \<Rightarrow> u32 \<Rightarrow> pmem \<Rightarrow> pmem" where
  "set_entry t i v m = write32 (t + of_nat (4 * i)) v m"

definition page_aligned :: "u32 \<Rightarrow> bool" where
  "page_aligned t \<longleftrightarrow> unat t mod 4096 = 0"

lemma aligned_offset_eq:
  fixes a b :: nat
  assumes "a mod n = 0" "b mod n = 0" "i < n" "j < n" "a + i = b + j"
  shows "a = b \<and> i = j"
proof -
  have "(a + i) mod n = i" "(b + j) mod n = j"
    using assms(1-4) mod_add_left_eq [of a n i] mod_add_left_eq [of b n j] by simp_all
  then show ?thesis using assms(5) by simp
qed

lemma unat_plus_page:
  assumes "page_aligned t" "j < 4096"
  shows "unat (t + of_nat j) = unat t + j"
proof -
  obtain k where k: "unat t = 4096 * k" using assms(1) by (auto simp: page_aligned_def elim: dvdE)
  have "k < 1048576" using unat_less_2p32 [of t] unfolding k by simp
  then have "unat t + j < 4294967296" using assms(2) unfolding k by linarith
  then show ?thesis using assms(2) by (subst unat_add_u32) (simp_all add: unat_of_nat_u32)
qed

lemma in_page_iff:
  assumes "page_aligned t" "page_aligned t'" "j < 4096"
  shows "unat (t' + of_nat j - t) < 4096 \<longleftrightarrow> t' = t"
proof
  assume d: "unat (t' + of_nat j - t) < 4096"
  have "t' + of_nat j = t + of_nat (unat (t' + of_nat j - t))" by simp
  then have "unat t' + j = unat t + unat (t' + of_nat j - t)"
    using unat_plus_page [OF assms(2,3)] unat_plus_page [OF assms(1) d] by argo
  then have "unat t' = unat t"
    using aligned_offset_eq [OF assms(2,1) [unfolded page_aligned_def] assms(3) d] by blast
  then show "t' = t" by (simp add: u32_eq_iff_unat)
next
  assume "t' = t"
  then show "unat (t' + of_nat j - t) < 4096" using assms(3) by (simp add: unat_of_nat_u32)
qed

lemma page_offset_eq_iff:
  assumes "page_aligned t" "page_aligned t'" "i < 4096" "j < 4096"
  shows "t + of_nat i = t' + of_nat j \<longleftrightarrow> t = t' \<and> i = j"
proof
  assume "t + of_nat i = t' + of_nat j"
  then have e: "unat t + i = unat t' + j"
    using unat_plus_page [OF assms(1,3)] unat_plus_page [OF assms(2,4)] by simp
  from aligned_offset_eq [OF assms(1,2) [unfolded page_aligned_def] assms(3,4) e]
  show "t = t' \<and> i = j" by (simp add: u32_eq_iff_unat)
qed simp

lemma entry_aligned:
  assumes "page_aligned t" "i < 1024"
  shows "unat (t + of_nat (4 * i)) mod 4 = 0"
proof -
  obtain k where k: "unat t = 4096 * k" using assms(1) by (auto simp: page_aligned_def elim: dvdE)
  have "unat (t + of_nat (4 * i)) = 4 * (1024 * k + i)"
    using unat_plus_page [OF assms(1), of "4 * i"] assms(2) unfolding k by simp
  then show ?thesis by simp
qed

lemma entry_set_entry:
  assumes "page_aligned t" "page_aligned t'" "i < 1024" "j < 1024"
  shows "entry (set_entry t i v m) t' j = (if t = t' \<and> i = j then v else entry m t' j)"
proof (cases "t = t' \<and> i = j")
  case True
  then show ?thesis by (simp only: entry_def set_entry_def read32_write32_same simp_thms if_True)
next
  case False
  then have "t + of_nat (4 * i) \<noteq> t' + of_nat (4 * j)"
    using page_offset_eq_iff [OF assms(1,2), of "4 * i" "4 * j"] assms(3,4) by simp
  then show ?thesis
    using read32_write32_other entry_aligned [OF assms(1,3)] entry_aligned [OF assms(2,4)]
    unfolding entry_def set_entry_def by (simp only: if_not_P [OF False])
qed

lemma set_entry_same: "set_entry t i (entry m t i) m = m"
  by (simp only: set_entry_def entry_def write32_read32)

lemma entry_cong:
  assumes "\<And>j. j < 4096 \<Longrightarrow> m (t + of_nat j) = m' (t' + of_nat j)" "i < 1024"
  shows "entry m t i = entry m' t' i"
  unfolding entry_def
proof (rule read32_cong)
  fix k :: nat assume "k < 4"
  then have "4 * i + k < 4096" using assms(2) by simp
  from assms(1) [OF this] show "m (t + of_nat (4 * i) + of_nat k) = m' (t' + of_nat (4 * i) + of_nat k)"
    by (simp add: add.assoc)
qed

lemma read32_zero: "(\<And>k. k < 4 \<Longrightarrow> m (a + of_nat k) = 0) \<Longrightarrow> read32 m a = 0"
  using read32_cong [of m a "\<lambda>_. 0" 0] by (simp add: read32_def)

lemma entry_memset_page:
  assumes "page_aligned t" "page_aligned t'" "i < 1024"
  shows "entry (memset t 0 4096 m) t' i = (if t' = t then 0 else entry m t' i)"
proof (cases "t' = t")
  case True
  have "memset t 0 4096 m (t + of_nat j) = 0" if "j < 4096" for j
    using in_page_iff [OF assms(1,1) that] by (simp add: memset_apply)
  then have "entry (memset t 0 4096 m) t i = entry (\<lambda>_. 0) t i" using assms(3) by (intro entry_cong) simp_all
  then show ?thesis using True by (simp add: entry_def read32_def)
next
  case False
  have "memset t 0 4096 m (t' + of_nat j) = m (t' + of_nat j)" if "j < 4096" for j
    using in_page_iff [OF assms(1,2) that] False by (simp add: memset_apply)
  then show ?thesis using assms(3) False entry_cong [of "memset t 0 4096 m" t' m t' i] by simp
qed

lemma entry_memcpy_page:
  assumes "page_aligned d" "page_aligned s" "page_aligned t" "d \<noteq> s" "i < 1024"
  shows "entry (memcpy d s 4096 m) t i = (if t = d then entry m s i else entry m t i)"
proof -
  have cpy: "memcpy d s 4096 m x = (if unat (x - d) < 4096 then m (s + (x - d)) else m x)" for x
    using memcpy_apply [of 4096 d s m x] page_offset_eq_iff [OF assms(1,2)] assms(4) by simp
  show ?thesis
  proof (cases "t = d")
    case True
    have "memcpy d s 4096 m (d + of_nat j) = m (s + of_nat j)" if "j < 4096" for j
      using in_page_iff [OF assms(1,1) that] by (simp add: cpy)
    then show ?thesis using True assms(5) entry_cong [of "memcpy d s 4096 m" d m s i] by simp
  next
    case False
    have "memcpy d s 4096 m (t + of_nat j) = m (t + of_nat j)" if "j < 4096" for j
      using in_page_iff [OF assms(1,3) that] False by (simp add: cpy)
    then show ?thesis using False assms(5) entry_cong [of "memcpy d s 4096 m" t m t i] by simp
  qed
qed

lemmas entry_simps = entry_set_entry entry_memset_page entry_memcpy_page

end
