(* ===== verification/Paging.thy ===== *)
theory Paging
  imports Pmm Phys_Mem Interrupts Klibc_String
begin

text \<open>
  The virtual memory manager of \<^verbatim>\<open>kernel/mem/paging.c\<close>.  Page directories and page tables live in
  physical memory; the kernel reaches them at their physical addresses because the first 16 MB are
  identity mapped, which is what \<open>paging_init_identity\<close> establishes.  The state holds the physical memory
  manager, memory, the globals of the file, the control registers, the table of interrupt handlers and the text
  printed.  The translation cache of the processor (\<^verbatim>\<open>invlpg\<close>, reload of CR3) is not part of the state.
  \<open>walk\<close> is the translation the processor performs.
\<close>

section \<open>State\<close>

record vm =
  frames :: pmm_t
  mem :: pmem
  kernel_directory :: u32
  pd_tables :: "u32 list"
  pd_physical_address :: u32
  cr3 :: u32
  cr0 :: u32
  interrupt_handlers :: handlers
  con :: string

abbreviation PAGE_PRESENT :: u32 where "PAGE_PRESENT \<equiv> 0x1"
abbreviation PAGE_WRITABLE :: u32 where "PAGE_WRITABLE \<equiv> 0x2"
abbreviation PAGE_USER :: u32 where "PAGE_USER \<equiv> 0x4"
abbreviation PAGE_FRAME_MASK :: u32 where "PAGE_FRAME_MASK \<equiv> 0xFFFFF000"
abbreviation PAGES_PER_TABLE :: nat where "PAGES_PER_TABLE \<equiv> 1024"
abbreviation TABLES_PER_DIR :: nat where "TABLES_PER_DIR \<equiv> 1024"
abbreviation KERNEL_PDE_COUNT :: nat where "KERNEL_PDE_COUNT \<equiv> 4"
abbreviation USER_STACK_VIRT :: u32 where "USER_STACK_VIRT \<equiv> 0xBFFFF000"
abbreviation USER_STACK_TOP :: u32 where "USER_STACK_TOP \<equiv> 0xC0000000"

definition PAGE_DIR_INDEX :: "u32 \<Rightarrow> nat" where
  "PAGE_DIR_INDEX va = unat (drop_bit 22 va AND 0x3FF)"

definition PAGE_TABLE_INDEX :: "u32 \<Rightarrow> nat" where
  "PAGE_TABLE_INDEX va = unat (drop_bit 12 va AND 0x3FF)"

definition PAGE_FRAME :: "u32 \<Rightarrow> u32" where
  "PAGE_FRAME e = e AND PAGE_FRAME_MASK"

definition vm_print :: "string \<Rightarrow> vm \<Rightarrow> vm" where
  "vm_print msg s = s\<lparr>con := con s @ msg\<rparr>"

definition vm_alloc_page :: "vm \<Rightarrow> u32 \<times> vm" where
  "vm_alloc_page s = (let (addr, p) = alloc_page (frames s) in (addr, s\<lparr>frames := p\<rparr>))"

definition vm_free_page :: "u32 \<Rightarrow> vm \<Rightarrow> vm" where
  "vm_free_page addr s = (let (msg, p) = free_page addr (frames s) in vm_print msg (s\<lparr>frames := p\<rparr>))"

section \<open>Initialisation\<close>

text \<open>The loop over the 1024 entries of one page table of the identity map.\<close>

definition fill_table :: "u32 \<Rightarrow> u32 \<Rightarrow> pmem \<Rightarrow> pmem" where
  "fill_table pt chunk_base m =
     fold (\<lambda>j. set_entry pt j ((chunk_base + of_nat j * 0x1000) OR PAGE_PRESENT OR PAGE_WRITABLE)) [0..<PAGES_PER_TABLE] m"

text \<open>The loop over the four page tables; it returns \<open>False\<close> when the allocation of a table fails.\<close>

fun identity_tables :: "nat list \<Rightarrow> vm \<Rightarrow> bool \<times> vm" where
  "identity_tables [] s = (True, s)"
| "identity_tables (i # is) s =
     (let (pt_phys, s) = vm_alloc_page s
      in if pt_phys = 0 then
           (False, vm_print (''PANIC: paging_init - cannot allocate page table'' @ [CHR 0x0A]) s)
         else
           let chunk_base = of_nat i * 0x400000;
               m = fill_table pt_phys chunk_base (mem s);
               m = set_entry (kernel_directory s) i (pt_phys OR PAGE_PRESENT OR PAGE_WRITABLE) m
           in identity_tables is (s\<lparr>mem := m, pd_tables := (pd_tables s)[i := pt_phys]\<rparr>))"

definition paging_init :: "vm \<Rightarrow> vm" where
  "paging_init s =
     (let (pd_phys, s) = vm_alloc_page s
      in if pd_phys = 0 then
           vm_print (''PANIC: paging_init - cannot allocate page directory'' @ [CHR 0x0A]) s
         else
           let s = s\<lparr>kernel_directory := pd_phys, mem := memset pd_phys 0 4096 (mem s),
                     pd_tables := replicate TABLES_PER_DIR 0, pd_physical_address := pd_phys\<rparr>;
               (ok, s) = identity_tables [0..<4] s
           in if \<not> ok then s
              else s\<lparr>interrupt_handlers := register_interrupt_handler 14 Page_fault_handler (interrupt_handlers s),
                     cr3 := pd_phys, cr0 := cr0 s OR 0x80000000\<rparr>)"

section \<open>Mapping, unmapping, translating\<close>

definition paging_map_page :: "u32 \<Rightarrow> u32 \<Rightarrow> u32 \<Rightarrow> vm \<Rightarrow> vm" where
  "paging_map_page virt phys flags s =
     (let pd_idx = PAGE_DIR_INDEX virt; pt_idx = PAGE_TABLE_INDEX virt; kd = kernel_directory s;
          set_pte = (\<lambda>s. s\<lparr>mem := set_entry (pd_tables s ! pd_idx) pt_idx
                         (PAGE_FRAME phys OR (flags AND 0xFFF) OR PAGE_PRESENT) (mem s)\<rparr>)
      in if entry (mem s) kd pd_idx AND PAGE_PRESENT = 0 then
           let (pt_phys, s) = vm_alloc_page s
           in if pt_phys = 0 then
                vm_print (''paging_map_page: out of memory for page table'' @ [CHR 0x0A]) s
              else
                let m = memset pt_phys 0 4096 (mem s);
                    m = set_entry kd pd_idx (pt_phys OR PAGE_PRESENT OR PAGE_WRITABLE OR (flags AND PAGE_USER)) m
                in set_pte (s\<lparr>mem := m, pd_tables := (pd_tables s)[pd_idx := pt_phys]\<rparr>)
         else if flags AND PAGE_USER \<noteq> 0 then
           set_pte (s\<lparr>mem := set_entry kd pd_idx (entry (mem s) kd pd_idx OR PAGE_USER) (mem s)\<rparr>)
         else set_pte s)"

definition paging_map_user :: "u32 \<Rightarrow> u32 \<Rightarrow> bool \<Rightarrow> vm \<Rightarrow> vm" where
  "paging_map_user virt phys rw s =
     (let flags = PAGE_PRESENT OR PAGE_USER;
          flags = (if rw then flags OR PAGE_WRITABLE else flags)
      in paging_map_page virt phys flags s)"

text \<open>One page table of \<^verbatim>\<open>paging_enable_user_access\<close>.\<close>

definition enable_user_table :: "nat \<Rightarrow> vm \<Rightarrow> vm" where
  "enable_user_table i s =
     (let kd = kernel_directory s
      in if entry (mem s) kd i AND PAGE_PRESENT = 0 then s
         else let s = s\<lparr>mem := set_entry kd i (entry (mem s) kd i OR PAGE_USER) (mem s)\<rparr>;
                  pt = pd_tables s ! i
              in if pt = 0 then s
                 else s\<lparr>mem := fold (\<lambda>j m. if entry m pt j AND PAGE_PRESENT \<noteq> 0
                                         then set_entry pt j (entry m pt j OR PAGE_USER) m else m)
                               [0..<PAGES_PER_TABLE] (mem s)\<rparr>)"

definition paging_enable_user_access :: "vm \<Rightarrow> vm" where
  "paging_enable_user_access s = fold enable_user_table [0..<4] s"

definition paging_unmap_page :: "u32 \<Rightarrow> vm \<Rightarrow> vm" where
  "paging_unmap_page virt s =
     (let pd_idx = PAGE_DIR_INDEX virt; pt_idx = PAGE_TABLE_INDEX virt
      in if entry (mem s) (kernel_directory s) pd_idx AND PAGE_PRESENT = 0 then s
         else let table = pd_tables s ! pd_idx
              in if table = 0 then s
                 else s\<lparr>mem := set_entry table pt_idx 0 (mem s)\<rparr>)"

definition paging_translate :: "u32 \<Rightarrow> vm \<Rightarrow> u32" where
  "paging_translate virt s =
     (let pd_idx = PAGE_DIR_INDEX virt; pt_idx = PAGE_TABLE_INDEX virt
      in if entry (mem s) (kernel_directory s) pd_idx AND PAGE_PRESENT = 0 then 0
         else let table = pd_tables s ! pd_idx
              in if table = 0 then 0
                 else let pte = entry (mem s) table pt_idx
                      in if pte AND PAGE_PRESENT = 0 then 0
                         else PAGE_FRAME pte OR (virt AND 0xFFF))"

definition paging_get_kernel_cr3 :: "vm \<Rightarrow> u32" where
  "paging_get_kernel_cr3 s = pd_physical_address s"

section \<open>Status\<close>

definition paging_counts :: "vm \<Rightarrow> u32 \<times> u32" where
  "paging_counts s =
     fold (\<lambda>i (present_tables, total_mapped_pages).
       if entry (mem s) (kernel_directory s) i AND PAGE_PRESENT \<noteq> 0 then
         let table = pd_tables s ! i
         in (present_tables + 1,
             if table \<noteq> 0 then
               fold (\<lambda>j n. if entry (mem s) table j AND PAGE_PRESENT \<noteq> 0 then n + 1 else n)
                 [0..<PAGES_PER_TABLE] total_mapped_pages
             else total_mapped_pages)
       else (present_tables, total_mapped_pages)) [0..<TABLES_PER_DIR] (0, 0)"

text \<open>\<^verbatim>\<open>uitoa\<close> writes at most ten digits, the buffer holds sixteen.\<close>

definition dec_text :: "u32 \<Rightarrow> string" where
  "dec_text n = (case uitoa n 10 of Some t \<Rightarrow> t | None \<Rightarrow> [])"

definition paging_status :: "vm \<Rightarrow> string" where
  "paging_status s =
     (if kernel_directory s = 0 then ''Paging: not initialized'' @ [CHR 0x0A]
      else let (present_tables, total_mapped_pages) = paging_counts s;
               mapped_mb = (total_mapped_pages * 4) div 1024
           in ''Page Directory Status:'' @ [CHR 0x0A] @
              ''  Present tables: '' @ dec_text present_tables @ '' / 1024'' @ [CHR 0x0A] @
              ''  Mapped pages:   '' @ dec_text total_mapped_pages @ [CHR 0x0A] @
              ''  Mapped memory:  '' @ dec_text mapped_mb @ '' MB'' @
              (if total_mapped_pages = 4096 \<and> present_tables = 4
               then '' (identity mapped 0x00000000 - 0x00FFFFFF)'' @ [CHR 0x0A] else [CHR 0x0A]))"

section \<open>Address spaces of processes\<close>

text \<open>The result is the address of the new directory, which is also \<^verbatim>\<open>*out_phys\<close>; 0 is failure.\<close>

definition paging_clone_directory :: "vm \<Rightarrow> u32 \<times> vm" where
  "paging_clone_directory s =
     (let (dir, s) = vm_alloc_page s
      in if dir = 0 then (0, s)
         else let s = s\<lparr>mem := memset dir 0 4096 (mem s)\<rparr>;
                  share = (\<lambda>s. s\<lparr>mem := fold (\<lambda>i m. set_entry dir i (entry m (kernel_directory s) i) m)
                                 [1..<KERNEL_PDE_COUNT] (mem s)\<rparr>)
              in if pd_tables s ! 0 \<noteq> 0 then
                   let (pt0, s) = vm_alloc_page s
                   in if pt0 = 0 then (0, vm_free_page dir s)
                      else let m = memcpy pt0 (pd_tables s ! 0) 4096 (mem s);
                               m = set_entry dir 0 (pt0 OR PAGE_PRESENT OR PAGE_WRITABLE) m
                           in (dir, share (s\<lparr>mem := m\<rparr>))
                 else (dir, share s))"

definition paging_map_page_in :: "u32 \<Rightarrow> u32 \<Rightarrow> u32 \<Rightarrow> u32 \<Rightarrow> vm \<Rightarrow> vm" where
  "paging_map_page_in dir virt phys flags s =
     (let pd_idx = PAGE_DIR_INDEX virt; pt_idx = PAGE_TABLE_INDEX virt;
          set_pte = (\<lambda>s. let table = PAGE_FRAME (entry (mem s) dir pd_idx)
                        in s\<lparr>mem := set_entry table pt_idx
                               (PAGE_FRAME phys OR (flags AND 0xFFF) OR PAGE_PRESENT) (mem s)\<rparr>)
      in if entry (mem s) dir pd_idx AND PAGE_PRESENT = 0 then
           let (pt_phys, s) = vm_alloc_page s
           in if pt_phys = 0 then
                vm_print (''paging_map_page_in: out of memory for page table'' @ [CHR 0x0A]) s
              else
                let m = memset pt_phys 0 4096 (mem s);
                    m = set_entry dir pd_idx (pt_phys OR PAGE_PRESENT OR PAGE_WRITABLE OR (flags AND PAGE_USER)) m
                in set_pte (s\<lparr>mem := m\<rparr>)
         else if flags AND PAGE_USER \<noteq> 0 then
           set_pte (s\<lparr>mem := set_entry dir pd_idx (entry (mem s) dir pd_idx OR PAGE_USER) (mem s)\<rparr>)
         else set_pte s)"

text \<open>One directory slot of \<^verbatim>\<open>paging_free_directory\<close>: the mapped pages, then the table.\<close>

definition free_user_table :: "u32 \<Rightarrow> nat \<Rightarrow> vm \<Rightarrow> vm" where
  "free_user_table dir i s =
     (if entry (mem s) dir i AND PAGE_PRESENT = 0 then s
      else let pt_phys = PAGE_FRAME (entry (mem s) dir i);
               s = fold (\<lambda>j s. if entry (mem s) pt_phys j AND PAGE_PRESENT \<noteq> 0
                             then vm_free_page (PAGE_FRAME (entry (mem s) pt_phys j)) s else s)
                     [0..<PAGES_PER_TABLE] s
           in vm_free_page pt_phys s)"

definition paging_free_directory :: "u32 \<Rightarrow> vm \<Rightarrow> vm" where
  "paging_free_directory dir s =
     (if dir = 0 then s
      else let s = (if entry (mem s) dir 0 AND PAGE_PRESENT \<noteq> 0
                    then vm_free_page (PAGE_FRAME (entry (mem s) dir 0)) s else s);
               s = fold (free_user_table dir) [KERNEL_PDE_COUNT..<TABLES_PER_DIR] s
           in vm_free_page dir s)"

section \<open>Entries\<close>

definition present :: "u32 \<Rightarrow> bool" where
  "present e \<longleftrightarrow> bit e 0"

lemma and_present_eq_0 [simp]: "e AND PAGE_PRESENT = 0 \<longleftrightarrow> \<not> present e"
  using bit_iff_and_push_bit_not_eq_0 [of e 0] by (simp add: present_def)

lemma mask_frame: "PAGE_FRAME_MASK = NOT (mask 12)"
  by (simp add: mask_eq_exp_minus_1)

lemma bit_PAGE_FRAME: "bit (PAGE_FRAME e) n \<longleftrightarrow> 12 \<le> n \<and> bit e n"
  unfolding PAGE_FRAME_def mask_frame by (auto simp: bit_simps dest: bit_imp_le_length)

lemma page_aligned_iff: "page_aligned p \<longleftrightarrow> (\<forall>n < 12. \<not> bit p n)"
proof
  assume "page_aligned p"
  then have "take_bit 12 (unat p) = 0" by (simp add: page_aligned_def take_bit_eq_mod)
  moreover have "unat (take_bit 12 p) = take_bit 12 (unat p)" by (rule unsigned_take_bit_eq)
  ultimately have "take_bit 12 p = 0" by (simp add: unat_eq_zero)
  then have "\<not> bit (take_bit 12 p) n" for n by simp
  then show "\<forall>n < 12. \<not> bit p n" by (simp add: bit_take_bit_iff)
next
  assume *: "\<forall>n < 12. \<not> bit p n"
  have "take_bit 12 p = 0" by (rule bit_word_eqI) (use * in \<open>auto simp: bit_simps\<close>)
  then have "take_bit 12 (unat p) = 0" by (metis unsigned_0 unsigned_take_bit_eq)
  then show "page_aligned p" by (simp add: page_aligned_def take_bit_eq_mod)
qed

lemma page_aligned_PAGE_FRAME [simp]: "page_aligned (PAGE_FRAME e)"
  by (simp add: page_aligned_iff bit_PAGE_FRAME)

lemma PAGE_FRAME_aligned: "page_aligned p \<Longrightarrow> PAGE_FRAME p = p"
  by (rule bit_word_eqI) (auto simp: bit_PAGE_FRAME page_aligned_iff intro: leI)

text \<open>Flags live below bit 12.\<close>

definition is_flags :: "u32 \<Rightarrow> bool" where
  "is_flags f \<longleftrightarrow> (\<forall>n \<ge> 12. \<not> bit f n)"

lemma is_flags_or: "is_flags f \<Longrightarrow> is_flags g \<Longrightarrow> is_flags (f OR g)"
  by (simp add: is_flags_def bit_simps)

lemma is_flags_and: "is_flags f \<Longrightarrow> is_flags (g AND f)"
  by (simp add: is_flags_def bit_simps)

lemma is_flags_small: "unat f < 4096 \<Longrightarrow> is_flags f"
proof -
  assume f: "unat f < 4096"
  have "\<not> bit f n" if "12 \<le> n" for n
  proof -
    have "2 ^ 12 \<le> (2 :: nat) ^ n" using that by (rule power_increasing) simp
    then have "unat f < 2 ^ n" using f by simp
    then have "\<not> bit (unat f) n" by (simp add: bit_iff_odd)
    then show ?thesis by (simp add: bit_unsigned_iff)
  qed
  then show ?thesis by (simp add: is_flags_def)
qed

lemma is_flags_simps [simp]:
  "is_flags PAGE_PRESENT" "is_flags PAGE_WRITABLE" "is_flags PAGE_USER" "is_flags 0xFFF" "is_flags 3" "is_flags 7" "is_flags 6"
  by (rule is_flags_small, simp)+

lemma PAGE_FRAME_or: "is_flags f \<Longrightarrow> PAGE_FRAME (p OR f) = PAGE_FRAME p"
  by (rule bit_word_eqI) (auto simp: bit_PAGE_FRAME is_flags_def bit_simps)

lemma present_or: "present (p OR f) \<longleftrightarrow> present p \<or> present f"
  by (simp add: present_def bit_simps)

lemma present_consts [simp]: "present PAGE_PRESENT" "\<not> present PAGE_WRITABLE" "\<not> present PAGE_USER" "\<not> present 0" "present 3" "present 7"
  by (simp_all add: present_def)

text \<open>The entries the code builds from a page-aligned address and flags.\<close>

lemma new_pde:
  assumes "page_aligned pt"
  shows "PAGE_FRAME (pt OR PAGE_PRESENT OR PAGE_WRITABLE OR (flags AND PAGE_USER)) = pt"
    and "present (pt OR PAGE_PRESENT OR PAGE_WRITABLE OR (flags AND PAGE_USER))"
    and "PAGE_FRAME (pt OR PAGE_PRESENT OR PAGE_WRITABLE) = pt"
    and "present (pt OR PAGE_PRESENT OR PAGE_WRITABLE)"
  using assms
  by (simp_all add: PAGE_FRAME_or present_or PAGE_FRAME_aligned is_flags_or is_flags_and)

lemma new_pte:
  "PAGE_FRAME (PAGE_FRAME phys OR (flags AND 0xFFF) OR PAGE_PRESENT) = PAGE_FRAME phys"
  "present (PAGE_FRAME phys OR (flags AND 0xFFF) OR PAGE_PRESENT)"
proof -
  show "PAGE_FRAME (PAGE_FRAME phys OR (flags AND 0xFFF) OR PAGE_PRESENT) = PAGE_FRAME phys"
    by (rule bit_word_eqI) (use is_flags_simps(4) in \<open>auto simp: bit_PAGE_FRAME bit_simps is_flags_def\<close>)
  show "present (PAGE_FRAME phys OR (flags AND 0xFFF) OR PAGE_PRESENT)" by (simp add: present_or)
qed

lemma user_pde:
  "PAGE_FRAME (e OR PAGE_USER) = PAGE_FRAME e" "present (e OR PAGE_USER) \<longleftrightarrow> present e"
  by (simp_all add: PAGE_FRAME_or present_or)

lemma index_less [simp]: "PAGE_DIR_INDEX va < 1024" "PAGE_TABLE_INDEX va < 1024"
  by (simp_all add: PAGE_DIR_INDEX_def PAGE_TABLE_INDEX_def unat_and_1023)

end
