(* ===== verification/Paging_Props.thy ===== *)
theory Paging_Props
  imports Paging
begin

text \<open>
  Correctness of the kernel's own address space.  \<open>walk\<close> is the two-level translation of the processor
  with the access rights it grants; \<open>vm_inv\<close> ties the directory in memory to the software table
  \<^verbatim>\<open>pd_tables\<close> and to the frames in use.  Every operation is described by its effect on \<open>walk\<close>.
\<close>

section \<open>Translation\<close>

definition walk :: "pmem \<Rightarrow> u32 \<Rightarrow> u32 \<Rightarrow> (u32 \<times> u32) option" where
  "walk m dir virt =
     (let pde = entry m dir (PAGE_DIR_INDEX virt)
      in if \<not> present pde then None
         else let pte = entry m (PAGE_FRAME pde) (PAGE_TABLE_INDEX virt)
              in if \<not> present pte then None
                 else Some (PAGE_FRAME pte OR (virt AND 0xFFF), pde AND pte AND (PAGE_WRITABLE OR PAGE_USER)))"

text \<open>The address part of the translation.\<close>

definition xlate :: "pmem \<Rightarrow> u32 \<Rightarrow> u32 \<Rightarrow> u32 option" where
  "xlate m dir virt = map_option fst (walk m dir virt)"

text \<open>The byte read at a virtual address under a directory; \<open>None\<close> is a page fault.\<close>

definition proc_byte :: "pmem \<Rightarrow> u32 \<Rightarrow> u32 \<Rightarrow> u8 option" where
  "proc_byte m d v = map_option m (xlate m d v)"

definition same_page :: "u32 \<Rightarrow> u32 \<Rightarrow> bool" where
  "same_page v w \<longleftrightarrow> PAGE_DIR_INDEX v = PAGE_DIR_INDEX w \<and> PAGE_TABLE_INDEX v = PAGE_TABLE_INDEX w"

text \<open>The frame number of an address.\<close>

definition fno :: "u32 \<Rightarrow> nat" where
  "fno a = unat a div 4096"

lemma fno_inj: "page_aligned a \<Longrightarrow> page_aligned b \<Longrightarrow> fno a = fno b \<longleftrightarrow> a = b"
proof
  assume *: "page_aligned a" "page_aligned b" "fno a = fno b"
  then have "unat a = unat b"
    unfolding page_aligned_def fno_def by (metis div_mult_mod_eq)
  then show "a = b" by (simp add: u32_eq_iff_unat)
qed simp

section \<open>Frames\<close>

definition used :: "vm \<Rightarrow> nat set" where
  "used s = used_set (frames s)"

definition frames_ok :: "vm \<Rightarrow> bool" where
  "frames_ok s \<longleftrightarrow> pmm_inv (frames s) \<and> 0 \<in> used s"

lemma vm_alloc_cases:
  assumes "frames_ok s"
  obtains (fail) "vm_alloc_page s = (0, s)" "used s = {..<4096}"
  | (ok) a s' where "vm_alloc_page s = (a, s')" "a \<noteq> 0" "page_aligned a" "fno a \<notin> used s" "fno a < 4096"
      "used s' = insert (fno a) (used s)" "frames_ok s'" "s' = s\<lparr>frames := frames s'\<rparr>" "used s \<noteq> {..<4096}"
proof -
  obtain a p where a: "alloc_page (frames s) = (a, p)" by fastforce
  have inv: "pmm_inv (frames s)" and zero: "0 \<in> used_set (frames s)"
    using assms by (simp_all add: frames_ok_def used_def)
  note spec = alloc_page_spec [OF inv a]
  show thesis
  proof (cases "used_set (frames s) = {..<4096}")
    case True
    then show thesis using spec(2) a by (intro fail) (simp_all add: vm_alloc_page_def used_def)
  next
    case False
    then have new: "unat a mod 4096 = 0" "fno a < 4096" "fno a \<notin> used_set (frames s)"
      "used_set p = insert (fno a) (used_set (frames s))" using spec(3) by (simp_all add: fno_def)
    then have "a \<noteq> 0" using zero by (auto simp: fno_def)
    with new False spec(1) zero a show thesis
      by (intro ok [of a "s\<lparr>frames := p\<rparr>"]) (simp_all add: vm_alloc_page_def used_def frames_ok_def page_aligned_def)
  qed
qed

lemma vm_free_page_effect:
  assumes "pmm_inv (frames s)"
  shows "pmm_inv (frames (vm_free_page a s))"
    and "page_aligned a \<Longrightarrow> used (vm_free_page a s) = used s - {fno a}"
    and "mem (vm_free_page a s) = mem s" "kernel_directory (vm_free_page a s) = kernel_directory s"
    and "pd_tables (vm_free_page a s) = pd_tables s"
    and "pd_physical_address (vm_free_page a s) = pd_physical_address s" "cr3 (vm_free_page a s) = cr3 s"
proof -
  obtain msg p where f: "free_page a (frames s) = (msg, p)" by fastforce
  note spec = free_page_spec [OF assms f]
  show "pmm_inv (frames (vm_free_page a s))" using spec(1) f by (simp add: vm_free_page_def vm_print_def)
  show "used (vm_free_page a s) = used s - {fno a}" if "page_aligned a"
    using spec(2,3) f that
    by (cases "unat a div 4096 \<in> used_set (frames s)")
      (auto simp: vm_free_page_def vm_print_def used_def fno_def page_aligned_def)
qed (simp_all add: vm_free_page_def vm_print_def split: prod.splits)

section \<open>The invariant of the kernel directory\<close>

definition dir_ok :: "pmem \<Rightarrow> u32 \<Rightarrow> nat set \<Rightarrow> bool" where
  "dir_ok m d us \<longleftrightarrow> page_aligned d \<and> fno d \<in> us \<and>
     (\<forall>i < 1024. present (entry m d i) \<longrightarrow>
        fno (PAGE_FRAME (entry m d i)) \<in> us \<and> PAGE_FRAME (entry m d i) \<noteq> d \<and>
        (\<forall>j < 1024. present (entry m d j) \<and> PAGE_FRAME (entry m d j) = PAGE_FRAME (entry m d i) \<longrightarrow> i = j))"

lemma dir_ok_slot:
  "dir_ok m d us \<Longrightarrow> i < 1024 \<Longrightarrow> present (entry m d i) \<Longrightarrow>
   fno (PAGE_FRAME (entry m d i)) \<in> us \<and> PAGE_FRAME (entry m d i) \<noteq> d"
  unfolding dir_ok_def by blast

lemma dir_ok_inj:
  "dir_ok m d us \<Longrightarrow> i < 1024 \<Longrightarrow> j < 1024 \<Longrightarrow> present (entry m d i) \<Longrightarrow> present (entry m d j) \<Longrightarrow>
   PAGE_FRAME (entry m d i) = PAGE_FRAME (entry m d j) \<Longrightarrow> i = j"
  unfolding dir_ok_def by metis

definition vm_inv :: "vm \<Rightarrow> bool" where
  "vm_inv s \<longleftrightarrow> frames_ok s \<and> kernel_directory s \<noteq> 0 \<and> dir_ok (mem s) (kernel_directory s) (used s) \<and>
     pd_physical_address s = kernel_directory s \<and> length (pd_tables s) = 1024 \<and>
     (\<forall>i < 1024. present (entry (mem s) (kernel_directory s) i) \<longrightarrow>
        pd_tables s ! i = PAGE_FRAME (entry (mem s) (kernel_directory s) i) \<and> pd_tables s ! i \<noteq> 0)"

lemma vm_invD:
  assumes "vm_inv s"
  shows "frames_ok s" "page_aligned (kernel_directory s)" "fno (kernel_directory s) \<in> used s"
    "length (pd_tables s) = 1024" "dir_ok (mem s) (kernel_directory s) (used s)"
    "kernel_directory s \<noteq> 0"
  using assms by (simp_all add: vm_inv_def dir_ok_def)

lemma vm_invI:
  assumes "frames_ok s" "kernel_directory s \<noteq> 0" "dir_ok (mem s) (kernel_directory s) (used s)"
    and "pd_physical_address s = kernel_directory s" "length (pd_tables s) = 1024"
    and "\<And>i. i < 1024 \<Longrightarrow> present (entry (mem s) (kernel_directory s) i) \<Longrightarrow>
        pd_tables s ! i = PAGE_FRAME (entry (mem s) (kernel_directory s) i) \<and> pd_tables s ! i \<noteq> 0"
  shows "vm_inv s"
  unfolding vm_inv_def using assms by blast

text \<open>Registers, handlers and the console do not matter.\<close>

lemma vm_inv_cong:
  "vm_inv s \<Longrightarrow> frames s' = frames s \<Longrightarrow> mem s' = mem s \<Longrightarrow> kernel_directory s' = kernel_directory s \<Longrightarrow>
   pd_tables s' = pd_tables s \<Longrightarrow> pd_physical_address s' = pd_physical_address s \<Longrightarrow> vm_inv s'"
  unfolding vm_inv_def frames_ok_def used_def by metis

text \<open>\<^verbatim>\<open>paging_translate\<close> computes the address part of the walk; 0 stands for not mapped.\<close>

lemma paging_translate_walk:
  assumes "vm_inv s"
  shows "paging_translate virt s = (case xlate (mem s) (kernel_directory s) virt of Some a \<Rightarrow> a | None \<Rightarrow> 0)"
proof -
  let ?e = "entry (mem s) (kernel_directory s) (PAGE_DIR_INDEX virt)"
  have "present ?e \<Longrightarrow> pd_tables s ! PAGE_DIR_INDEX virt = PAGE_FRAME ?e \<and> pd_tables s ! PAGE_DIR_INDEX virt \<noteq> 0"
    using assms unfolding vm_inv_def by (metis index_less(1))
  then show ?thesis by (auto simp: paging_translate_def xlate_def walk_def Let_def)
qed

text \<open>The walk only reads the directory and the tables it refers to.\<close>

lemma walk_cong:
  assumes "entry m' d (PAGE_DIR_INDEX virt) = entry m d (PAGE_DIR_INDEX virt)"
    and "present (entry m d (PAGE_DIR_INDEX virt)) \<Longrightarrow>
      entry m' (PAGE_FRAME (entry m d (PAGE_DIR_INDEX virt))) (PAGE_TABLE_INDEX virt) =
      entry m (PAGE_FRAME (entry m d (PAGE_DIR_INDEX virt))) (PAGE_TABLE_INDEX virt)"
  shows "walk m' d virt = walk m d virt"
  using assms by (auto simp: walk_def Let_def)

section \<open>Mapping a page into a directory\<close>

text \<open>
  The common core of \<^verbatim>\<open>paging_map_page\<close> and \<^verbatim>\<open>paging_map_page_in\<close>: the directory \<open>d\<close> gets a table for
  the slot if it has none, and the entry of the page is written.
\<close>

definition put_pte :: "u32 \<Rightarrow> u32 \<Rightarrow> u32 \<Rightarrow> u32 \<Rightarrow> u32 \<Rightarrow> pmem \<Rightarrow> pmem" where
  "put_pte d table virt phys flags m =
     set_entry table (PAGE_TABLE_INDEX virt) (PAGE_FRAME phys OR (flags AND 0xFFF) OR PAGE_PRESENT) m"

definition pde_for :: "u32 \<Rightarrow> u32 \<Rightarrow> u32 \<Rightarrow> u32 \<Rightarrow> pmem \<Rightarrow> u32" where
  "pde_for d table virt flags m =
     (let e = entry m d (PAGE_DIR_INDEX virt)
      in if present e then (if flags AND PAGE_USER \<noteq> 0 then e OR PAGE_USER else e)
         else table OR PAGE_PRESENT OR PAGE_WRITABLE OR (flags AND PAGE_USER))"

definition map_mem :: "u32 \<Rightarrow> u32 \<Rightarrow> u32 \<Rightarrow> u32 \<Rightarrow> u32 \<Rightarrow> pmem \<Rightarrow> pmem" where
  "map_mem d table virt phys flags m =
     put_pte d table virt phys flags
       (set_entry d (PAGE_DIR_INDEX virt) (pde_for d table virt flags m)
         (if present (entry m d (PAGE_DIR_INDEX virt)) then m else memset table 0 4096 m))"

lemma pde_for:
  assumes "page_aligned table" "present (entry m d (PAGE_DIR_INDEX virt)) \<longrightarrow> table = PAGE_FRAME (entry m d (PAGE_DIR_INDEX virt))"
  shows "present (pde_for d table virt flags m)" "PAGE_FRAME (pde_for d table virt flags m) = table"
  using assms by (auto simp: pde_for_def Let_def user_pde new_pde)

text \<open>The entries after the operation, for pages other than a freshly cleared table.\<close>

lemma entry_map_mem:
  assumes "page_aligned d" "page_aligned table" "table \<noteq> d" "page_aligned t" "i < 1024"
  shows "entry (map_mem d table virt phys flags m) t i =
     (if t = table \<and> i = PAGE_TABLE_INDEX virt then PAGE_FRAME phys OR (flags AND 0xFFF) OR PAGE_PRESENT
      else if t = d \<and> i = PAGE_DIR_INDEX virt then pde_for d table virt flags m
      else if t = table \<and> \<not> present (entry m d (PAGE_DIR_INDEX virt)) then 0
      else entry m t i)"
  using assms by (auto simp: map_mem_def put_pte_def entry_set_entry entry_memset_page)

lemma walk_map_mem:
  assumes d: "page_aligned d" and tb: "page_aligned table" "table \<noteq> d"
    and old: "present (entry m d (PAGE_DIR_INDEX virt)) \<longrightarrow> table = PAGE_FRAME (entry m d (PAGE_DIR_INDEX virt))"
    and priv: "\<forall>i < 1024. i \<noteq> PAGE_DIR_INDEX virt \<and> present (entry m d i) \<longrightarrow>
      PAGE_FRAME (entry m d i) \<noteq> table \<and> PAGE_FRAME (entry m d i) \<noteq> d"
  shows "xlate (map_mem d table virt phys flags m) d v =
      (if same_page v virt then Some (PAGE_FRAME phys OR (v AND 0xFFF)) else xlate m d v)"
    and "PAGE_DIR_INDEX v \<noteq> PAGE_DIR_INDEX virt \<Longrightarrow>
      walk (map_mem d table virt phys flags m) d v = walk m d v"
proof -
  let ?m = "map_mem d table virt phys flags m"
  note ent = entry_map_mem [OF d tb]
  have pde: "entry ?m d i = (if i = PAGE_DIR_INDEX virt then pde_for d table virt flags m else entry m d i)"
    if "i < 1024" for i using ent [OF d that] tb(2) by auto
  note new = pde_for [OF tb(1) old]
  show other: "walk ?m d v = walk m d v" if "PAGE_DIR_INDEX v \<noteq> PAGE_DIR_INDEX virt" for v
    using that pde priv [rule_format, of "PAGE_DIR_INDEX v"] ent [OF page_aligned_PAGE_FRAME index_less(2)]
    by (intro walk_cong) auto
  show "xlate ?m d v = (if same_page v virt then Some (PAGE_FRAME phys OR (v AND 0xFFF)) else xlate m d v)"
  proof (cases "PAGE_DIR_INDEX v = PAGE_DIR_INDEX virt")
    case False
    then show ?thesis using other by (simp add: xlate_def same_page_def)
  next
    case True
    have "entry ?m table (PAGE_TABLE_INDEX v) =
        (if PAGE_TABLE_INDEX v = PAGE_TABLE_INDEX virt then PAGE_FRAME phys OR (flags AND 0xFFF) OR PAGE_PRESENT
         else if present (entry m d (PAGE_DIR_INDEX virt)) then entry m table (PAGE_TABLE_INDEX v) else 0)"
      using ent [OF tb(1) index_less(2) [of v], of virt phys flags m] tb(2) by simp
    then show ?thesis
      using True new old pde [OF index_less(1), of v]
      by (auto simp: xlate_def walk_def Let_def same_page_def new_pte)
  qed
qed

text \<open>The directory keeps its shape.\<close>

lemma dir_ok_map_mem:
  assumes ok: "dir_ok m d us" and tb: "page_aligned table" "fno table \<notin> us \<or> present (entry m d (PAGE_DIR_INDEX virt))"
    and old: "present (entry m d (PAGE_DIR_INDEX virt)) \<longrightarrow> table = PAGE_FRAME (entry m d (PAGE_DIR_INDEX virt))"
  shows "dir_ok (map_mem d table virt phys flags m) d (insert (fno table) us)"
    and "table \<noteq> d"
    and "\<forall>i < 1024. i \<noteq> PAGE_DIR_INDEX virt \<and> present (entry m d i) \<longrightarrow>
      PAGE_FRAME (entry m d i) \<noteq> table \<and> PAGE_FRAME (entry m d i) \<noteq> d"
    and "i < 1024 \<Longrightarrow> entry (map_mem d table virt phys flags m) d i =
      (if i = PAGE_DIR_INDEX virt then pde_for d table virt flags m else entry m d i)"
proof -
  let ?k = "PAGE_DIR_INDEX virt"
  have d: "page_aligned d" "fno d \<in> us"
    and slot: "\<And>i. i < 1024 \<Longrightarrow> present (entry m d i) \<Longrightarrow>
        fno (PAGE_FRAME (entry m d i)) \<in> us \<and> PAGE_FRAME (entry m d i) \<noteq> d"
    and inj: "\<And>i j. i < 1024 \<Longrightarrow> j < 1024 \<Longrightarrow> present (entry m d i) \<Longrightarrow> present (entry m d j) \<Longrightarrow>
        PAGE_FRAME (entry m d j) = PAGE_FRAME (entry m d i) \<Longrightarrow> i = j"
    using ok unfolding dir_ok_def by blast+
  show td: "table \<noteq> d"
    using tb(2) old slot [of ?k] d(2) by (cases "present (entry m d ?k)") auto
  have priv: "PAGE_FRAME (entry m d i) \<noteq> table \<and> PAGE_FRAME (entry m d i) \<noteq> d"
    if "i < 1024" "i \<noteq> ?k" "present (entry m d i)" for i
    using that tb(2) old slot [of i] inj [of ?k i] by (cases "present (entry m d ?k)") auto
  then show "\<forall>i < 1024. i \<noteq> ?k \<and> present (entry m d i) \<longrightarrow>
      PAGE_FRAME (entry m d i) \<noteq> table \<and> PAGE_FRAME (entry m d i) \<noteq> d" by blast
  show ent: "entry (map_mem d table virt phys flags m) d i = (if i = ?k then pde_for d table virt flags m else entry m d i)"
    if "i < 1024" for i
    using entry_map_mem [OF d(1) tb(1) td d(1) that] td by auto
  note new = pde_for [OF tb(1) old]
  show "dir_ok (map_mem d table virt phys flags m) d (insert (fno table) us)"
    unfolding dir_ok_def
  proof (intro conjI allI impI)
    fix i assume i: "i < 1024" "present (entry (map_mem d table virt phys flags m) d i)"
    show "fno (PAGE_FRAME (entry (map_mem d table virt phys flags m) d i)) \<in> insert (fno table) us"
      using i slot [of i] new by (auto simp: ent split: if_splits)
    show "PAGE_FRAME (entry (map_mem d table virt phys flags m) d i) \<noteq> d"
      using i slot [of i] new td by (auto simp: ent split: if_splits)
    fix j assume "j < 1024" and j: "present (entry (map_mem d table virt phys flags m) d j) \<and>
      PAGE_FRAME (entry (map_mem d table virt phys flags m) d j) = PAGE_FRAME (entry (map_mem d table virt phys flags m) d i)"
    show "i = j"
    proof (rule ccontr)
      assume ne: "i \<noteq> j"
      have "PAGE_FRAME (entry m d l) \<noteq> table" if "l < 1024" "l \<noteq> ?k" "present (entry m d l)" for l
        using priv [OF that] by blast
      then show False
        using ne i j \<open>j < 1024\<close> new inj [of i j] unfolding ent [OF i(1)] ent [OF \<open>j < 1024\<close>]
        by (cases "i = ?k"; cases "j = ?k") fastforce+
    qed
  qed (use d in simp_all)
qed

section \<open>The kernel's map and unmap\<close>

lemma paging_map_page_cases:
  assumes "vm_inv s"
  obtains (oom) "paging_map_page virt phys flags s =
        vm_print (''paging_map_page: out of memory for page table'' @ [CHR 0x0A]) s"
      "\<not> present (entry (mem s) (kernel_directory s) (PAGE_DIR_INDEX virt))" "used s = {..<4096}"
  | (map) table s' where
      "paging_map_page virt phys flags s = s'\<lparr>mem := map_mem (kernel_directory s) table virt phys flags (mem s),
         pd_tables := (pd_tables s)[PAGE_DIR_INDEX virt := table]\<rparr>"
      "s' = s\<lparr>frames := frames s'\<rparr>" "frames_ok s'" "used s' = insert (fno table) (used s)"
      "page_aligned table" "table \<noteq> 0"
      "fno table \<notin> used s \<or> present (entry (mem s) (kernel_directory s) (PAGE_DIR_INDEX virt))"
      "present (entry (mem s) (kernel_directory s) (PAGE_DIR_INDEX virt)) \<longrightarrow>
         table = PAGE_FRAME (entry (mem s) (kernel_directory s) (PAGE_DIR_INDEX virt))"
proof (cases "present (entry (mem s) (kernel_directory s) (PAGE_DIR_INDEX virt))")
  case True
  let ?i = "PAGE_DIR_INDEX virt"
  have tb: "pd_tables s ! ?i = PAGE_FRAME (entry (mem s) (kernel_directory s) ?i)" "pd_tables s ! ?i \<noteq> 0"
    using assms True unfolding vm_inv_def by (metis index_less(1))+
  have "fno (pd_tables s ! ?i) \<in> used s"
    using assms True unfolding vm_inv_def dir_ok_def tb(1) by (metis index_less(1))
  moreover have "(pd_tables s)[?i := pd_tables s ! ?i] = pd_tables s" by (rule list_update_id)
  moreover have "paging_map_page virt phys flags s =
      s\<lparr>mem := map_mem (kernel_directory s) (pd_tables s ! ?i) virt phys flags (mem s)\<rparr>"
    using True
    by (simp add: paging_map_page_def Let_def map_mem_def put_pte_def pde_for_def set_entry_same)
  ultimately show thesis
    using assms tb True vm_invD(1) [OF assms]
    by (intro map [of "pd_tables s ! ?i" s]) auto
next
  case False
  from vm_invD(1) [OF assms] show thesis
  proof (cases rule: vm_alloc_cases)
    case fail
    then show thesis using False by (intro oom) (simp_all add: paging_map_page_def Let_def)
  next
    case (ok a s')
    have keep: "kernel_directory s' = kernel_directory s" "mem s' = mem s" "pd_tables s' = pd_tables s"
      by (subst ok(8), simp)+
    have len: "PAGE_DIR_INDEX virt < length (pd_tables s)" using vm_invD(4) [OF assms] by simp
    have "paging_map_page virt phys flags s =
      s'\<lparr>mem := map_mem (kernel_directory s) a virt phys flags (mem s), pd_tables := (pd_tables s)[PAGE_DIR_INDEX virt := a]\<rparr>"
      using False ok(1,2) keep len
      by (simp add: paging_map_page_def Let_def map_mem_def put_pte_def pde_for_def)
    then show thesis using ok False by (intro map [of a s']) auto
  qed
qed

text \<open>Mapping succeeds when the slot has a table or a frame is left, and then changes one page only.\<close>

lemma paging_map_page_effect:
  fixes phys flags virt :: u32
  assumes inv: "vm_inv s"
    and room: "present (entry (mem s) (kernel_directory s) (PAGE_DIR_INDEX virt)) \<or> used s \<noteq> {..<4096}"
  defines "s' \<equiv> paging_map_page virt phys flags s"
  shows "vm_inv s'" "kernel_directory s' = kernel_directory s"
    and "xlate (mem s') (kernel_directory s) v =
      (if same_page v virt then Some (PAGE_FRAME phys OR (v AND 0xFFF)) else xlate (mem s) (kernel_directory s) v)"
    and "PAGE_DIR_INDEX v \<noteq> PAGE_DIR_INDEX virt \<Longrightarrow>
      walk (mem s') (kernel_directory s) v = walk (mem s) (kernel_directory s) v"
proof -
  let ?d = "kernel_directory s" and ?i = "PAGE_DIR_INDEX virt"
  obtain table s1 where
    s': "s' = s1\<lparr>mem := map_mem ?d table virt phys flags (mem s), pd_tables := (pd_tables s)[?i := table]\<rparr>"
    and s1: "s1 = s\<lparr>frames := frames s1\<rparr>" "frames_ok s1" "used s1 = insert (fno table) (used s)"
    and tb: "page_aligned table" "table \<noteq> 0" "fno table \<notin> used s \<or> present (entry (mem s) ?d ?i)"
    and old: "present (entry (mem s) ?d ?i) \<longrightarrow> table = PAGE_FRAME (entry (mem s) ?d ?i)"
    using inv
  proof (cases rule: paging_map_page_cases [of s virt phys flags])
    case oom
    then show ?thesis using room by blast
  next
    case (map table s1)
    show ?thesis by (rule that [OF map(1) [folded s'_def] map(2-8)])
  qed
  note dir = dir_ok_map_mem [OF vm_invD(5) [OF inv] tb(1,3) old]
  have keep: "kernel_directory s' = ?d" "mem s' = map_mem ?d table virt phys flags (mem s)"
    "pd_tables s' = (pd_tables s)[?i := table]" "pd_physical_address s' = pd_physical_address s"
    "used s' = insert (fno table) (used s)" "frames_ok s'"
    unfolding s' using s1(2,3) by (subst s1(1), simp add: used_def frames_ok_def)+
  have "pd_tables s' ! i = PAGE_FRAME (entry (mem s') ?d i) \<and> pd_tables s' ! i \<noteq> 0"
    if "i < 1024" "present (entry (mem s') ?d i)" for i
    using that pde_for [OF tb(1) old] inv tb(2)
    unfolding keep(2,3) dir(4) [OF that(1)] vm_inv_def by (cases "i = ?i") auto
  moreover have "dir_ok (mem s') ?d (used s')" unfolding keep(2,5) by (rule dir(1))
  moreover have "length (pd_tables s') = 1024" "pd_physical_address s' = ?d" "?d \<noteq> 0"
    using inv by (simp_all add: vm_inv_def keep(3,4))
  ultimately show "vm_inv s'" unfolding vm_inv_def keep(1) using keep(6) by blast
  show "kernel_directory s' = ?d" by (rule keep(1))
  show "xlate (mem s') ?d v =
      (if same_page v virt then Some (PAGE_FRAME phys OR (v AND 0xFFF)) else xlate (mem s) ?d v)"
    unfolding keep(2) by (rule walk_map_mem(1) [OF vm_invD(2) [OF inv] tb(1) dir(2) old dir(3)])
  show "walk (mem s') ?d v = walk (mem s) ?d v" if "PAGE_DIR_INDEX v \<noteq> ?i"
    unfolding keep(2) using that by (rule walk_map_mem(2) [OF vm_invD(2) [OF inv] tb(1) dir(2) old dir(3)])
qed

lemma paging_unmap_page_effect:
  fixes virt :: u32
  assumes inv: "vm_inv s"
  defines "s' \<equiv> paging_unmap_page virt s"
  shows "vm_inv s'" "kernel_directory s' = kernel_directory s" "used s' = used s"
    and "walk (mem s') (kernel_directory s) v =
      (if same_page v virt then None else walk (mem s) (kernel_directory s) v)"
proof -
  let ?d = "kernel_directory s" and ?i = "PAGE_DIR_INDEX virt"
  have "vm_inv s' \<and> kernel_directory s' = kernel_directory s \<and> used s' = used s \<and>
    (\<forall>v. walk (mem s') ?d v = (if same_page v virt then None else walk (mem s) ?d v))"
  proof (cases "present (entry (mem s) ?d ?i)")
    case False
    then show ?thesis using inv by (auto simp: s'_def paging_unmap_page_def walk_def same_page_def)
  next
    case True
    define table where "table = PAGE_FRAME (entry (mem s) ?d ?i)"
    have tb: "pd_tables s ! ?i = table" "table \<noteq> 0" "page_aligned table"
      using inv True unfolding vm_inv_def table_def by (metis index_less(1) page_aligned_PAGE_FRAME)+
    have s': "s' = s\<lparr>mem := set_entry table (PAGE_TABLE_INDEX virt) 0 (mem s)\<rparr>"
      using True tb(1,2) by (simp add: s'_def paging_unmap_page_def)
    have d: "page_aligned ?d" "table \<noteq> ?d"
      using inv True unfolding vm_inv_def dir_ok_def table_def by (metis index_less(1))+
    have ent: "entry (mem s') t i = (if t = table \<and> i = PAGE_TABLE_INDEX virt then 0 else entry (mem s) t i)"
      if "page_aligned t" "i < 1024" for t i
      using that tb(3) by (auto simp: s' entry_set_entry)
    have pde: "entry (mem s') ?d i = entry (mem s) ?d i" if "i < 1024" for i using ent [OF d(1) that] d(2) by simp
    have keep: "kernel_directory s' = ?d" "pd_tables s' = pd_tables s" "used s' = used s" "frames_ok s' = frames_ok s"
      "pd_physical_address s' = pd_physical_address s" by (simp_all add: s' used_def frames_ok_def)
    have "dir_ok (mem s') ?d (used s)" using vm_invD(5) [OF inv] pde unfolding dir_ok_def by simp
    then have "vm_inv s'" using inv pde unfolding vm_inv_def keep by metis
    moreover have "walk (mem s') ?d v = (if same_page v virt then None else walk (mem s) ?d v)" for v
    proof (cases "same_page v virt")
      case True
      then show ?thesis
        using pde [OF index_less(1), of virt] ent [OF tb(3) index_less(2), of virt]
        by (auto simp: walk_def same_page_def Let_def table_def)
    next
      case False
      have "PAGE_FRAME (entry (mem s) ?d (PAGE_DIR_INDEX v)) = table \<Longrightarrow> present (entry (mem s) ?d (PAGE_DIR_INDEX v)) \<Longrightarrow>
          PAGE_DIR_INDEX v = ?i"
        using vm_invD(5) [OF inv] True unfolding dir_ok_def table_def by (metis index_less(1))
      then show ?thesis
        using False pde [OF index_less(1), of v] ent [OF page_aligned_PAGE_FRAME index_less(2)]
        by (simp only: if_False) (rule walk_cong, auto simp: same_page_def)
    qed
    ultimately show ?thesis using keep by blast
  qed
  then show "vm_inv s'" "kernel_directory s' = kernel_directory s" "used s' = used s"
    "walk (mem s') ?d v = (if same_page v virt then None else walk (mem s) ?d v)" by blast+
qed

section \<open>The identity map\<close>

lemma unat_PAGE_FRAME: "unat (PAGE_FRAME v) = unat v div 4096 * 4096"
proof -
  have "PAGE_FRAME v + (v AND mask 12) = PAGE_FRAME v OR (v AND mask 12)"
    by (rule disjunctive_add) (auto simp: bit_PAGE_FRAME bit_simps)
  also have "\<dots> = v" by (rule bit_word_eqI) (auto simp: bit_PAGE_FRAME bit_simps)
  finally have "PAGE_FRAME v = v - (v AND mask 12)" by (simp add: eq_diff_eq)
  then have "unat (PAGE_FRAME v) = unat v - unat v mod 4096"
    using unat_and_mask_u32 [of v 12] by (simp add: unat_sub_u32)
  then show ?thesis by (simp add: minus_mod_eq_div_mult)
qed

lemma frame_or_offset: "PAGE_FRAME v OR (v AND 0xFFF) = v"
proof -
  have m: "(0xFFF :: u32) = mask 12" by (simp add: mask_eq_exp_minus_1)
  show ?thesis unfolding m by (rule bit_word_eqI) (auto simp: bit_PAGE_FRAME bit_simps)
qed

lemma index_unat:
  "PAGE_DIR_INDEX v = unat v div 4194304" "PAGE_TABLE_INDEX v = unat v div 4096 mod 1024"
proof -
  have "unat v div 4194304 < 1024" using unat_less_2p32 [of v] by (simp add: div_less_iff_less_mult)
  then show "PAGE_DIR_INDEX v = unat v div 4194304"
    by (simp add: PAGE_DIR_INDEX_def unat_and_1023 unat_drop_bit_u32)
  show "PAGE_TABLE_INDEX v = unat v div 4096 mod 1024"
    by (simp add: PAGE_TABLE_INDEX_def unat_and_1023 unat_drop_bit_u32)
qed

lemma index_frame: "of_nat (PAGE_DIR_INDEX v) * 0x400000 + of_nat (PAGE_TABLE_INDEX v) * 0x1000 = PAGE_FRAME v"
proof -
  define x where "x = unat v div 4096"
  have "unat v div 4194304 = x div 1024" by (simp add: x_def div_mult2_eq [symmetric])
  then have idx: "PAGE_DIR_INDEX v = x div 1024" "PAGE_TABLE_INDEX v = x mod 1024"
    unfolding index_unat x_def by simp_all
  have "x div 1024 * 4194304 + x mod 1024 * 4096 = x * 4096"
    using div_mult_mod_eq [of x 1024] by linarith
  then have "unat (of_nat (x div 1024 * 4194304 + x mod 1024 * 4096) :: u32) = unat (PAGE_FRAME v)"
    unfolding unat_PAGE_FRAME x_def [symmetric]
    using unat_less_2p32 [of "PAGE_FRAME v"] unfolding unat_PAGE_FRAME x_def [symmetric]
    by (simp only: unat_of_nat_u32)
  then have "of_nat (x div 1024 * 4194304 + x mod 1024 * 4096) = PAGE_FRAME v" by (simp only: u32_eq_iff_unat)
  then show ?thesis unfolding idx by simp
qed

lemma entry_fill_table:
  assumes "page_aligned pt" "page_aligned t" "i < 1024"
  shows "entry (fill_table pt base m) t i =
    (if t = pt then (base + of_nat i * 0x1000) OR PAGE_PRESENT OR PAGE_WRITABLE else entry m t i)"
proof -
  have "entry (fold (\<lambda>j. set_entry pt j ((base + of_nat j * 0x1000) OR PAGE_PRESENT OR PAGE_WRITABLE)) [0..<n] m) t i =
    (if t = pt \<and> i < n then (base + of_nat i * 0x1000) OR PAGE_PRESENT OR PAGE_WRITABLE else entry m t i)"
    if "n \<le> 1024" for n
    using that by (induction n) (use assms in \<open>auto simp: entry_set_entry\<close>)
  from this [of 1024] show ?thesis using assms(3) by (simp add: fill_table_def del: upt_Suc)
qed

text \<open>The state of the initialisation loop after \<open>k\<close> tables.\<close>

definition ident_pte :: "nat \<Rightarrow> nat \<Rightarrow> u32" where
  "ident_pte i j = (of_nat i * 0x400000 + of_nat j * 0x1000) OR PAGE_PRESENT OR PAGE_WRITABLE"

definition ident :: "nat \<Rightarrow> vm \<Rightarrow> bool" where
  "ident k s \<longleftrightarrow> vm_inv s \<and>
     (\<forall>i < 1024. if i < k then entry (mem s) (kernel_directory s) i = pd_tables s ! i OR PAGE_PRESENT OR PAGE_WRITABLE \<and>
          page_aligned (pd_tables s ! i) \<and> (\<forall>j < 1024. entry (mem s) (pd_tables s ! i) j = ident_pte i j)
        else entry (mem s) (kernel_directory s) i = 0)"

definition add_table :: "nat \<Rightarrow> u32 \<Rightarrow> vm \<Rightarrow> vm" where
  "add_table k a s =
     s\<lparr>mem := set_entry (kernel_directory s) k (a OR PAGE_PRESENT OR PAGE_WRITABLE) (fill_table a (of_nat k * 0x400000) (mem s)),
       pd_tables := (pd_tables s)[k := a]\<rparr>"

lemma ident_step:
  assumes "ident k s" "k < 1024" "page_aligned a" "a \<noteq> 0" "fno a \<notin> used s"
    and s1: "s1 = s\<lparr>frames := frames s1\<rparr>" "frames_ok s1" "used s1 = insert (fno a) (used s)"
  shows "ident (Suc k) (add_table k a s1)"
proof -
  let ?d = "kernel_directory s" and ?s = "add_table k a s1"
  have inv: "vm_inv s" using assms(1) by (simp add: ident_def)
  note d = vm_invD [OF inv]
  have ad: "a \<noteq> ?d" using d(3) assms(5) by auto
  have old: "if i < k then entry (mem s) ?d i = pd_tables s ! i OR PAGE_PRESENT OR PAGE_WRITABLE \<and>
      page_aligned (pd_tables s ! i) \<and> (\<forall>j < 1024. entry (mem s) (pd_tables s ! i) j = ident_pte i j)
      else entry (mem s) ?d i = 0" if "i < 1024" for i using assms(1) that by (simp add: ident_def)
  have keep: "kernel_directory ?s = ?d" "pd_tables ?s = (pd_tables s)[k := a]" "used ?s = insert (fno a) (used s)"
    "frames_ok ?s" "pd_physical_address ?s = pd_physical_address s"
    "mem ?s = set_entry ?d k (a OR PAGE_PRESENT OR PAGE_WRITABLE) (fill_table a (of_nat k * 0x400000) (mem s))"
    using s1(2,3) by (simp_all add: add_table_def used_def frames_ok_def) (subst s1(1), simp)+
  have ent: "entry (mem ?s) t i = (if t = ?d \<and> i = k then a OR PAGE_PRESENT OR PAGE_WRITABLE
      else if t = a then ident_pte k i else entry (mem s) t i)" if "page_aligned t" "i < 1024" for t i
    using that d(2) assms(2,3) ad unfolding keep(6)
    by (auto simp: entry_set_entry entry_fill_table ident_pte_def)
  have tab: "pd_tables s ! i = PAGE_FRAME (entry (mem s) ?d i) \<and> pd_tables s ! i \<noteq> 0 \<and> fno (pd_tables s ! i) \<in> used s \<and> pd_tables s ! i \<noteq> ?d"
    if "i < k" for i
  proof -
    have i: "i < 1024" "present (entry (mem s) ?d i)"
      using that assms(2) old [of i] new_pde(4) by simp_all
    then show ?thesis using inv unfolding vm_inv_def dir_ok_def by metis
  qed
  have slot: "if i < k then entry (mem ?s) ?d i = pd_tables s ! i OR PAGE_PRESENT OR PAGE_WRITABLE
      else if i = k then entry (mem ?s) ?d i = a OR PAGE_PRESENT OR PAGE_WRITABLE else entry (mem ?s) ?d i = 0"
    if "i < 1024" for i
    using ent [OF d(2) that] old [OF that] ad by auto
  have pres: "present (entry (mem ?s) ?d i) \<longleftrightarrow> i \<le> k" if "i < 1024" for i
    using slot [OF that] old [OF that] assms(3) new_pde(4) by (auto split: if_splits)
  have frame: "PAGE_FRAME (entry (mem ?s) ?d i) = (pd_tables s)[k := a] ! i" if "i \<le> k" for i
    using slot [of i] old [of i] that assms(2,3) new_pde(3) d(4) by (auto split: if_splits)
  have nth: "(pd_tables s)[k := a] ! i = (if i = k then a else pd_tables s ! i)" if "i \<le> k" for i
    using that assms(2) d(4) by simp
  have "dir_ok (mem ?s) ?d (used ?s)"
    unfolding dir_ok_def
  proof (intro conjI allI impI)
    fix i assume i: "i < 1024" "present (entry (mem ?s) ?d i)"
    then have ik: "i \<le> k" using pres by blast
    show "fno (PAGE_FRAME (entry (mem ?s) ?d i)) \<in> used ?s" "PAGE_FRAME (entry (mem ?s) ?d i) \<noteq> ?d"
      using frame [OF ik] nth [OF ik] tab [of i] ik keep(3) ad by (cases "i = k"; auto)+
    fix j assume "j < 1024" and j: "present (entry (mem ?s) ?d j) \<and> PAGE_FRAME (entry (mem ?s) ?d j) = PAGE_FRAME (entry (mem ?s) ?d i)"
    then have jk: "j \<le> k" using pres by blast
    show "i = j"
    proof (rule ccontr)
      assume ne: "i \<noteq> j"
      have eq: "(if j = k then a else pd_tables s ! j) = (if i = k then a else pd_tables s ! i)"
        using j frame [OF ik] frame [OF jk] nth [OF ik] nth [OF jk] by simp
      consider "i = k" "j < k" | "j = k" "i < k" | "i < k" "j < k" using ne ik jk by linarith
      then show False
      proof cases
        case 3
        then have "present (entry (mem s) ?d i)" "present (entry (mem s) ?d j)"
          using old [of i] old [of j] assms(2) new_pde(4) by simp_all
        moreover have "PAGE_FRAME (entry (mem s) ?d j) = PAGE_FRAME (entry (mem s) ?d i)" using eq tab 3 by simp
        ultimately show False using dir_ok_inj [OF d(5), of i j] 3 assms(2) ne by simp
      qed (use eq tab [THEN conjunct2, THEN conjunct2, THEN conjunct1] assms(5) in force)+
    qed
  qed (use d(2,3) keep(3) in simp_all)
  moreover have "pd_tables ?s ! i = PAGE_FRAME (entry (mem ?s) ?d i) \<and> pd_tables ?s ! i \<noteq> 0"
    if "i < 1024" "present (entry (mem ?s) ?d i)" for i
    using frame [of i] nth [of i] tab [of i] assms(4) pres [OF that(1)] that(2) keep(2) by (cases "i = k") auto
  moreover have "kernel_directory s \<noteq> 0" "pd_physical_address ?s = kernel_directory ?s" "length (pd_tables ?s) = 1024"
    using inv by (simp_all add: vm_inv_def keep(1,2,5))
  ultimately have "vm_inv ?s" using keep(4) by - (rule vm_invI; unfold keep(1); blast)
  moreover have "entry (mem ?s) ?d i = pd_tables ?s ! i OR PAGE_PRESENT OR PAGE_WRITABLE \<and>
      page_aligned (pd_tables ?s ! i) \<and> (\<forall>j < 1024. entry (mem ?s) (pd_tables ?s ! i) j = ident_pte i j)"
    if "i < 1024" "i < Suc k" for i
  proof (cases "i = k")
    case True
    then show ?thesis using slot [OF that(1)] nth [of k] ent [OF assms(3)] ad assms(3) keep(2) by simp
  next
    case False
    then have ik: "i < k" using that(2) by simp
    define t where "t = pd_tables s ! i"
    have t: "t \<noteq> a" "t \<noteq> ?d" using tab [OF ik] assms(5) by (auto simp: t_def)
    have al: "page_aligned t" "\<forall>j < 1024. entry (mem s) t j = ident_pte i j"
      using old [OF that(1)] ik by (simp_all add: t_def)
    have "entry (mem ?s) t j = ident_pte i j" if "j < 1024" for j
      using ent [OF al(1) that] al(2) that t by simp
    moreover have "entry (mem ?s) ?d i = t OR PAGE_PRESENT OR PAGE_WRITABLE"
      using slot [OF that(1)] ik by (simp add: t_def)
    moreover have "pd_tables ?s ! i = t" using ik keep(2) by (simp add: t_def)
    ultimately show ?thesis using al(1) by simp
  qed
  moreover have "entry (mem ?s) ?d i = 0" if "i < 1024" "\<not> i < Suc k" for i
    using slot [OF that(1)] that(2) by simp
  ultimately show ?thesis unfolding ident_def keep(1) by simp
qed

lemma used_finite: "finite (used s)" "used s \<subseteq> {..<4096}"
  by (auto simp: used_def used_set_def)

lemma identity_tables_ident:
  assumes "ident k s" "card (used s) + (n - k) \<le> 4096" "k \<le> n" "n \<le> 1024"
  shows "\<exists>s'. identity_tables [k..<n] s = (True, s') \<and> ident n s' \<and> kernel_directory s' = kernel_directory s \<and>
    interrupt_handlers s' = interrupt_handlers s \<and> cr0 s' = cr0 s \<and> card (used s') = card (used s) + (n - k)"
  using assms
proof (induction "n - k" arbitrary: k s)
  case 0
  then show ?case by simp
next
  case (Suc l)
  then have k: "k < n" "l = n - Suc k" by simp_all
  have inv: "vm_inv s" using Suc.prems(1) by (simp add: ident_def)
  from vm_invD(1) [OF inv] show ?case
  proof (cases rule: vm_alloc_cases)
    case fail
    then have "card (used s) = 4096" by simp
    then show ?thesis using Suc.prems(2) k(1) by simp
  next
    case (ok a s1)
    have keep: "kernel_directory s1 = kernel_directory s" "mem s1 = mem s" "pd_tables s1 = pd_tables s"
      "interrupt_handlers s1 = interrupt_handlers s" "cr0 s1 = cr0 s" by (subst ok(8), simp)+
    have step: "identity_tables [k..<n] s = identity_tables [Suc k..<n] (add_table k a s1)"
      using ok(1,2) k(1) by (simp add: upt_conv_Cons add_table_def)
    have "ident (Suc k) (add_table k a s1)"
      using ident_step [OF Suc.prems(1) _ ok(3,2,4,8,7,6)] k(1) Suc.prems(4) by simp
    moreover have "used (add_table k a s1) = insert (fno a) (used s)"
      using ok(6) by (simp add: add_table_def used_def)
    then have c: "card (used (add_table k a s1)) = Suc (card (used s))"
      using ok(4) used_finite(1) [of s] by simp
    then have "card (used (add_table k a s1)) + (n - Suc k) \<le> 4096" using Suc.prems(2) k(1) by simp
    ultimately obtain s' where "identity_tables [Suc k..<n] (add_table k a s1) = (True, s') \<and> ident n s' \<and>
      kernel_directory s' = kernel_directory (add_table k a s1) \<and>
      interrupt_handlers s' = interrupt_handlers (add_table k a s1) \<and> cr0 s' = cr0 (add_table k a s1) \<and>
      card (used s') = card (used (add_table k a s1)) + (n - Suc k)"
      using Suc.hyps(1) [OF k(2)] k(1) Suc.prems(4) by (metis Suc_leI)
    then show ?thesis unfolding step using c k(1) by (simp add: keep add_table_def)
  qed
qed

text \<open>With four identity tables the processor maps every address below 16 MB to itself.\<close>

lemma ident_walk:
  assumes "ident 4 s"
  shows "walk (mem s) (kernel_directory s) v = (if unat v < 0x1000000 then Some (v, PAGE_WRITABLE) else None)"
proof (cases "unat v < 0x1000000")
  case False
  then have "\<not> PAGE_DIR_INDEX v < 4" by (simp add: index_unat less_eq_div_iff_mult_less_eq not_less)
  then have "entry (mem s) (kernel_directory s) (PAGE_DIR_INDEX v) = 0"
    using assms index_less(1) [of v] unfolding ident_def by metis
  then show ?thesis using False by (simp add: walk_def)
next
  case True
  let ?i = "PAGE_DIR_INDEX v" and ?j = "PAGE_TABLE_INDEX v"
  define t where "t = pd_tables s ! ?i"
  have "?i < 4" using True by (simp add: index_unat div_less_iff_less_mult)
  then have e: "entry (mem s) (kernel_directory s) ?i = t OR PAGE_PRESENT OR PAGE_WRITABLE" "page_aligned t"
    "entry (mem s) t ?j = PAGE_FRAME v OR PAGE_PRESENT OR PAGE_WRITABLE"
    using assms index_less [of v] unfolding ident_def t_def ident_pte_def index_frame [symmetric] by metis+
  have "PAGE_FRAME (PAGE_FRAME v OR PAGE_PRESENT OR PAGE_WRITABLE) = PAGE_FRAME v"
    "present (PAGE_FRAME v OR PAGE_PRESENT OR PAGE_WRITABLE)"
    using new_pde(3,4) [OF page_aligned_PAGE_FRAME] by simp_all
  moreover have "(t OR PAGE_PRESENT OR PAGE_WRITABLE) AND (PAGE_FRAME v OR PAGE_PRESENT OR PAGE_WRITABLE) AND
      (PAGE_WRITABLE OR PAGE_USER) = PAGE_WRITABLE"
  proof (rule bit_word_eqI)
    fix n
    have six: "(PAGE_WRITABLE OR PAGE_USER) = 6" "is_flags 6" by simp_all
    have "bit (6 :: u32) n \<longleftrightarrow> n = 1 \<or> n = 2" "bit (PAGE_WRITABLE :: u32) n \<longleftrightarrow> n = 1" "bit (PAGE_PRESENT :: u32) n \<longleftrightarrow> n = 0"
      by (auto simp: bit_numeral_rec(1) bit_numeral_rec(2) bit_1_iff numeral_eq_Suc split: nat.splits)
    then show "bit ((t OR PAGE_PRESENT OR PAGE_WRITABLE) AND (PAGE_FRAME v OR PAGE_PRESENT OR PAGE_WRITABLE) AND
      (PAGE_WRITABLE OR PAGE_USER)) n = bit (PAGE_WRITABLE :: u32) n"
      unfolding six(1) using e(2) by (auto simp: bit_simps page_aligned_iff bit_PAGE_FRAME)
  qed
  ultimately show ?thesis
    using True e new_pde(3,4) [OF e(2)] frame_or_offset [of v] by (simp add: walk_def Let_def)
qed

lemma paging_init_ident:
  assumes "frames_ok s" "card (used s) + 5 \<le> 4096"
  shows "\<exists>s4. ident 4 s4 \<and> card (used s4) = card (used s) + 5 \<and> kernel_directory s4 \<noteq> 0 \<and> interrupt_handlers s4 = interrupt_handlers s \<and> cr0 s4 = cr0 s \<and>
    paging_init s = s4\<lparr>interrupt_handlers := register_interrupt_handler 14 Page_fault_handler (interrupt_handlers s),
                      cr3 := kernel_directory s4, cr0 := cr0 s OR 0x80000000\<rparr>"
  using assms(1)
proof (cases rule: vm_alloc_cases)
  case fail
  then have "card (used s) = 4096" by simp
  then show ?thesis using assms(2) by simp
next
  case (ok a s1)
  define s2 where "s2 = s1\<lparr>kernel_directory := a, mem := memset a 0 4096 (mem s1),
      pd_tables := replicate 1024 0, pd_physical_address := a\<rparr>"
  have keep: "interrupt_handlers s2 = interrupt_handlers s" "cr0 s2 = cr0 s" "kernel_directory s2 = a"
    "used s2 = insert (fno a) (used s)" "frames_ok s2"
    using ok(6,7) by (simp_all add: s2_def used_def frames_ok_def) (subst ok(8), simp)+
  have zero: "entry (mem s2) a i = 0" if "i < 1024" for i
    using that ok(3) by (simp add: s2_def entry_memset_page)
  have "dir_ok (mem s2) (kernel_directory s2) (used s2)"
    using zero ok(3) keep(3,4) by (simp add: dir_ok_def)
  then have "vm_inv s2"
    using keep ok(2) zero by (intro vm_invI) (simp_all add: s2_def)
  then have "ident 0 s2" using zero by (simp add: ident_def keep(3))
  moreover have "card (used s2) + (4 - 0) \<le> 4096"
    using assms(2) ok(4) used_finite(1) [of s] by (simp add: keep(4))
  ultimately obtain s4 where s4: "identity_tables [0..<4] s2 = (True, s4)" "ident 4 s4" "kernel_directory s4 = a"
    "interrupt_handlers s4 = interrupt_handlers s" "cr0 s4 = cr0 s" "card (used s4) = card (used s) + 5"
    using used_finite(1) [of s] ok(4) identity_tables_ident [of 0 s2 4] keep by auto
  then have "paging_init s = s4\<lparr>interrupt_handlers := register_interrupt_handler 14 Page_fault_handler (interrupt_handlers s),
                      cr3 := a, cr0 := cr0 s OR 0x80000000\<rparr>"
    using ok(1,2) by (simp add: paging_init_def s2_def [symmetric] del: upt_rec_numeral)
  then show ?thesis using s4 ok(2) by blast
qed

section \<open>Properties\<close>

text \<open>(C27) After \<^verbatim>\<open>paging_init\<close> (with at least five free frames) the loaded directory maps every address below 16 MB
  to itself, writable and supervisor only, and nothing above; paging is enabled, the page-fault handler is
  installed, and the directory, its tables and the frame bitmap are consistent.\<close>

theorem paging_init_identity:
  assumes "frames_ok s" "card (used s) + 5 \<le> 4096" "length (interrupt_handlers s) = 256"
  shows "let s' = paging_init s in
    vm_inv s' \<and> cr3 s' = kernel_directory s' \<and> paging_get_kernel_cr3 s' = cr3 s' \<and> bit (cr0 s') 31 \<and>
    interrupt_handlers s' ! 14 = Some Page_fault_handler \<and>
    (\<forall>v. walk (mem s') (cr3 s') v = (if unat v < 0x1000000 then Some (v, PAGE_WRITABLE) else None))"
proof -
  obtain s4 where s4: "ident 4 s4" "kernel_directory s4 \<noteq> 0" and
    s': "paging_init s = s4\<lparr>interrupt_handlers := register_interrupt_handler 14 Page_fault_handler (interrupt_handlers s),
                      cr3 := kernel_directory s4, cr0 := cr0 s OR 0x80000000\<rparr>"
    using paging_init_ident [OF assms(1,2)] by blast
  have inv: "vm_inv s4" using s4(1) by (simp add: ident_def)
  have "vm_inv (paging_init s)"
    using inv by (rule vm_inv_cong) (simp_all add: s')
  moreover have "bit (cr0 s OR 0x80000000) 31" by (simp add: bit_simps)
  ultimately show ?thesis
    using ident_walk [OF s4(1)] inv assms(3) unfolding s'
    by (simp add: Let_def register_interrupt_handler_def paging_get_kernel_cr3_def vm_inv_def)
qed

text \<open>The state the kernel is in when it calls \<^verbatim>\<open>paging_init\<close>: only the physical memory manager is set up.\<close>

definition boot_vm :: vm where
  "boot_vm = \<lparr>frames = pmm_init, mem = (\<lambda>_. 0), kernel_directory = 0, pd_tables = replicate 1024 0, pd_physical_address = 0,
     cr3 = 0, cr0 = 1, interrupt_handlers = replicate 256 None, con = []\<rparr>"

lemma card_used_pmm_init: "card (used_set pmm_init) = 769"
proof -
  have "card (used_set pmm_init) = card {..<513 :: nat} + card {3840..<4096 :: nat}"
    unfolding pmm_init_inv(2) by (rule card_Un_disjoint) auto
  then show ?thesis by simp
qed

lemma boot_vm_ok: "frames_ok boot_vm" "card (used boot_vm) = 769" "length (interrupt_handlers boot_vm) = 256"
  using pmm_init_inv card_used_pmm_init by (simp_all add: frames_ok_def used_def boot_vm_def)

theorem paging_init_identity_witness:
  "let s = paging_init boot_vm in vm_inv s \<and> walk (mem s) (cr3 s) 0xB8000 = Some (0xB8000, PAGE_WRITABLE) \<and>
     walk (mem s) (cr3 s) 0x1000000 = None"
proof -
  let ?s = "paging_init boot_vm"
  have "card (used boot_vm) + 5 \<le> 4096" using boot_vm_ok(2) by simp
  from paging_init_identity [OF boot_vm_ok(1) this boot_vm_ok(3)]
  have inv: "vm_inv ?s" and w: "\<And>v. walk (mem ?s) (cr3 ?s) v = (if unat v < 0x1000000 then Some (v, PAGE_WRITABLE) else None)"
    unfolding Let_def by blast+
  show ?thesis unfolding Let_def using inv w [of "0xB8000"] w [of "0x1000000"] by simp
qed

text \<open>(C17) \<^verbatim>\<open>paging_map_page\<close> maps exactly the page it is given: provided the slot has a table or a frame is free for one,
  the invariant is kept, \<^verbatim>\<open>paging_translate\<close> of an address of the page returns the frame with the
  address's offset, and the translation of every other page is unchanged; without a free frame nothing is mapped.\<close>

theorem paging_map_page_exact:
  assumes "vm_inv s"
  defines "kd \<equiv> kernel_directory s"
  shows "let s' = paging_map_page virt phys flags s in vm_inv s' \<and>
    (if present (entry (mem s) kd (PAGE_DIR_INDEX virt)) \<or> used s \<noteq> {..<4096}
     then \<forall>v. paging_translate v s' = (if same_page v virt then PAGE_FRAME phys OR (v AND 0xFFF) else paging_translate v s)
     else mem s' = mem s \<and> used s' = used s \<and> (\<forall>v. paging_translate v s' = paging_translate v s))"
proof (cases "present (entry (mem s) kd (PAGE_DIR_INDEX virt)) \<or> used s \<noteq> {..<4096}")
  case True
  note eff = paging_map_page_effect [OF assms(1) True [unfolded kd_def], of phys flags]
  show ?thesis
    unfolding Let_def if_P [OF True] paging_translate_walk [OF eff(1)] paging_translate_walk [OF assms(1)] eff(2,3)
    using eff(1) by simp
next
  case False
  let ?s = "vm_print (''paging_map_page: out of memory for page table'' @ [CHR 0x0A]) s"
  have s': "paging_map_page virt phys flags s = ?s"
    using assms(1)
  proof (cases rule: paging_map_page_cases [of s virt phys flags])
    case (map table s')
    have "fno table \<in> used s'" "fno table \<notin> used s" using map(4,7) False by (auto simp: kd_def)
    then show ?thesis using used_finite(2) [of s'] False by blast
  qed
  have "vm_inv ?s" using assms(1) by (rule vm_inv_cong) (simp_all add: vm_print_def)
  moreover have "paging_translate v ?s = paging_translate v s" for v
    by (simp add: paging_translate_def vm_print_def Let_def)
  ultimately show ?thesis
    unfolding Let_def if_not_P [OF False] s' by (simp add: vm_print_def used_def)
qed

lemma paging_init_boot:
  "vm_inv (paging_init boot_vm)" "present (entry (mem (paging_init boot_vm)) (kernel_directory (paging_init boot_vm)) 0)"
  "card (used (paging_init boot_vm)) = 774"
proof -
  obtain s4 where s4: "ident 4 s4" "card (used s4) = 774" and s': "paging_init boot_vm = s4\<lparr>interrupt_handlers :=
      register_interrupt_handler 14 Page_fault_handler (interrupt_handlers boot_vm),
      cr3 := kernel_directory s4, cr0 := cr0 boot_vm OR 0x80000000\<rparr>"
    using paging_init_ident [OF boot_vm_ok(1)] boot_vm_ok(2) by auto
  from s4(1) have "vm_inv s4" by (simp add: ident_def)
  then show "vm_inv (paging_init boot_vm)" by (rule vm_inv_cong) (simp_all add: s')
  show "card (used (paging_init boot_vm)) = 774" using s4(2) by (simp add: s' used_def)
  have "entry (mem s4) (kernel_directory s4) 0 = pd_tables s4 ! 0 OR PAGE_PRESENT OR PAGE_WRITABLE"
    "page_aligned (pd_tables s4 ! 0)"
    using s4(1) unfolding ident_def by (metis zero_less_numeral)+
  then show "present (entry (mem (paging_init boot_vm)) (kernel_directory (paging_init boot_vm)) 0)"
    using new_pde(4) by (simp add: s')
qed

theorem paging_map_page_exact_witness:
  "let s = paging_init boot_vm; s' = paging_map_page 0x5678 0x9000 3 s
   in vm_inv s' \<and> paging_translate 0x5678 s' = 0x9678"
proof -
  have "PAGE_DIR_INDEX 0x5678 = 0" by (simp add: index_unat)
  moreover have "same_page 0x5678 0x5678" by (simp add: same_page_def)
  moreover have "PAGE_FRAME 0x9000 OR (0x5678 AND 0xFFF) = 0x9678" by (simp add: PAGE_FRAME_def)
  ultimately show ?thesis
    using paging_map_page_exact [OF paging_init_boot(1), of "0x5678" "0x9000" 3] paging_init_boot(2) by (simp add: Let_def)
qed

text \<open>(C31) Unmapping undoes mapping: \<^verbatim>\<open>paging_unmap_page\<close> removes exactly the page of its argument, frees no
  frame, and unmapping a page that was not mapped before it was mapped restores every translation.\<close>

theorem paging_unmap_page_exact:
  assumes "vm_inv s"
  shows "let s' = paging_unmap_page virt s in vm_inv s' \<and> used s' = used s \<and>
    (\<forall>v. paging_translate v s' = (if same_page v virt then 0 else paging_translate v s)) \<and>
    (\<forall>phys flags. paging_translate virt s = 0 \<and> used s \<noteq> {..<4096} \<and> (\<forall>v. same_page v virt \<longrightarrow> paging_translate v s = 0) \<longrightarrow>
       (\<forall>v. paging_translate v (paging_unmap_page virt (paging_map_page virt phys flags s)) = paging_translate v s))"
proof -
  have un: "paging_translate v (paging_unmap_page w t) = (if same_page v w then 0 else paging_translate v t)"
    if "vm_inv t" for v w t
    using paging_unmap_page_effect [OF that, of w]
    unfolding paging_translate_walk [OF that] paging_translate_walk [OF paging_unmap_page_effect(1) [OF that]]
    by (simp add: xlate_def)
  have "paging_translate v (paging_unmap_page virt (paging_map_page virt phys flags s)) = paging_translate v s"
    if "used s \<noteq> {..<4096}" "\<forall>v. same_page v virt \<longrightarrow> paging_translate v s = 0" for phys flags v
  proof -
    have room: "present (entry (mem s) (kernel_directory s) (PAGE_DIR_INDEX virt)) \<or> used s \<noteq> {..<4096}" using that(1) by blast
    note eff = paging_map_page_effect [OF assms room, of phys flags]
    show ?thesis
      using that(2) unfolding un [OF eff(1)] paging_translate_walk [OF eff(1)] paging_translate_walk [OF assms] eff(2,3)
      by auto
  qed
  then show ?thesis using paging_unmap_page_effect(1,3) [OF assms, of virt] un [OF assms] by (simp add: Let_def)
qed

theorem paging_unmap_page_exact_witness:
  "let s = paging_init boot_vm in paging_translate 0x5678 (paging_unmap_page 0x5000 s) = 0 \<and>
     paging_translate 0x6678 (paging_unmap_page 0x5000 s) = paging_translate 0x6678 s"
proof -
  have "same_page 0x5678 0x5000" "\<not> same_page 0x6678 0x5000" by (simp_all add: same_page_def index_unat)
  then show ?thesis using paging_unmap_page_exact [OF paging_init_boot(1), of "0x5000"] by (simp add: Let_def)
qed

end
