(* ===== verification/Address_Spaces.thy ===== *)
theory Address_Spaces
  imports Paging_Props
begin

text \<open>
  The address spaces of processes: \<^verbatim>\<open>paging_clone_directory\<close>, \<^verbatim>\<open>paging_map_page_in\<close> and
  \<^verbatim>\<open>paging_free_directory\<close>.  A process directory owns itself, its private copy of the first page table and its
  tables from slot 4 on; slots 1 to 3 are the kernel's tables.  \<open>spaces_inv s D\<close> says that the directories \<open>D\<close>
  of the live processes own disjoint pages, apart from the kernel's.  It is what makes the spaces isolated.
\<close>

section \<open>Ownership\<close>

definition own_slot :: "nat \<Rightarrow> bool" where
  "own_slot i \<longleftrightarrow> i < 1024 \<and> (i = 0 \<or> KERNEL_PDE_COUNT \<le> i)"

definition owned :: "pmem \<Rightarrow> u32 \<Rightarrow> u32 set" where
  "owned m d = insert d {PAGE_FRAME (entry m d i) | i. own_slot i \<and> present (entry m d i)}"

definition kernel_pages :: "vm \<Rightarrow> u32 set" where
  "kernel_pages s = insert (kernel_directory s)
     {PAGE_FRAME (entry (mem s) (kernel_directory s) i) | i. i < 1024 \<and> present (entry (mem s) (kernel_directory s) i)}"

text \<open>The frames mapped by the tables of the user range.\<close>

definition leaves :: "pmem \<Rightarrow> u32 \<Rightarrow> u32 set" where
  "leaves m d = {PAGE_FRAME (entry m (PAGE_FRAME (entry m d i)) j) | i j.
     KERNEL_PDE_COUNT \<le> i \<and> i < 1024 \<and> present (entry m d i) \<and> j < 1024 \<and> present (entry m (PAGE_FRAME (entry m d i)) j)}"

definition shares_kernel :: "vm \<Rightarrow> u32 \<Rightarrow> bool" where
  "shares_kernel s d \<longleftrightarrow> (\<forall>i \<in> {1..<KERNEL_PDE_COUNT}.
     (present (entry (mem s) d i) \<longleftrightarrow> present (entry (mem s) (kernel_directory s) i)) \<and>
     PAGE_FRAME (entry (mem s) d i) = PAGE_FRAME (entry (mem s) (kernel_directory s) i))"

definition space_ok :: "vm \<Rightarrow> u32 \<Rightarrow> bool" where
  "space_ok s d \<longleftrightarrow> d \<noteq> 0 \<and> dir_ok (mem s) d (used s) \<and> shares_kernel s d \<and> owned (mem s) d \<inter> kernel_pages s = {}"

definition spaces_inv :: "vm \<Rightarrow> u32 set \<Rightarrow> bool" where
  "spaces_inv s D \<longleftrightarrow> vm_inv s \<and> present (entry (mem s) (kernel_directory s) 0) \<and> (\<forall>d \<in> D. space_ok s d) \<and>
     (\<forall>d \<in> D. \<forall>d' \<in> D. d \<noteq> d' \<longrightarrow> owned (mem s) d \<inter> owned (mem s) d' = {})"

lemma spaces_invD:
  assumes "spaces_inv s D"
  shows "vm_inv s" "present (entry (mem s) (kernel_directory s) 0)" "\<And>d. d \<in> D \<Longrightarrow> space_ok s d"
    "\<And>d d'. d \<in> D \<Longrightarrow> d' \<in> D \<Longrightarrow> d \<noteq> d' \<Longrightarrow> owned (mem s) d \<inter> owned (mem s) d' = {}"
  using assms unfolding spaces_inv_def by blast+

lemma owned_self [simp]: "d \<in> owned m d"
  by (simp add: owned_def)

lemma slot_cases: "i < 1024 \<Longrightarrow> own_slot i \<or> i \<in> {1..<KERNEL_PDE_COUNT}"
  by (auto simp: own_slot_def)

text \<open>Every page a process walk can read is its own or the kernel's, and all are in use.\<close>

lemma space_tables:
  assumes "space_ok s d" "i < 1024" "present (entry (mem s) d i)"
  shows "PAGE_FRAME (entry (mem s) d i) \<in> owned (mem s) d \<union> kernel_pages s"
  using slot_cases [OF assms(2)]
proof
  assume "own_slot i"
  then show ?thesis using assms(3) by (auto simp: owned_def)
next
  assume "i \<in> {1..<KERNEL_PDE_COUNT}"
  then show ?thesis using assms by (auto simp: space_ok_def shares_kernel_def kernel_pages_def)
qed

lemma dir_ok_self: "dir_ok m d us \<Longrightarrow> page_aligned d \<and> fno d \<in> us"
  by (simp add: dir_ok_def)

lemma owned_used:
  assumes "space_ok s d" "t \<in> owned (mem s) d"
  shows "fno t \<in> used s \<and> page_aligned t"
proof -
  have ok: "dir_ok (mem s) d (used s)" using assms(1) by (simp add: space_ok_def)
  from assms(2) consider "t = d" | i where "i < 1024" "present (entry (mem s) d i)" "t = PAGE_FRAME (entry (mem s) d i)"
    by (auto simp: owned_def own_slot_def)
  then show ?thesis using dir_ok_self [OF ok] dir_ok_slot [OF ok] by cases simp_all
qed

lemma kernel_pages_used: "vm_inv s \<Longrightarrow> t \<in> kernel_pages s \<Longrightarrow> fno t \<in> used s \<and> page_aligned t"
  using dir_ok_slot [OF vm_invD(5)] vm_invD(2,3) by (auto simp: kernel_pages_def)

section \<open>Operations that write to a few pages\<close>

text \<open>\<open>same_outside W m m'\<close>: every page outside \<open>W\<close> keeps its entries.\<close>

definition same_outside :: "u32 set \<Rightarrow> pmem \<Rightarrow> pmem \<Rightarrow> bool" where
  "same_outside W m m' \<longleftrightarrow> (\<forall>t i. page_aligned t \<and> t \<notin> W \<and> i < 1024 \<longrightarrow> entry m' t i = entry m t i)"

lemma walk_outside:
  assumes "same_outside W m m'" "page_aligned d" "d \<notin> W"
    and "\<And>i. i < 1024 \<Longrightarrow> present (entry m d i) \<Longrightarrow> PAGE_FRAME (entry m d i) \<notin> W"
  shows "walk m' d v = walk m d v"
  using assms index_less [of v] unfolding same_outside_def by (intro walk_cong) auto

lemma owned_outside:
  "same_outside W m m' \<Longrightarrow> page_aligned d \<Longrightarrow> d \<notin> W \<Longrightarrow> owned m' d = owned m d"
  unfolding same_outside_def owned_def own_slot_def by (metis (no_types, lifting))

lemma dir_ok_outside:
  assumes "same_outside W m m'" "d \<notin> W" "dir_ok m d us" "us \<subseteq> us'"
  shows "dir_ok m' d us'"
proof -
  have e: "entry m' d i = entry m d i" if "i < 1024" for i
    using assms(1-3) that by (simp add: same_outside_def dir_ok_def)
  show ?thesis using assms(3,4) unfolding dir_ok_def by (simp add: e) blast
qed

text \<open>
  The frame rule of the module: an operation that only writes pages outside a space and the kernel leaves
  both as they were.
\<close>

lemma kernel_frame:
  assumes inv: "vm_inv s" and out: "same_outside W (mem s) (mem s')" "W \<inter> kernel_pages s = {}"
    and keep: "kernel_directory s' = kernel_directory s" "pd_tables s' = pd_tables s"
      "pd_physical_address s' = pd_physical_address s" "frames_ok s'" "used s \<subseteq> used s'"
  shows "vm_inv s'" "kernel_pages s' = kernel_pages s"
    "walk (mem s') (kernel_directory s) v = walk (mem s) (kernel_directory s) v"
    "\<And>i. i < 1024 \<Longrightarrow> entry (mem s') (kernel_directory s) i = entry (mem s) (kernel_directory s) i"
proof -
  let ?d = "kernel_directory s"
  have d: "page_aligned ?d" "?d \<notin> W" using vm_invD(2) [OF inv] out(2) by (auto simp: kernel_pages_def)
  show e: "entry (mem s') ?d i = entry (mem s) ?d i" if "i < 1024" for i
    using out(1) d that by (simp add: same_outside_def)
  have "dir_ok (mem s') ?d (used s')" by (rule dir_ok_outside [OF out(1) d(2) vm_invD(5) [OF inv] keep(5)])
  then show "vm_inv s'"
    using inv e keep by - (rule vm_invI; unfold keep; auto simp: vm_inv_def)
  show "kernel_pages s' = kernel_pages s"
    unfolding kernel_pages_def keep(1) using e by (metis (no_types, lifting))
  show "walk (mem s') ?d v = walk (mem s) ?d v"
    using out d by (intro walk_outside [OF out(1) d]) (auto simp: kernel_pages_def)
qed

lemma space_frame:
  assumes inv: "vm_inv s" and sp: "space_ok s d" and out: "same_outside W (mem s) (mem s')"
      "W \<inter> kernel_pages s = {}" "W \<inter> owned (mem s) d = {}"
    and keep: "kernel_directory s' = kernel_directory s" "pd_tables s' = pd_tables s"
      "pd_physical_address s' = pd_physical_address s" "frames_ok s'" "used s \<subseteq> used s'"
  shows "space_ok s' d" "owned (mem s') d = owned (mem s) d" "walk (mem s') d v = walk (mem s) d v"
proof -
  note kf = kernel_frame [OF inv out(1,2) keep]
  have ok: "dir_ok (mem s) d (used s)" and d: "page_aligned d" using sp by (auto simp: space_ok_def dir_ok_def)
  have dW: "d \<notin> W" using out(3) owned_self by blast
  have e: "entry (mem s') d i = entry (mem s) d i" if "i < 1024" for i
    using out(1) d dW that by (simp add: same_outside_def)
  show own: "owned (mem s') d = owned (mem s) d" by (rule owned_outside [OF out(1) d dW])
  have "shares_kernel s' d"
    using sp e kf(4) unfolding space_ok_def shares_kernel_def keep(1) by simp
  then show "space_ok s' d"
    using sp dir_ok_outside [OF out(1) dW ok keep(5)] own kf(2) by (simp add: space_ok_def)
  show "walk (mem s') d v = walk (mem s) d v"
    using space_tables [OF sp] out(2,3) by (intro walk_outside [OF out(1) d dW]) blast
qed

section \<open>Mapping in a process\<close>

lemma ownedI: "own_slot i \<Longrightarrow> present (entry m d i) \<Longrightarrow> PAGE_FRAME (entry m d i) \<in> owned m d"
  by (auto simp: owned_def)

lemma map_page_in_cases:
  assumes "frames_ok s" "dir_ok (mem s) dir (used s)"
  obtains (oom) "paging_map_page_in dir virt phys flags s =
        vm_print (''paging_map_page_in: out of memory for page table'' @ [CHR 0x0A]) s"
      "\<not> present (entry (mem s) dir (PAGE_DIR_INDEX virt))" "used s = {..<4096}"
  | (map) table s' where
      "paging_map_page_in dir virt phys flags s = s'\<lparr>mem := map_mem dir table virt phys flags (mem s)\<rparr>"
      "s' = s\<lparr>frames := frames s'\<rparr>" "frames_ok s'" "used s' = insert (fno table) (used s)"
      "page_aligned table" "table \<noteq> 0 \<or> present (entry (mem s) dir (PAGE_DIR_INDEX virt))"
      "fno table \<notin> used s \<or> present (entry (mem s) dir (PAGE_DIR_INDEX virt))"
      "present (entry (mem s) dir (PAGE_DIR_INDEX virt)) \<longrightarrow> table = PAGE_FRAME (entry (mem s) dir (PAGE_DIR_INDEX virt))"
proof (cases "present (entry (mem s) dir (PAGE_DIR_INDEX virt))")
  case True
  let ?e = "entry (mem s) dir (PAGE_DIR_INDEX virt)"
  have d: "page_aligned dir" using dir_ok_self [OF assms(2)] by simp
  have "fno (PAGE_FRAME ?e) \<in> used s" using dir_ok_slot [OF assms(2) index_less(1) True] by simp
  moreover have "paging_map_page_in dir virt phys flags s = s\<lparr>mem := map_mem dir (PAGE_FRAME ?e) virt phys flags (mem s)\<rparr>"
    using True d
    by (simp add: paging_map_page_in_def Let_def map_mem_def put_pte_def pde_for_def set_entry_same entry_set_entry user_pde)
  ultimately show thesis using assms(1) True by (intro map [of "PAGE_FRAME ?e" s]) auto
next
  case False
  have d: "page_aligned dir" using dir_ok_self [OF assms(2)] by simp
  from assms(1) show thesis
  proof (cases rule: vm_alloc_cases)
    case fail
    then show thesis using False by (intro oom) (simp_all add: paging_map_page_in_def Let_def)
  next
    case (ok a s')
    have keep: "mem s' = mem s" by (subst ok(8), simp)
    have "paging_map_page_in dir virt phys flags s = s'\<lparr>mem := map_mem dir a virt phys flags (mem s)\<rparr>"
      using False ok(1,2) keep d new_pde(1) [OF ok(3)]
      by (simp add: paging_map_page_in_def Let_def map_mem_def put_pte_def pde_for_def entry_set_entry)
    then show thesis using ok False by (intro map [of a s']) auto
  qed
qed

lemma same_outside_map_mem:
  assumes "page_aligned d" "page_aligned table" "table \<noteq> d"
  shows "same_outside {d, table} m (map_mem d table virt phys flags m)"
  using entry_map_mem [OF assms] by (auto simp: same_outside_def)

lemma owned_map_mem:
  assumes ok: "dir_ok m d us" and tb: "page_aligned table" "fno table \<notin> us \<or> present (entry m d (PAGE_DIR_INDEX virt))"
    and old: "present (entry m d (PAGE_DIR_INDEX virt)) \<longrightarrow> table = PAGE_FRAME (entry m d (PAGE_DIR_INDEX virt))"
    and slot: "own_slot (PAGE_DIR_INDEX virt)"
  shows "owned (map_mem d table virt phys flags m) d = insert table (owned m d)"
proof -
  note dir = dir_ok_map_mem [OF ok tb old]
  note new = pde_for [OF tb(1) old]
  have e: "entry (map_mem d table virt phys flags m) d i =
      (if i = PAGE_DIR_INDEX virt then pde_for d table virt flags m else entry m d i)" if "own_slot i" for i
    using dir(4) that by (simp add: own_slot_def)
  show ?thesis
  proof (rule set_eqI, rule iffI)
    fix x assume "x \<in> owned (map_mem d table virt phys flags m) d"
    then show "x \<in> insert table (owned m d)"
      using e new by (auto simp: owned_def split: if_splits)
  next
    fix x assume x: "x \<in> insert table (owned m d)"
    have "table \<in> owned (map_mem d table virt phys flags m) d"
      using ownedI [of "PAGE_DIR_INDEX virt" "map_mem d table virt phys flags m" d] e [OF slot] new slot by simp
    moreover have "x \<in> owned (map_mem d table virt phys flags m) d" if "x \<in> owned m d" "x \<noteq> table"
    proof -
      from that(1) consider "x = d" | i where "own_slot i" "present (entry m d i)" "x = PAGE_FRAME (entry m d i)"
        by (auto simp: owned_def)
      then show ?thesis
      proof cases
        case (2 i)
        then have "i \<noteq> PAGE_DIR_INDEX virt" using old that(2) by auto
        then show ?thesis using 2 e [OF 2(1)] ownedI [of i "map_mem d table virt phys flags m" d] by simp
      qed (simp add: owned_def)
    qed
    ultimately show "x \<in> owned (map_mem d table virt phys flags m) d" using x by blast
  qed
qed

lemma map_page_in_effect:
  fixes phys flags virt :: u32
  assumes inv: "spaces_inv s D" and d: "d \<in> D" and slot: "own_slot (PAGE_DIR_INDEX virt)"
    and room: "present (entry (mem s) d (PAGE_DIR_INDEX virt)) \<or> used s \<noteq> {..<4096}"
  defines "s' \<equiv> paging_map_page_in d virt phys flags s"
  shows "spaces_inv s' D"
    and "xlate (mem s') d v = (if same_page v virt then Some (PAGE_FRAME phys OR (v AND 0xFFF)) else xlate (mem s) d v)"
    and "\<And>d'. d' \<in> D \<Longrightarrow> d' \<noteq> d \<Longrightarrow> walk (mem s') d' v = walk (mem s) d' v"
    and "walk (mem s') (kernel_directory s) v = walk (mem s) (kernel_directory s) v"
    and "kernel_directory s' = kernel_directory s" "pd_physical_address s' = pd_physical_address s" "used s \<subseteq> used s'"
proof -
  note I = spaces_invD [OF inv]
  have ok: "dir_ok (mem s) d (used s)" using I(3) [OF d] by (simp add: space_ok_def)
  obtain table s1 where
    s': "s' = s1\<lparr>mem := map_mem d table virt phys flags (mem s)\<rparr>"
    and s1: "s1 = s\<lparr>frames := frames s1\<rparr>" "frames_ok s1" "used s1 = insert (fno table) (used s)"
    and tb: "page_aligned table" "fno table \<notin> used s \<or> present (entry (mem s) d (PAGE_DIR_INDEX virt))"
    and old: "present (entry (mem s) d (PAGE_DIR_INDEX virt)) \<longrightarrow> table = PAGE_FRAME (entry (mem s) d (PAGE_DIR_INDEX virt))"
    using vm_invD(1) [OF I(1)] ok
  proof (cases rule: map_page_in_cases [of s d virt phys flags])
    case oom
    then show ?thesis using room by blast
  next
    case (map table s1)
    show ?thesis by (rule that [OF map(1) [folded s'_def] map(2-5,7,8)])
  qed
  note dir = dir_ok_map_mem [OF ok tb old]
  have al: "page_aligned d" using dir_ok_self [OF ok] by simp
  have keep: "kernel_directory s' = kernel_directory s" "pd_tables s' = pd_tables s"
    "pd_physical_address s' = pd_physical_address s" "frames_ok s'" "used s' = insert (fno table) (used s)"
    "mem s' = map_mem d table virt phys flags (mem s)"
    unfolding s' using s1(2,3) by (subst s1(1), simp add: used_def frames_ok_def)+
  have sub: "used s \<subseteq> used s'" using keep(5) by blast
  have out: "same_outside {d, table} (mem s) (mem s')" unfolding keep(6) by (rule same_outside_map_mem [OF al tb(1) dir(2)])
  have own_t: "table \<in> owned (mem s) d \<or> fno table \<notin> used s"
    using tb(2) old slot by (auto simp: owned_def)
  have "table \<notin> kernel_pages s"
    using own_t kernel_pages_used [OF I(1)] I(3) [OF d] by (auto simp: space_ok_def)
  then have kout: "{d, table} \<inter> kernel_pages s = {}"
    using I(3) [OF d] owned_self [of d "mem s"] unfolding space_ok_def by blast
  note kf = kernel_frame [OF I(1) out kout keep(1-4) sub]
  have dout: "{d, table} \<inter> owned (mem s) d' = {}" if "d' \<in> D" "d' \<noteq> d" for d'
  proof -
    have "table \<notin> owned (mem s) d'"
      using own_t owned_used [OF I(3) [OF that(1)]] I(4) [OF d that(1)] that(2) by blast
    then show ?thesis using I(4) [OF d that(1)] that(2) owned_self [of d "mem s"] by blast
  qed
  note sf = space_frame [OF I(1) I(3) out kout dout keep(1-4) sub]
  have own: "owned (mem s') d = insert table (owned (mem s) d)"
    unfolding keep(6) by (rule owned_map_mem [OF ok tb old slot])
  have "dir_ok (mem s') d (used s')" unfolding keep(5,6) by (rule dir(1))
  moreover have "shares_kernel s' d"
  proof -
    have "entry (mem s') d i = entry (mem s) d i" if "i \<in> {1..<KERNEL_PDE_COUNT}" for i
      using that slot dir(4) [of i] by (auto simp: own_slot_def keep(6))
    then show ?thesis using I(3) [OF d] kf(4) unfolding space_ok_def shares_kernel_def keep(1) by simp
  qed
  ultimately have "space_ok s' d"
    using I(3) [OF d] own kf(2) kout by (auto simp: space_ok_def)
  moreover have "owned (mem s') d1 \<inter> owned (mem s') d2 = {}" if "d1 \<in> D" "d2 \<in> D" "d1 \<noteq> d2" for d1 d2
    using sf(2) own I(4) [OF that] dout that d by (cases "d1 = d"; cases "d2 = d") auto
  moreover have "space_ok s' d'" if "d' \<in> D" "d' \<noteq> d" for d' by (rule sf(1) [OF that(1) that])
  ultimately show "spaces_inv s' D"
    using kf(1,4) I(2) unfolding spaces_inv_def keep(1) by auto
  show "xlate (mem s') d v = (if same_page v virt then Some (PAGE_FRAME phys OR (v AND 0xFFF)) else xlate (mem s) d v)"
    unfolding keep(6) by (rule walk_map_mem(1) [OF al tb(1) dir(2) old dir(3)])
  show "walk (mem s') d' v = walk (mem s) d' v" if "d' \<in> D" "d' \<noteq> d" for d' by (rule sf(3) [OF that(1) that])
  show "walk (mem s') (kernel_directory s) v = walk (mem s) (kernel_directory s) v" by (rule kf(3))
  show "kernel_directory s' = kernel_directory s" "pd_physical_address s' = pd_physical_address s" "used s \<subseteq> used s'"
    by (rule keep(1) keep(3) sub)+
qed

section \<open>A new address space\<close>

definition clone_mem :: "u32 \<Rightarrow> u32 \<Rightarrow> vm \<Rightarrow> pmem" where
  "clone_mem dir pt0 s =
     fold (\<lambda>i m. set_entry dir i (entry m (kernel_directory s) i) m) [1..<KERNEL_PDE_COUNT]
       (set_entry dir 0 (pt0 OR PAGE_PRESENT OR PAGE_WRITABLE)
         (memcpy pt0 (pd_tables s ! 0) 4096 (memset dir 0 4096 (mem s))))"

lemma kernel_slots: "i < 4 \<Longrightarrow> i = 0 \<or> i = 1 \<or> i = 2 \<or> i = (3::nat)"
  by auto

lemma entry_clone_mem:
  assumes al: "page_aligned dir" "page_aligned pt0" "page_aligned (pd_tables s ! 0)" "page_aligned (kernel_directory s)" "page_aligned t"
    and ne: "dir \<noteq> pt0" "pd_tables s ! 0 \<noteq> pt0" "pd_tables s ! 0 \<noteq> dir" "kernel_directory s \<noteq> dir" "kernel_directory s \<noteq> pt0"
    and i: "i < 1024"
  shows "entry (clone_mem dir pt0 s) t i =
    (if t = dir then
       if i = 0 then pt0 OR PAGE_PRESENT OR PAGE_WRITABLE
       else if i < KERNEL_PDE_COUNT then entry (mem s) (kernel_directory s) i else 0
     else if t = pt0 then entry (mem s) (pd_tables s ! 0) i
     else entry (mem s) t i)"
proof -
  have l: "[1..<KERNEL_PDE_COUNT] = [1, 2, 3]" by (simp add: upt_rec)
  show ?thesis
    unfolding clone_mem_def l using al ne i kernel_slots [of i]
    by (auto simp: entry_set_entry entry_memset_page entry_memcpy_page)
qed

lemma clone_cases:
  assumes inv: "vm_inv s" and p0: "present (entry (mem s) (kernel_directory s) 0)"
  obtains (fail) s' where "paging_clone_directory s = (0, s')" "mem s' = mem s \<or> (\<exists>d. page_aligned d \<and> fno d \<notin> used s \<and> mem s' = memset d 0 4096 (mem s))"
      "used s' = used s" "frames_ok s'" "kernel_directory s' = kernel_directory s" "pd_tables s' = pd_tables s"
      "pd_physical_address s' = pd_physical_address s" "4095 \<le> card (used s)"
  | (ok) d pt0 s' where "paging_clone_directory s = (d, s')" "d \<noteq> 0" "page_aligned d" "page_aligned pt0"
      "fno d \<notin> used s" "fno pt0 \<notin> used s" "pt0 \<noteq> d" "used s' = {fno d, fno pt0} \<union> used s"
      "mem s' = clone_mem d pt0 s" "frames_ok s'" "kernel_directory s' = kernel_directory s"
      "pd_tables s' = pd_tables s" "pd_physical_address s' = pd_physical_address s"
proof -
  have pt: "pd_tables s ! 0 \<noteq> 0" using inv p0 unfolding vm_inv_def by (metis zero_less_numeral)
  from vm_invD(1) [OF inv] show thesis
  proof (cases rule: vm_alloc_cases)
    case A: fail
    then show thesis using vm_invD(1) [OF inv]
      by (intro fail [of s]) (simp_all add: paging_clone_directory_def)
  next
    case A: (ok d s1)
    define s2 where "s2 = s1\<lparr>mem := memset d 0 4096 (mem s1)\<rparr>"
    have k1: "mem s1 = mem s" "kernel_directory s1 = kernel_directory s" "pd_tables s1 = pd_tables s"
      "pd_physical_address s1 = pd_physical_address s" by (subst A(8), simp)+
    have f2: "frames_ok s2" "used s2 = insert (fno d) (used s)"
      using A(6,7) by (simp_all add: s2_def frames_ok_def used_def)
    have k2: "mem s2 = memset d 0 4096 (mem s)" "kernel_directory s2 = kernel_directory s" "pd_tables s2 = pd_tables s"
      "pd_physical_address s2 = pd_physical_address s" using k1 by (simp_all add: s2_def)
    from f2(1) show thesis
    proof (cases rule: vm_alloc_cases)
      case A2: fail
      have run: "paging_clone_directory s = (0, vm_free_page d s2)"
        using A(1,2) A2(1) pt k1(3) by (simp add: paging_clone_directory_def Let_def s2_def [symmetric])
      note fr = vm_free_page_effect [of s2 d]
      have inv2: "pmm_inv (frames s2)" using f2(1) by (simp add: frames_ok_def)
      have u: "used (vm_free_page d s2) = used s" using fr(2) [OF inv2 A(3)] A(4) f2(2) by simp
      have "frames_ok (vm_free_page d s2)"
        using fr(1) [OF inv2] u vm_invD(1) [OF inv] by (simp add: frames_ok_def)
      moreover have "4095 \<le> card (used s)"
      proof -
        have "card (insert (fno d) (used s)) = 4096" using A2(2) f2(2) by (metis card_lessThan)
        then show ?thesis using A(4) by (simp add: card_insert_if used_finite)
      qed
      ultimately show thesis
        using run u k2 fr [OF inv2] A(3,4) by (intro fail [of "vm_free_page d s2"]) auto
    next
      case A2: (ok pt0 s3)
      have k3: "mem s3 = memset d 0 4096 (mem s)" "kernel_directory s3 = kernel_directory s" "pd_tables s3 = pd_tables s"
        "pd_physical_address s3 = pd_physical_address s" using k2 by (subst A2(8), simp)+
      have run: "paging_clone_directory s = (d, s3\<lparr>mem := clone_mem d pt0 s\<rparr>)"
        using A(1,2) A2(1,2) pt k1(3) k3 k2(2)
        by (simp add: paging_clone_directory_def Let_def s2_def [symmetric] clone_mem_def)
      show thesis using run A A2 f2 k3
        by (intro ok [of d "s3\<lparr>mem := clone_mem d pt0 s\<rparr>" pt0]) (auto simp: used_def frames_ok_def)
    qed
  qed
qed

lemma PAGE_FRAME_page_aligned [simp]: "page_aligned (PAGE_FRAME e)"
  by (simp add: page_aligned_iff bit_PAGE_FRAME)

text \<open>What a fresh directory contains.\<close>

lemma clone_entries:
  assumes inv: "vm_inv s" and p0: "present (entry (mem s) (kernel_directory s) 0)"
    and new: "page_aligned d" "page_aligned pt0" "fno d \<notin> used s" "fno pt0 \<notin> used s" "pt0 \<noteq> d"
  defines "m \<equiv> clone_mem d pt0 s"
  shows "same_outside {d, pt0} (mem s) m"
    and "\<And>i. i < 1024 \<Longrightarrow> entry m d i = (if i = 0 then pt0 OR PAGE_PRESENT OR PAGE_WRITABLE
           else if i < KERNEL_PDE_COUNT then entry (mem s) (kernel_directory s) i else 0)"
    and "\<And>i. i < 1024 \<Longrightarrow> entry m pt0 i = entry (mem s) (PAGE_FRAME (entry (mem s) (kernel_directory s) 0)) i"
proof -
  let ?k = "kernel_directory s"
  have t0: "pd_tables s ! 0 = PAGE_FRAME (entry (mem s) ?k 0)"
    using inv p0 unfolding vm_inv_def by (metis zero_less_numeral)
  then have u: "fno (pd_tables s ! 0) \<in> used s" using dir_ok_slot [OF vm_invD(5) [OF inv] _ p0] by simp
  have ne: "d \<noteq> pt0" "pd_tables s ! 0 \<noteq> pt0" "pd_tables s ! 0 \<noteq> d" "?k \<noteq> d" "?k \<noteq> pt0"
    using new u vm_invD(3) [OF inv] by auto
  have al: "page_aligned (pd_tables s ! 0)" by (simp add: t0)
  note e = entry_clone_mem [OF new(1,2) al vm_invD(2) [OF inv] _ ne, folded m_def]
  show "same_outside {d, pt0} (mem s) m" using e by (simp add: same_outside_def)
  show "entry m d i = (if i = 0 then pt0 OR PAGE_PRESENT OR PAGE_WRITABLE
           else if i < KERNEL_PDE_COUNT then entry (mem s) ?k i else 0)" if "i < 1024" for i
    using e [OF new(1) that] by simp
  show "entry m pt0 i = entry (mem s) (PAGE_FRAME (entry (mem s) ?k 0)) i" if "i < 1024" for i
    using e [OF new(2) that] new(5) t0 by simp
qed

lemma clone_space:
  assumes inv: "vm_inv s" and p0: "present (entry (mem s) (kernel_directory s) 0)"
    and new: "page_aligned d" "page_aligned pt0" "fno d \<notin> used s" "fno pt0 \<notin> used s" "pt0 \<noteq> d" "d \<noteq> 0"
    and s': "mem s' = clone_mem d pt0 s" "used s' = {fno d, fno pt0} \<union> used s" "kernel_directory s' = kernel_directory s"
      "pd_tables s' = pd_tables s" "pd_physical_address s' = pd_physical_address s" "frames_ok s'"
  shows "space_ok s' d" "owned (mem s') d = {d, pt0}"
    and "xlate (mem s') d v = (if unat v < 0x1000000 then xlate (mem s) (kernel_directory s) v else None)"
proof -
  let ?k = "kernel_directory s"
  note ce = clone_entries [OF inv p0 new(1-5), folded s'(1)]
  note pde = new_pde(3,4) [OF new(2)]
  have kp: "{d, pt0} \<inter> kernel_pages s = {}" using kernel_pages_used [OF inv] new(3,4) by auto
  have sub: "used s \<subseteq> used s'" using s'(2) by blast
  note kf = kernel_frame [OF inv ce(1) kp s'(3-6) sub]
  have np [simp]: "\<not> present 0" by (simp add: present_def)
  show own: "owned (mem s') d = {d, pt0}"
    using ce(2) pde by (auto simp: owned_def own_slot_def intro: exI [of _ 0] split: if_splits)
  have kt: "fno (PAGE_FRAME (entry (mem s) ?k i)) \<in> used s" if "i < 1024" "present (entry (mem s) ?k i)" for i
    using dir_ok_slot [OF vm_invD(5) [OF inv] that] by simp
  have "dir_ok (mem s') d (used s')"
    unfolding dir_ok_def
  proof (intro conjI allI impI)
    fix i :: nat assume i: "i < 1024" "present (entry (mem s') d i)"
    then show "fno (PAGE_FRAME (entry (mem s') d i)) \<in> used s'" "PAGE_FRAME (entry (mem s') d i) \<noteq> d"
      using ce(2) [OF i(1)] pde kt [OF i(1)] new s'(2) by (auto split: if_splits)
    fix j :: nat assume j: "j < 1024"
    assume "present (entry (mem s') d j) \<and> PAGE_FRAME (entry (mem s') d j) = PAGE_FRAME (entry (mem s') d i)"
    then show "i = j"
      using i j ce(2) [OF i(1)] ce(2) [OF j] pde kt [OF i(1)] kt [OF j] new(4) dir_ok_inj [OF vm_invD(5) [OF inv] i(1) j]
      by (auto split: if_splits)
  qed (use new s'(2) in auto)
  moreover have "shares_kernel s' d"
    using ce(2) kf(4) by (simp add: shares_kernel_def s'(3))
  ultimately show "space_ok s' d" using own kp kf(2) new(6) by (simp add: space_ok_def)
  have cold: "PAGE_DIR_INDEX v < 4 \<longleftrightarrow> unat v < 0x1000000" by (simp add: index_unat, arith)
  have out: "entry (mem s') (PAGE_FRAME (entry (mem s) ?k i)) j = entry (mem s) (PAGE_FRAME (entry (mem s) ?k i)) j"
    if "i < 1024" "present (entry (mem s) ?k i)" "j < 1024" for i j
  proof -
    have "PAGE_FRAME (entry (mem s) ?k i) \<notin> {d, pt0}" using kt [OF that(1,2)] new(3,4) by auto
    then show ?thesis using ce(1) that(3) by (simp add: same_outside_def)
  qed
  show "xlate (mem s') d v = (if unat v < 0x1000000 then xlate (mem s) ?k v else None)"
    using ce(2) [OF index_less(1) [of v]] ce(3) [OF index_less(2) [of v]] pde p0 out [OF index_less(1) _ index_less(2)]
    unfolding cold [symmetric] by (auto simp: xlate_def walk_def Let_def)
qed

text \<open>Writing only to pages that are free changes no address space.\<close>

lemma fresh_frame:
  assumes inv: "spaces_inv s D" and out: "same_outside W (mem s) (mem s')" "fno ` W \<inter> used s = {}"
    and keep: "kernel_directory s' = kernel_directory s" "pd_tables s' = pd_tables s"
      "pd_physical_address s' = pd_physical_address s" "frames_ok s'" "used s \<subseteq> used s'"
  shows "spaces_inv s' D" "\<And>d. d \<in> D \<Longrightarrow> owned (mem s') d = owned (mem s) d"
    "\<And>d. d \<in> insert (kernel_directory s) D \<Longrightarrow> walk (mem s') d v = walk (mem s) d v"
proof -
  note I = spaces_invD [OF inv]
  have k: "W \<inter> kernel_pages s = {}" using out(2) kernel_pages_used [OF I(1)] by blast
  have o: "W \<inter> owned (mem s) d = {}" if "d \<in> D" for d using out(2) owned_used [OF I(3) [OF that]] by blast
  note kf = kernel_frame [OF I(1) out(1) k keep] and sf = space_frame [OF I(1) I(3) out(1) k o keep]
  show "spaces_inv s' D" using kf sf I(2,4) unfolding spaces_inv_def keep(1) by simp
  show "owned (mem s') d = owned (mem s) d" if "d \<in> D" for d by (rule sf(2) [OF that that])
  show "walk (mem s') d v = walk (mem s) d v" if "d \<in> insert (kernel_directory s) D" for d using that kf(3) sf(3) by blast
qed

lemma clone_effect:
  assumes inv: "spaces_inv s D" and run: "paging_clone_directory s = (d, s')"
  shows "if d = 0 then spaces_inv s' D \<and> used s' = used s \<and> 4095 \<le> card (used s)
     else d \<notin> D \<and> spaces_inv s' (insert d D) \<and>
       (\<forall>v. xlate (mem s') d v = (if unat v < 0x1000000 then xlate (mem s) (kernel_directory s) v else None))"
    "kernel_directory s' = kernel_directory s"
    "\<forall>v. \<forall>d' \<in> insert (kernel_directory s) D. walk (mem s') d' v = walk (mem s) d' v"
    "used s \<subseteq> used s'" "d \<noteq> 0 \<Longrightarrow> \<forall>t \<in> owned (mem s') d. fno t \<notin> used s"
    "\<And>t i. page_aligned t \<Longrightarrow> fno t \<in> used s \<Longrightarrow> i < 1024 \<Longrightarrow> entry (mem s') t i = entry (mem s) t i"
proof -
  note I = spaces_invD [OF inv]
  have "(if d = 0 then spaces_inv s' D \<and> used s' = used s \<and> 4095 \<le> card (used s)
     else d \<notin> D \<and> spaces_inv s' (insert d D) \<and>
       (\<forall>v. xlate (mem s') d v = (if unat v < 0x1000000 then xlate (mem s) (kernel_directory s) v else None))) \<and>
    kernel_directory s' = kernel_directory s \<and>
    (\<forall>v. \<forall>d' \<in> insert (kernel_directory s) D. walk (mem s') d' v = walk (mem s) d' v) \<and>
    used s \<subseteq> used s' \<and> (d \<noteq> 0 \<longrightarrow> (\<forall>t \<in> owned (mem s') d. fno t \<notin> used s)) \<and>
    (\<exists>W. same_outside W (mem s) (mem s') \<and> fno ` W \<inter> used s = {})"
    using I(1,2)
  proof (cases rule: clone_cases)
    case (fail s1)
    obtain W where W: "same_outside W (mem s) (mem s1)" "fno ` W \<inter> used s = {}"
    proof (cases "mem s1 = mem s")
      case True
      then show ?thesis using that [of "{}"] by (simp add: same_outside_def)
    next
      case False
      then obtain d where "page_aligned d" "fno d \<notin> used s" "mem s1 = memset d 0 4096 (mem s)" using fail(2) by blast
      then show ?thesis using that [of "{d}"] by (simp add: same_outside_def entry_memset_page)
    qed
    have "used s \<subseteq> used s1" using fail(3) by simp
    note fr = fresh_frame [OF inv W fail(5-7) fail(4) this]
    have "d = 0" "s' = s1" using run fail(1) by auto
    then show ?thesis using fr W fail by auto
  next
    case (ok d1 pt0 s1)
    have pt0: "fno pt0 \<notin> used s" "pt0 \<noteq> d1" by (rule ok)+
    note ce = clone_entries [OF I(1,2) ok(3,4,5,6,7), folded ok(9)]
    note cs = clone_space [OF I(1,2) ok(3,4,5,6,7,2) ok(9,8,11,12,13,10)]
    have W: "fno ` {d1, pt0} \<inter> used s = {}" using ok(5,6) by simp
    have sub: "used s \<subseteq> used s1" using ok(8) by blast
    note fr = fresh_frame [OF inv ce(1) W ok(11,12,13,10) sub]
    have "d1 \<notin> D" using owned_used [OF I(3)] ok(5) owned_self by blast
    moreover have "owned (mem s1) d1 \<inter> owned (mem s1) d' = {}" if "d' \<in> D" for d'
      using W fr(2) [OF that] owned_used [OF I(3) [OF that]] cs(2) by auto
    then have "spaces_inv s1 (insert d1 D)"
      using fr(1) cs(1) unfolding spaces_inv_def by blast
    moreover have "d = d1" "s' = s1" using run ok(1) by auto
    ultimately show ?thesis using ok(2,11) cs(2,3) fr(3) sub ce(1) W by auto
  qed
  note R = this
  show "if d = 0 then spaces_inv s' D \<and> used s' = used s \<and> 4095 \<le> card (used s)
     else d \<notin> D \<and> spaces_inv s' (insert d D) \<and>
       (\<forall>v. xlate (mem s') d v = (if unat v < 0x1000000 then xlate (mem s) (kernel_directory s) v else None))"
    "kernel_directory s' = kernel_directory s"
    "\<forall>v. \<forall>d' \<in> insert (kernel_directory s) D. walk (mem s') d' v = walk (mem s) d' v"
    "used s \<subseteq> used s'" "d \<noteq> 0 \<Longrightarrow> \<forall>t \<in> owned (mem s') d. fno t \<notin> used s"
    using R by auto
  show "entry (mem s') t i = entry (mem s) t i" if "page_aligned t" "fno t \<in> used s" "i < 1024" for t i
    using R that unfolding same_outside_def by blast
qed

section \<open>Releasing an address space\<close>

text \<open>\<open>releases s s' A\<close>: the step from \<open>s\<close> to \<open>s'\<close> gives back the frames of the pages \<open>A\<close> and writes no memory.\<close>

definition releases :: "vm \<Rightarrow> vm \<Rightarrow> u32 set \<Rightarrow> bool" where
  "releases s s' A \<longleftrightarrow> pmm_inv (frames s') \<and> mem s' = mem s \<and> kernel_directory s' = kernel_directory s \<and>
     pd_tables s' = pd_tables s \<and> pd_physical_address s' = pd_physical_address s \<and> cr3 s' = cr3 s \<and>
     used s' = used s - fno ` A"

lemma releases_refl: "pmm_inv (frames s) \<Longrightarrow> releases s s {}"
  by (simp add: releases_def)

lemma releases_trans: "releases s s1 A \<Longrightarrow> releases s1 s2 B \<Longrightarrow> releases s s2 (A \<union> B)"
  by (auto simp: releases_def)

lemma releases_page: "pmm_inv (frames s) \<Longrightarrow> page_aligned a \<Longrightarrow> releases s (vm_free_page a s) {a}"
  using vm_free_page_effect [of s a] by (simp add: releases_def)

lemma releases_fold:
  assumes "pmm_inv (frames s)"
    and step: "\<And>j s1. mem s1 = mem s \<Longrightarrow> pmm_inv (frames s1) \<Longrightarrow> j \<in> set js \<Longrightarrow> releases s1 (f j s1) (A j)"
  shows "releases s (fold f js s) (\<Union>j \<in> set js. A j)"
  using step
proof (induction js rule: rev_induct)
  case Nil
  then show ?case using releases_refl [OF assms(1)] by simp
next
  case (snoc j js)
  have IH: "releases s (fold f js s) (\<Union>j \<in> set js. A j)" using snoc by simp
  then have "releases (fold f js s) (f j (fold f js s)) (A j)"
    using snoc.prems [of "fold f js s" j] by (simp add: releases_def)
  from releases_trans [OF IH this] show ?case by (simp add: Un_commute)
qed

definition table_leaves :: "pmem \<Rightarrow> u32 \<Rightarrow> u32 set" where
  "table_leaves m t = (\<Union>j \<in> {..<1024}. if present (entry m t j) then {PAGE_FRAME (entry m t j)} else {})"

definition slot_pages :: "pmem \<Rightarrow> u32 \<Rightarrow> nat \<Rightarrow> u32 set" where
  "slot_pages m d i =
     (if present (entry m d i) then insert (PAGE_FRAME (entry m d i)) (table_leaves m (PAGE_FRAME (entry m d i))) else {})"

lemma free_user_table_releases:
  assumes "pmm_inv (frames s)"
  shows "releases s (free_user_table d i s) (slot_pages (mem s) d i)"
proof (cases "present (entry (mem s) d i)")
  case True
  define t where "t = PAGE_FRAME (entry (mem s) d i)"
  define s1 where "s1 = fold (\<lambda>j s. if entry (mem s) t j AND PAGE_PRESENT \<noteq> 0
      then vm_free_page (PAGE_FRAME (entry (mem s) t j)) s else s) [0..<PAGES_PER_TABLE] s"
  have "releases s s1 (\<Union>j \<in> set [0..<PAGES_PER_TABLE]. if present (entry (mem s) t j) then {PAGE_FRAME (entry (mem s) t j)} else {})"
    unfolding s1_def using assms by (intro releases_fold) (simp_all add: releases_page releases_refl del: upt_rec_numeral)
  then have leaf: "releases s s1 (table_leaves (mem s) t)"
    by (simp add: table_leaves_def lessThan_atLeast0 del: upt_rec_numeral)
  then have "pmm_inv (frames s1)" by (simp add: releases_def)
  from releases_trans [OF leaf releases_page [OF this, of t]] have "releases s (vm_free_page t s1) (slot_pages (mem s) d i)"
    using True by (simp add: t_def slot_pages_def)
  moreover have "free_user_table d i s = vm_free_page t s1"
    using True unfolding free_user_table_def Let_def s1_def t_def by (simp del: upt_rec_numeral)
  ultimately show ?thesis by simp
qed (use assms in \<open>simp add: free_user_table_def slot_pages_def releases_refl\<close>)

lemma slot_pages_all:
  "insert d ((if present (entry m d 0) then {PAGE_FRAME (entry m d 0)} else {}) \<union> (\<Union>i \<in> {4..<1024}. slot_pages m d i)) =
   owned m d \<union> leaves m d"
  unfolding owned_def leaves_def own_slot_def slot_pages_def table_leaves_def
  by (auto split: if_splits simp: lessThan_def)

lemma paging_free_directory_releases:
  assumes "pmm_inv (frames s)" "page_aligned d" "d \<noteq> 0"
  shows "releases s (paging_free_directory d s) (owned (mem s) d \<union> leaves (mem s) d)"
proof -
  let ?A = "if present (entry (mem s) d 0) then {PAGE_FRAME (entry (mem s) d 0)} else {}"
  define s1 where "s1 = (if present (entry (mem s) d 0) then vm_free_page (PAGE_FRAME (entry (mem s) d 0)) s else s)"
  define s2 where "s2 = fold (free_user_table d) [KERNEL_PDE_COUNT..<TABLES_PER_DIR] s1"
  have r1: "releases s s1 ?A" using assms(1) by (simp add: s1_def releases_page releases_refl)
  then have p1: "pmm_inv (frames s1)" "mem s1 = mem s" by (simp_all add: releases_def)
  have "releases s1 s2 (\<Union>i \<in> set [KERNEL_PDE_COUNT..<TABLES_PER_DIR]. slot_pages (mem s1) d i)"
    unfolding s2_def by (rule releases_fold [OF p1(1)]) (metis free_user_table_releases)
  then have r2: "releases s1 s2 (\<Union>i \<in> {4..<1024}. slot_pages (mem s) d i)"
    using p1(2) by (simp del: upt_rec_numeral)
  then have "pmm_inv (frames s2)" by (simp add: releases_def)
  from releases_trans [OF releases_trans [OF r1 r2] releases_page [OF this assms(2)]]
  have "releases s (vm_free_page d s2) (owned (mem s) d \<union> leaves (mem s) d)"
    unfolding slot_pages_all [symmetric] by simp
  then show ?thesis using assms(3)
    by (simp add: paging_free_directory_def Let_def s1_def s2_def del: upt_rec_numeral)
qed

lemma dir_ok_used:
  assumes "dir_ok m d us" "fno d \<in> us'"
    "\<And>i. i < 1024 \<Longrightarrow> present (entry m d i) \<Longrightarrow> fno (PAGE_FRAME (entry m d i)) \<in> us'"
  shows "dir_ok m d us'"
  using assms unfolding dir_ok_def by metis

text \<open>\<open>releasable s D d\<close>: the pages reached from \<open>d\<close> are not pages that another space or the kernel needs.\<close>

definition releasable :: "vm \<Rightarrow> u32 set \<Rightarrow> u32 \<Rightarrow> bool" where
  "releasable s D d \<longleftrightarrow> fno ` (owned (mem s) d \<union> leaves (mem s) d) \<inter>
     insert 0 (fno ` (kernel_pages s \<union> (\<Union>d' \<in> D - {d}. owned (mem s) d'))) = {}"

lemma releases_spaces_inv:
  assumes inv: "spaces_inv s D" and rel: "releases s s' A"
    and need: "fno ` A \<inter> insert 0 (fno ` (kernel_pages s \<union> (\<Union>d' \<in> D'. owned (mem s) d'))) = {}" and sub: "D' \<subseteq> D"
  shows "spaces_inv s' D'"
proof -
  note I = spaces_invD [OF inv]
  have r: "pmm_inv (frames s')" "mem s' = mem s" "kernel_directory s' = kernel_directory s" "pd_tables s' = pd_tables s"
    "pd_physical_address s' = pd_physical_address s" "used s' = used s - fno ` A"
    using rel by (simp_all add: releases_def)
  have keep: "fno t \<in> used s'" if "fno t \<in> used s" "t \<in> kernel_pages s \<union> (\<Union>d' \<in> D'. owned (mem s) d')" for t
    using that need r(6) by blast
  have "dir_ok (mem s) (kernel_directory s) (used s')"
    using vm_invD(3,5) [OF I(1)] dir_ok_slot [OF vm_invD(5) [OF I(1)]]
    by (intro dir_ok_used [OF vm_invD(5) [OF I(1)]] keep) (auto simp: kernel_pages_def)
  moreover have "frames_ok s'"
    using r(1,6) need vm_invD(1) [OF I(1)] by (auto simp: frames_ok_def)
  ultimately have vm: "vm_inv s'"
    using I(1) unfolding vm_inv_def r(2-5) by blast
  have kp: "kernel_pages s' = kernel_pages s" by (simp add: kernel_pages_def r(2,3))
  have "space_ok s' d'" if d': "d' \<in> D'" for d'
  proof -
    have sp: "space_ok s d'" using I(3) d' sub by blast
    have ok: "dir_ok (mem s) d' (used s)" using sp by (simp add: space_ok_def)
    have "dir_ok (mem s) d' (used s')"
      using space_tables [OF sp] dir_ok_self [OF ok] dir_ok_slot [OF ok] d' owned_self [of d' "mem s"]
      by (intro dir_ok_used [OF ok] keep) blast+
    then show ?thesis using sp unfolding space_ok_def shares_kernel_def r(2,3) kp by blast
  qed
  then show ?thesis using vm I(2,4) sub unfolding spaces_inv_def r(2,3) by blast
qed

section \<open>Properties\<close>

text \<open>(C1) Process isolation: mapping a page in the private range of one process (\<^verbatim>\<open>paging_map_page_in\<close>, with a table present or a
  frame free for one) keeps all address spaces well formed, maps exactly that page in that process, and
  changes neither the translation nor the access rights of any address in any other process or in the kernel.\<close>

theorem paging_map_page_in_isolated:
  assumes "spaces_inv s D" "d \<in> D" "own_slot (PAGE_DIR_INDEX virt)"
    and "present (entry (mem s) d (PAGE_DIR_INDEX virt)) \<or> used s \<noteq> {..<4096}"
  shows "let s' = paging_map_page_in d virt phys flags s in
    spaces_inv s' D \<and>
    (\<forall>v. xlate (mem s') d v = (if same_page v virt then Some (PAGE_FRAME phys OR (v AND 0xFFF)) else xlate (mem s) d v)) \<and>
    (\<forall>d' \<in> D. d' \<noteq> d \<longrightarrow> (\<forall>v. walk (mem s') d' v = walk (mem s) d' v)) \<and>
    (\<forall>v. walk (mem s') (kernel_directory s') v = walk (mem s) (kernel_directory s) v)"
  using map_page_in_effect [OF assms] by (simp add: Let_def)

text \<open>(C18) \<^verbatim>\<open>paging_clone_directory\<close> either fails with 0, for want of two frames, taking none, or returns a new directory
  that translates as the kernel does below 16 MB and maps nothing above; in both cases the invariant holds and no
  translation of an existing process or of the kernel changes.\<close>

theorem paging_clone_directory_fresh:
  assumes "spaces_inv s D"
  shows "case paging_clone_directory s of (d, s') \<Rightarrow>
    (if d = 0 then spaces_inv s' D \<and> used s' = used s \<and> 4095 \<le> card (used s)
     else d \<notin> D \<and> spaces_inv s' (insert d D) \<and>
       (\<forall>v. xlate (mem s') d v = (if unat v < 0x1000000 then xlate (mem s) (kernel_directory s) v else None))) \<and>
    kernel_directory s' = kernel_directory s \<and>
    (\<forall>v. \<forall>d' \<in> insert (kernel_directory s) D. walk (mem s') d' v = walk (mem s) d' v)"
proof -
  obtain d s' where run: "paging_clone_directory s = (d, s')" by fastforce
  from clone_effect [OF assms run] show ?thesis by (simp add: run)
qed

text \<open>(C19) \<^verbatim>\<open>paging_free_directory\<close> on a process whose pages nobody else uses gives back exactly the directory, its private
  tables and the frames mapped in the user range, writes no memory, and leaves the other spaces well formed.\<close>

theorem paging_free_directory_exact:
  assumes "spaces_inv s D" "d \<in> D" "releasable s D d"
  shows "let s' = paging_free_directory d s in
    spaces_inv s' (D - {d}) \<and> mem s' = mem s \<and> used s' = used s - fno ` (owned (mem s) d \<union> leaves (mem s) d)"
proof -
  have sp: "space_ok s d" by (rule spaces_invD(3) [OF assms(1,2)])
  then have "releases s (paging_free_directory d s) (owned (mem s) d \<union> leaves (mem s) d)"
    using vm_invD(1) [OF spaces_invD(1) [OF assms(1)]] dir_ok_self
    by (intro paging_free_directory_releases) (auto simp: space_ok_def frames_ok_def)
  then show ?thesis
    using releases_spaces_inv [OF assms(1) _ assms(3) [unfolded releasable_def]] by (auto simp: Let_def releases_def)
qed

lemma clone_leaves:
  assumes "vm_inv s" "present (entry (mem s) (kernel_directory s) 0)"
    and "page_aligned d" "page_aligned pt0" "fno d \<notin> used s" "fno pt0 \<notin> used s" "pt0 \<noteq> d"
  shows "leaves (clone_mem d pt0 s) d = {}"
  using clone_entries(2) [OF assms] by (auto simp: leaves_def present_def)

text \<open>(C15) Creating an address space and destroying it again leaks no frame: the frames in use are those from before, and the other
  spaces are still well formed and apart.\<close>

theorem paging_clone_free_roundtrip:
  assumes "spaces_inv s D"
  shows "case paging_clone_directory s of (d, s') \<Rightarrow>
    d \<noteq> 0 \<longrightarrow> used (paging_free_directory d s') = used s \<and> spaces_inv (paging_free_directory d s') D"
proof -
  note I = spaces_invD [OF assms]
  from I(1,2) show ?thesis
  proof (cases rule: clone_cases)
    case (ok d pt0 s')
    note cs = clone_space [OF I(1,2) ok(3,4,5,6,7,2) ok(9,8,11,12,13,10)]
    have all: "owned (mem s') d \<union> leaves (mem s') d = {d, pt0}"
      using cs(2) clone_leaves [OF I(1,2) ok(3,4,5,6,7)] ok(9) by simp
    have "pmm_inv (frames s')" using ok(10) by (simp add: frames_ok_def)
    from paging_free_directory_releases [OF this ok(3,2)]
    have rel: "releases s' (paging_free_directory d s') {d, pt0}" unfolding all .
    then have u: "used (paging_free_directory d s') = used s"
      using ok(5,6,8) by (auto simp: releases_def)
    define s2 where "s2 = (paging_free_directory d s')"
    have keep: "mem s2 = mem s'" "kernel_directory s2 = kernel_directory s" "pd_tables s2 = pd_tables s"
      "pd_physical_address s2 = pd_physical_address s" "frames_ok s2" "used s \<subseteq> used s2"
      using rel ok(10,11,12,13) u vm_invD(1) [OF I(1)] unfolding s2_def [symmetric]
      by (auto simp: releases_def frames_ok_def)
    have out: "same_outside {d, pt0} (mem s) (mem s2)"
      using clone_entries(1) [OF I(1,2) ok(3,4,5,6,7)] by (simp add: keep(1) ok(9))
    have k: "{d, pt0} \<inter> kernel_pages s = {}" using ok(5,6) kernel_pages_used [OF I(1)] by blast
    have o: "{d, pt0} \<inter> owned (mem s) d' = {}" if "d' \<in> D" for d'
      using ok(5,6) owned_used [OF I(3) [OF that]] by blast
    note kf = kernel_frame [OF I(1) out k keep(2-6)] and sf = space_frame [OF I(1) I(3) out k o keep(2-6)]
    have "spaces_inv s2 D" using kf sf I(2,4) unfolding spaces_inv_def keep(2) by simp
    then show ?thesis using ok(1) u by (simp add: s2_def)
  qed simp
qed

subsection \<open>The first process after boot\<close>

lemma boot_spaces: "spaces_inv (paging_init boot_vm) {}"
  using paging_init_boot by (simp add: spaces_inv_def)

lemma boot_clone:
  obtains d s' where "paging_clone_directory (paging_init boot_vm) = (d, s')" "d \<noteq> 0" "spaces_inv s' {d}"
    "used s' \<noteq> {..<4096}" "releasable s' {d} d"
proof -
  let ?s = "paging_init boot_vm"
  note I = spaces_invD [OF boot_spaces]
  from I(1,2) show thesis
  proof (cases rule: clone_cases)
    case (fail s')
    then show thesis using paging_init_boot(3) by simp
  next
    case (ok d pt0 s')
    note cs = clone_space [OF I(1,2) ok(3,4,5,6,7,2) ok(9,8,11,12,13,10)]
    note ce = clone_entries(1) [OF I(1,2) ok(3,4,5,6,7), folded ok(9)]
    have k: "{d, pt0} \<inter> kernel_pages ?s = {}" using ok(5,6) kernel_pages_used [OF I(1)] by blast
    have sub: "used ?s \<subseteq> used s'" using ok(8) by blast
    note kf = kernel_frame [OF I(1) ce k ok(11,12,13,10) sub]
    have "spaces_inv s' {d}" using kf I(2) cs(1) unfolding spaces_inv_def ok(11) by simp
    moreover have "used s' \<noteq> {..<4096}"
    proof
      assume "used s' = {..<4096}"
      then have "card (used s') = 4096" by simp
      moreover have "card (used s') \<le> 2 + card (used ?s)"
        using card_Un_le [of "{fno d, fno pt0}" "used ?s"] card_insert_le_m1 [of 2 "{fno pt0}" "fno d"] unfolding ok(8) by simp
      ultimately show False using paging_init_boot(3) by simp
    qed
    moreover have "releasable s' {d} d"
    proof -
      have all: "owned (mem s') d \<union> leaves (mem s') d = {d, pt0}"
        using cs(2) clone_leaves [OF I(1,2) ok(3,4,5,6,7)] ok(9) by simp
      have "0 \<in> used ?s" using vm_invD(1) [OF I(1)] by (simp add: frames_ok_def)
      then have "fno d \<noteq> 0" "fno pt0 \<noteq> 0" using ok(5,6) by metis+
      then show ?thesis using ok(5,6) kernel_pages_used [OF I(1)] unfolding releasable_def all kf(2) by auto
    qed
    ultimately show thesis using ok(1,2) that by blast
  qed
qed

theorem paging_map_page_in_isolated_witness:
  "case paging_clone_directory (paging_init boot_vm) of (d, s) \<Rightarrow>
     let s' = paging_map_page_in d 0x8000000 0x300000 7 s in
     d \<noteq> 0 \<and> spaces_inv s' {d} \<and> xlate (mem s') d 0x8000123 = Some 0x300123"
proof -
  obtain d s where c: "paging_clone_directory (paging_init boot_vm) = (d, s)" "d \<noteq> 0" "spaces_inv s {d}" "used s \<noteq> {..<4096}"
    by (rule boot_clone)
  have "own_slot (PAGE_DIR_INDEX 0x8000000)" "same_page 0x8000123 0x8000000"
    by (simp_all add: own_slot_def same_page_def index_unat)
  moreover have "PAGE_FRAME 0x300000 OR (0x8000123 AND 0xFFF) = 0x300123" by (simp add: PAGE_FRAME_def)
  ultimately show ?thesis
    using paging_map_page_in_isolated [OF c(3), of d "0x8000000" "0x300000" 7] c by (simp add: Let_def)
qed

theorem paging_clone_directory_fresh_witness:
  "case paging_clone_directory (paging_init boot_vm) of (d, s) \<Rightarrow> d \<noteq> 0 \<and> spaces_inv s {d} \<and> xlate (mem s) d 0x8000000 = None"
proof -
  obtain d s where c: "paging_clone_directory (paging_init boot_vm) = (d, s)" "d \<noteq> 0" by (rule boot_clone)
  then show ?thesis using paging_clone_directory_fresh [OF boot_spaces] by simp
qed

theorem paging_free_directory_exact_witness:
  "case paging_clone_directory (paging_init boot_vm) of (d, s) \<Rightarrow> d \<noteq> 0 \<and> spaces_inv (paging_free_directory d s) {} \<and>
     fno d \<notin> used (paging_free_directory d s)"
proof -
  obtain d s where c: "paging_clone_directory (paging_init boot_vm) = (d, s)" "d \<noteq> 0" "spaces_inv s {d}" "releasable s {d} d"
    by (rule boot_clone)
  show ?thesis using paging_free_directory_exact [OF c(3) _ c(4)] c(1,2) by (auto simp: Let_def)
qed

theorem paging_clone_free_roundtrip_witness:
  "case paging_clone_directory (paging_init boot_vm) of (d, s) \<Rightarrow> d \<noteq> 0 \<and>
     used (paging_free_directory d s) = used (paging_init boot_vm)"
proof -
  obtain d s where c: "paging_clone_directory (paging_init boot_vm) = (d, s)" "d \<noteq> 0" by (rule boot_clone)
  then show ?thesis using paging_clone_free_roundtrip [OF boot_spaces] by simp
qed

end
