(* ===== verification/Sched.thy ===== *)
theory Sched
  imports Address_Spaces Descriptors Klibc_String "HOL-Library.Monad_Syntax"
begin

text \<open>
  The scheduler of \<^verbatim>\<open>sched.c\<close> with the context switch of \<^verbatim>\<open>switch.asm\<close>.  Task control blocks
  are a store indexed by \<open>tref\<close>: the static \<^verbatim>\<open>boot_task\<close> and the slots of \<^verbatim>\<open>task_pool\<close>; \<open>None\<close>
  is the null pointer.  The ready queue is a circular list threaded through the control blocks.  Its loops
  are partial: \<open>None\<close> is a null dereference or a walk that never meets its end.
\<close>

section \<open>State\<close>

datatype tref = Boot | Pool nat

datatype task_state_t = TASK_READY | TASK_RUNNING | TASK_BLOCKED | TASK_DEAD

record task_t =
  t_id :: u32
  t_name :: string
  t_state :: task_state_t
  t_esp :: u32
  t_esp0 :: u32
  t_kernel_stack :: u32
  t_user_stack :: u32
  t_user_stack_top :: u32
  t_is_user :: u8
  t_cr3 :: u32
  t_page_dir :: u32
  t_next :: "tref option"

abbreviation TASK_NAME_MAX :: nat where "TASK_NAME_MAX \<equiv> 32"
abbreviation SCHED_TIME_SLICE :: u32 where "SCHED_TIME_SLICE \<equiv> 10"

text \<open>\<^verbatim>\<open>memset(t, 0, sizeof(task_t))\<close>; \<^verbatim>\<open>TASK_READY\<close> is the enumeration's 0.\<close>

definition zero_task :: task_t where
  "zero_task = \<lparr>t_id = 0, t_name = replicate TASK_NAME_MAX NUL, t_state = TASK_READY, t_esp = 0, t_esp0 = 0, t_kernel_stack = 0,
     t_user_stack = 0, t_user_stack_top = 0, t_is_user = 0, t_cr3 = 0, t_page_dir = 0, t_next = None\<rparr>"

text \<open>The registers a context switch and an \<^verbatim>\<open>iret\<close> touch.\<close>

record cpu =
  ebx :: u32
  esi :: u32
  edi :: u32
  ebp :: u32
  esp :: u32
  eip :: u32
  cs :: u32
  ss :: u32
  eflags :: u32

record os =
  tasks :: "tref \<Rightarrow> task_t"
  current_task :: "tref option"
  ready_head :: "tref option"
  scheduler_on :: bool
  slice_remaining :: u32
  next_task_id :: u32
  tss :: tss_entry
  kvm :: vm
  regs :: cpu
  intr :: bool

definition cli :: "os \<Rightarrow> os" where
  "cli s = s\<lparr>intr := False\<rparr>"

definition sti :: "os \<Rightarrow> os" where
  "sti s = s\<lparr>intr := True\<rparr>"

definition upd_task :: "tref \<Rightarrow> (task_t \<Rightarrow> task_t) \<Rightarrow> os \<Rightarrow> os" where
  "upd_task t f s = s\<lparr>tasks := (tasks s)(t := f (tasks s t))\<rparr>"

section \<open>Context switch\<close>

text \<open>
  \<^verbatim>\<open>task_switch\<close>, entered with \<^verbatim>\<open>esp\<close> at the return address its caller pushed: the four saved registers go below
  it, the stack pointer into the old task's control block, and the new task's registers and return
  address come from its stack.  Kernel stacks lie in the identity-mapped range, so their addresses are physical.
\<close>

definition task_switch :: "tref \<Rightarrow> u32 \<Rightarrow> os \<Rightarrow> os" where
  "task_switch old new_esp s =
     (let c = regs s; sp = esp c;
          m = write32 (sp - 16) (ebp c) (write32 (sp - 12) (edi c)
                (write32 (sp - 8) (esi c) (write32 (sp - 4) (ebx c) (mem (kvm s)))));
          s = upd_task old (\<lambda>t. t\<lparr>t_esp := sp - 16\<rparr>) (s\<lparr>kvm := kvm s\<lparr>mem := m\<rparr>\<rparr>)
      in s\<lparr>regs := c\<lparr>ebp := read32 m new_esp, edi := read32 m (new_esp + 4), esi := read32 m (new_esp + 8),
             ebx := read32 m (new_esp + 12), eip := read32 m (new_esp + 16), esp := new_esp + 20\<rparr>\<rparr>)"

text \<open>\<^verbatim>\<open>enter_usermode\<close> is a single \<^verbatim>\<open>iret\<close> to a less privileged ring, which pops five words.\<close>

definition enter_usermode :: "os \<Rightarrow> os" where
  "enter_usermode s =
     (let c = regs s; m = mem (kvm s); sp = esp c
      in s\<lparr>regs := c\<lparr>eip := read32 m sp, cs := read32 m (sp + 4), eflags := read32 m (sp + 8),
             esp := read32 m (sp + 12), ss := read32 m (sp + 16)\<rparr>\<rparr>)"

section \<open>The ready queue\<close>

definition insert_after :: "tref \<Rightarrow> tref \<Rightarrow> os \<Rightarrow> os" where
  "insert_after after t s =
     upd_task after (\<lambda>x. x\<lparr>t_next := Some t\<rparr>) (upd_task t (\<lambda>x. x\<lparr>t_next := t_next (tasks s after)\<rparr>) s)"

definition runnable :: "task_t \<Rightarrow> bool" where
  "runnable t \<longleftrightarrow> t_state t = TASK_READY \<or> t_state t = TASK_RUNNING"

text \<open>The loop of \<^verbatim>\<open>pick_next_ready\<close>; the inner \<open>None\<close> is a full turn without a runnable task.\<close>

partial_function (option) pick_loop :: "(tref \<Rightarrow> task_t) \<Rightarrow> tref \<Rightarrow> tref \<Rightarrow> tref option option" where
  "pick_loop ts start t =
     (if runnable (ts t) then Some (Some t)
      else t_next (ts t) \<bind> (\<lambda>t'. if t' = start then Some None else pick_loop ts start t'))"

definition pick_next_ready :: "os \<Rightarrow> tref option" where
  "pick_next_ready s = do {
     cur \<leftarrow> current_task s;
     start \<leftarrow> t_next (tasks s cur);
     r \<leftarrow> pick_loop (tasks s) start start;
     Some (case r of Some t \<Rightarrow> t | None \<Rightarrow> cur)
   }"

definition task_cr3 :: "task_t \<Rightarrow> vm \<Rightarrow> u32" where
  "task_cr3 t v = (if t_cr3 t \<noteq> 0 then t_cr3 t else paging_get_kernel_cr3 v)"

definition switch_to :: "tref \<Rightarrow> os \<Rightarrow> os option" where
  "switch_to next s = do {
     prev \<leftarrow> current_task s;
     if next = prev then Some s
     else
       let s = (if t_state (tasks s prev) = TASK_RUNNING then upd_task prev (\<lambda>t. t\<lparr>t_state := TASK_READY\<rparr>) s else s);
           s = upd_task next (\<lambda>t. t\<lparr>t_state := TASK_RUNNING\<rparr>) s;
           s = s\<lparr>current_task := Some next, slice_remaining := SCHED_TIME_SLICE\<rparr>;
           s = s\<lparr>tss := tss_set_kernel_stack (t_esp0 (tasks s next)) (tss s)\<rparr>;
           next_cr3 = task_cr3 (tasks s next) (kvm s);
           prev_cr3 = task_cr3 (tasks s prev) (kvm s);
           s = (if next_cr3 \<noteq> prev_cr3 then s\<lparr>kvm := kvm s\<lparr>cr3 := next_cr3\<rparr>\<rparr> else s)
       in Some (task_switch prev (t_esp (tasks s next)) s)
   }"

section \<open>Public operations\<close>

definition sched_init :: "os \<Rightarrow> os" where
  "sched_init s =
     (let b = zero_task\<lparr>t_id := 0, t_name := the (strncpy (t_name zero_task) (''idle'' @ [NUL]) TASK_NAME_MAX),
            t_state := TASK_RUNNING, t_next := Some Boot\<rparr>
      in s\<lparr>tasks := (tasks s)(Boot := b), current_task := Some Boot, ready_head := Some Boot,
           slice_remaining := SCHED_TIME_SLICE, scheduler_on := False\<rparr>)"

definition sched_enable :: "os \<Rightarrow> os" where
  "sched_enable s = s\<lparr>scheduler_on := True\<rparr>"

definition sched_disable :: "os \<Rightarrow> os" where
  "sched_disable s = s\<lparr>scheduler_on := False\<rparr>"

partial_function (option) find_tail :: "(tref \<Rightarrow> task_t) \<Rightarrow> tref \<Rightarrow> tref \<Rightarrow> tref option" where
  "find_tail ts head t =
     (if t_next (ts t) = Some head then Some t else t_next (ts t) \<bind> find_tail ts head)"

definition sched_add_task :: "tref option \<Rightarrow> os \<Rightarrow> os option" where
  "sched_add_task task s =
     (case task of
        None \<Rightarrow> Some s
      | Some t \<Rightarrow>
          let s = cli s
          in case ready_head s of
               None \<Rightarrow> Some (sti ((upd_task t (\<lambda>x. x\<lparr>t_next := Some t\<rparr>) s)\<lparr>ready_head := Some t\<rparr>))
             | Some h \<Rightarrow> do { tail \<leftarrow> find_tail (tasks s) h h; Some (sti (insert_after tail t s)) })"

text \<open>The \<^verbatim>\<open>sti\<close> runs when the yielding task is resumed; a new task executes its own in \<^verbatim>\<open>task_wrapper\<close>.\<close>

definition sched_yield :: "os \<Rightarrow> os option" where
  "sched_yield s = do {
     let s = cli s;
     next \<leftarrow> pick_next_ready s;
     s \<leftarrow> switch_to next s;
     Some (sti s)
   }"

definition schedule :: "os \<Rightarrow> os option" where
  "schedule s =
     (if \<not> scheduler_on s then Some s
      else
        let expired = (\<lambda>s. do { next \<leftarrow> pick_next_ready s; switch_to next s })
        in if slice_remaining s > 0 then
             let s = s\<lparr>slice_remaining := slice_remaining s - 1\<rparr>
             in if slice_remaining s > 0 then Some s else expired s
           else expired s)"

definition sched_get_current :: "os \<Rightarrow> tref option" where
  "sched_get_current s = current_task s"

definition sched_is_enabled :: "os \<Rightarrow> bool" where
  "sched_is_enabled s = scheduler_on s"

partial_function (option) find_prev :: "(tref \<Rightarrow> task_t) \<Rightarrow> tref \<Rightarrow> tref \<Rightarrow> tref \<Rightarrow> tref option option" where
  "find_prev ts task start prev =
     (if t_next (ts prev) = Some task then Some (Some prev)
      else t_next (ts prev) \<bind> (\<lambda>p. if p = start then Some None else find_prev ts task start p))"

definition sched_remove_task :: "tref option \<Rightarrow> os \<Rightarrow> os option" where
  "sched_remove_task task s =
     (case (task, ready_head s) of
        (Some t, Some h) \<Rightarrow>
          if t = Boot then Some s
          else
            let s = cli s
            in if t_next (tasks s t) = Some t then
                 Some (sti ((upd_task t (\<lambda>x. x\<lparr>t_next := None\<rparr>) s)\<lparr>ready_head := None\<rparr>))
               else do {
                 r \<leftarrow> find_prev (tasks s) t h h;
                 case r of
                   None \<Rightarrow> Some (sti s)
                 | Some prev \<Rightarrow>
                     let s = upd_task prev (\<lambda>x. x\<lparr>t_next := t_next (tasks s t)\<rparr>) s;
                         s = (if h = t then s\<lparr>ready_head := t_next (tasks s t)\<rparr> else s)
                     in Some (sti (upd_task t (\<lambda>x. x\<lparr>t_next := None\<rparr>) s))
               }
      | _ \<Rightarrow> Some s)"

end
