(* ===== verification/Sched_Props.thy ===== *)
theory Sched_Props
  imports Sched
begin

text \<open>
  The ready queue as a list.  \<open>ready_queue s xs\<close> relates the circular list in the control blocks to the
  order in which its tasks take turns; adding, removing and choosing the next task are list operations on it.
  From this follow that the loops of the scheduler end, that it is fair, and what one context switch does.
\<close>

section \<open>Circular lists\<close>

fun chain :: "(tref \<Rightarrow> task_t) \<Rightarrow> tref list \<Rightarrow> tref \<Rightarrow> bool" where
  "chain ts [] y = True"
| "chain ts (x # xs) y \<longleftrightarrow> t_next (ts x) = Some (hd (xs @ [y])) \<and> chain ts xs y"

definition ring :: "(tref \<Rightarrow> task_t) \<Rightarrow> tref list \<Rightarrow> bool" where
  "ring ts xs \<longleftrightarrow> xs \<noteq> [] \<and> distinct xs \<and> chain ts xs (hd xs)"

definition ready_queue :: "os \<Rightarrow> tref list \<Rightarrow> bool" where
  "ready_queue s xs \<longleftrightarrow> ring (tasks s) xs \<and> ready_head s = Some (hd xs)"

lemma chain_append [simp]: "chain ts (xs @ ys) z \<longleftrightarrow> chain ts xs (hd (ys @ [z])) \<and> chain ts ys z"
  by (induction xs) (auto simp: hd_append)

lemma chain_cong: "(\<And>x. x \<in> set xs \<Longrightarrow> t_next (ts' x) = t_next (ts x)) \<Longrightarrow> chain ts' xs y = chain ts xs y"
  by (induction xs) auto

lemma ring_cong: "(\<And>x. x \<in> set xs \<Longrightarrow> t_next (ts' x) = t_next (ts x)) \<Longrightarrow> ring ts' xs = ring ts xs"
  using chain_cong [of xs ts' ts] by (simp add: ring_def)

lemma ring_rotate: "ring ts (xs @ ys) \<Longrightarrow> ring ts (ys @ xs)"
  by (cases xs; cases ys) (auto simp: ring_def hd_append)

lemma ring_next: "ring ts (x # xs) \<Longrightarrow> t_next (ts x) = Some (hd (xs @ [x]))"
  by (simp add: ring_def)

section \<open>The loops\<close>

text \<open>Each walk over a well-formed queue ends; its result is a list function.\<close>

lemma pick_loop_find:
  "chain ts (t # xs) start \<Longrightarrow> start \<notin> set xs \<Longrightarrow> pick_loop ts start t = Some (List.find (\<lambda>t. runnable (ts t)) (t # xs))"
proof (induction xs arbitrary: t)
  case Nil
  then show ?case by (subst pick_loop.simps) simp
next
  case (Cons x xs)
  then have "pick_loop ts start x = Some (List.find (\<lambda>t. runnable (ts t)) (x # xs))" by simp
  then show ?case using Cons.prems by (subst pick_loop.simps) auto
qed

lemma find_tail_last:
  "chain ts (t # xs) h \<Longrightarrow> h \<notin> set xs \<Longrightarrow> find_tail ts h t = Some (last (t # xs))"
proof (induction xs arbitrary: t)
  case Nil
  then show ?case by (subst find_tail.simps) simp
next
  case (Cons x xs)
  then have "find_tail ts h x = Some (last (x # xs))" by simp
  then show ?case using Cons.prems by (subst find_tail.simps) auto
qed

lemma find_prev_before:
  "chain ts (p # as) t \<Longrightarrow> t \<notin> set as \<Longrightarrow> start \<notin> set as \<Longrightarrow> find_prev ts t start p = Some (Some (last (p # as)))"
proof (induction as arbitrary: p)
  case Nil
  then show ?case by (subst find_prev.simps) simp
next
  case (Cons x xs)
  then have "find_prev ts t start x = Some (Some (last (x # xs)))" by simp
  then show ?case using Cons.prems by (subst find_prev.simps) auto
qed

lemma find_prev_absent:
  "chain ts (p # as) start \<Longrightarrow> t \<notin> set as \<Longrightarrow> t \<noteq> start \<Longrightarrow> start \<notin> set as \<Longrightarrow> find_prev ts t start p = Some None"
proof (induction as arbitrary: p)
  case Nil
  then show ?case by (subst find_prev.simps) simp
next
  case (Cons x xs)
  then have "find_prev ts t start x = Some None" by simp
  then show ?case using Cons.prems by (subst find_prev.simps) auto
qed

section \<open>Operations on the queue\<close>

lemma tasks_upd_task [simp]: "tasks (upd_task t f s) = (tasks s)(t := f (tasks s t))"
  by (simp add: upd_task_def)

lemma upd_task_fields [simp]:
  "current_task (upd_task t f s) = current_task s" "ready_head (upd_task t f s) = ready_head s"
  "scheduler_on (upd_task t f s) = scheduler_on s" "slice_remaining (upd_task t f s) = slice_remaining s"
  "next_task_id (upd_task t f s) = next_task_id s" "tss (upd_task t f s) = tss s"
  "kvm (upd_task t f s) = kvm s" "regs (upd_task t f s) = regs s" "intr (upd_task t f s) = intr s"
  by (simp_all add: upd_task_def)

lemma cli_sti_fields [simp]:
  "tasks (cli s) = tasks s" "tasks (sti s) = tasks s" "current_task (cli s) = current_task s" "current_task (sti s) = current_task s"
  "ready_head (cli s) = ready_head s" "ready_head (sti s) = ready_head s" "kvm (cli s) = kvm s" "kvm (sti s) = kvm s"
  "slice_remaining (cli s) = slice_remaining s" "slice_remaining (sti s) = slice_remaining s"
  "scheduler_on (cli s) = scheduler_on s" "scheduler_on (sti s) = scheduler_on s" "next_task_id (cli s) = next_task_id s"
  "next_task_id (sti s) = next_task_id s" "regs (cli s) = regs s" "regs (sti s) = regs s" "tss (cli s) = tss s" "tss (sti s) = tss s"
  "intr (sti s)" "\<not> intr (cli s)"
  by (simp_all add: cli_def sti_def)

text \<open>\<open>same_tasks s s'\<close>: only queue links, the queue head and the interrupt flag may differ.\<close>

definition same_tasks :: "os \<Rightarrow> os \<Rightarrow> bool" where
  "same_tasks s s' \<longleftrightarrow> (\<forall>t. tasks s' t = (tasks s t)\<lparr>t_next := t_next (tasks s' t)\<rparr>) \<and>
     s' = s\<lparr>tasks := tasks s', ready_head := ready_head s', intr := intr s'\<rparr>"

lemma sched_add_queue:
  assumes q: "ready_queue s xs" and t: "t \<notin> set xs"
  shows "\<exists>s'. sched_add_task (Some t) s = Some s' \<and> ready_queue s' (xs @ [t]) \<and> same_tasks s s' \<and> intr s' \<and>
    (\<forall>u. u \<notin> set (xs @ [t]) \<longrightarrow> tasks s' u = tasks s u)"
proof -
  obtain h ys where xs: "xs = h # ys" using q by (cases xs) (auto simp: ready_queue_def ring_def)
  have c: "chain (tasks s) (h # ys) h" "h \<notin> set ys" "distinct ys" "ready_head s = Some h"
    using q by (auto simp: ready_queue_def ring_def xs)
  obtain zs l where zs: "h # ys = zs @ [l]" by (metis rev_exhaust list.discI)
  let ?s = "sti (insert_after l t (cli s))"
  have run: "sched_add_task (Some t) s = Some ?s"
    using find_tail_last [OF c(1,2)] c(4) by (simp add: sched_add_task_def zs)
  have d: "distinct (zs @ [l])" "t \<notin> set (zs @ [l])" using c(2,3) t unfolding xs zs [symmetric] by simp_all
  have chain: "chain (tasks s) zs l" "t_next (tasks s l) = Some h" using c(1) unfolding zs by auto
  have "chain (tasks ?s) zs l"
    using chain(1) d by (subst chain_cong [of _ _ "tasks s"]) (auto simp: insert_after_def)
  then have "chain (tasks ?s) (zs @ [l] @ [t]) h" using chain(2) d by (simp add: insert_after_def)
  then have "chain (tasks ?s) (xs @ [t]) h" unfolding xs zs by simp
  then have "ring (tasks ?s) (xs @ [t])" using c(2,3) t by (auto simp: ring_def xs)
  moreover have "same_tasks s ?s"
    using d by (auto simp: same_tasks_def insert_after_def upd_task_def cli_def sti_def)
  moreover have "l \<in> set xs" using zs xs by (metis in_set_conv_decomp)
  then have "\<forall>u. u \<notin> set (xs @ [t]) \<longrightarrow> tasks ?s u = tasks s u" by (auto simp: insert_after_def)
  ultimately show ?thesis using run c(4) xs by (auto simp: ready_queue_def insert_after_def)
qed

lemma find_prev_ring:
  assumes q: "ring ts xs" and t: "t \<in> set xs" "t_next (ts t) \<noteq> Some t"
  obtains as bs p where "xs = as @ t # bs" "find_prev ts t (hd xs) (hd xs) = Some (Some p)"
    "p \<in> set (as @ bs)" "as \<noteq> [] \<longrightarrow> p = last as" "as = [] \<longrightarrow> p = last bs"
proof -
  obtain as bs where xs: "xs = as @ t # bs" using t(1) by (meson split_list)
  have d: "distinct (as @ t # bs)" and c: "chain ts (as @ t # bs) (hd xs)" using q by (simp_all add: ring_def xs)
  have ne: "as @ bs \<noteq> []" using c t(2) by (cases as; cases bs) (auto simp: xs)
  show thesis
  proof (cases as)
    case Nil
    then obtain b bs' where bs: "bs = b # bs'" using ne by (cases bs) auto
    have h: "hd xs = t" by (simp add: xs Nil)
    have tt: "t_next (ts t) = Some b" and cb: "chain ts (b # bs') t" using c by (simp_all add: Nil bs h)
    have "find_prev ts t t b = Some (Some (last (b # bs')))"
      using d cb by (intro find_prev_before) (auto simp: Nil bs)
    moreover have "find_prev ts t t t = find_prev ts t t b"
      using tt d by (subst find_prev.simps) (auto simp: Nil bs)
    ultimately show thesis using that [of as bs "last bs"] xs h by (simp add: Nil bs)
  next
    case (Cons a as')
    then have "find_prev ts t a a = Some (Some (last (a # as')))"
      using c d by (intro find_prev_before) (auto simp: hd_append)
    then show thesis using that [of as bs "last as"] xs Cons by auto
  qed
qed

lemma sched_remove_queue:
  assumes q: "ready_queue s xs" and t: "t \<in> set xs" "t \<noteq> Boot" "xs \<noteq> [t]"
  shows "\<exists>s'. sched_remove_task (Some t) s = Some s' \<and> ready_queue s' (remove1 t xs) \<and> same_tasks s s' \<and>
    t_next (tasks s' t) = None \<and> intr s' \<and> (\<forall>u. u \<notin> set xs \<longrightarrow> tasks s' u = tasks s u)"
proof -
  have r: "ring (tasks s) xs" "ready_head s = Some (hd xs)" using q by (simp_all add: ready_queue_def)
  have nt: "t_next (tasks s t) \<noteq> Some t"
  proof -
    obtain as bs where xs: "xs = as @ t # bs" using t(1) by (meson split_list)
    have ring: "ring (tasks s) (t # bs @ as)" using ring_rotate [of _ as "t # bs"] r(1) xs by simp
    have "bs @ as \<noteq> []" "t \<notin> set (bs @ as)" using ring t(3) xs by (auto simp: ring_def)
    then have "hd ((bs @ as) @ [t]) \<noteq> t" by (metis hd_append2 hd_in_set)
    then show ?thesis using ring_next [OF ring] by simp
  qed
  obtain as bs p where xs: "xs = as @ t # bs" and fp: "find_prev (tasks s) t (hd xs) (hd xs) = Some (Some p)"
    and p: "p \<in> set (as @ bs)" "as \<noteq> [] \<longrightarrow> p = last as" "as = [] \<longrightarrow> p = last bs"
    by (rule find_prev_ring [OF r(1) t(1) nt])
  have d: "distinct (as @ t # bs)" and ne: "as @ bs \<noteq> []" using r(1) t(3) by (auto simp: ring_def xs)
  have tp: "p \<noteq> t" using p(1) d by auto
  define ts' where "ts' = (tasks s)(p := (tasks s p)\<lparr>t_next := t_next (tasks s t)\<rparr>, t := (tasks s t)\<lparr>t_next := None\<rparr>)"
  let ?s = "sti (cli s\<lparr>tasks := ts', ready_head := Some (hd (as @ bs))\<rparr>)"
  have c: "chain (tasks s) as t" "chain (tasks s) bs (hd xs)" "t_next (tasks s t) = Some (hd (bs @ [hd xs]))"
    using r(1) unfolding ring_def xs by (auto simp: hd_append)
  have run: "sched_remove_task (Some t) s = Some ?s"
  proof (cases as)
    case Nil
    then have "hd xs = t" "hd (bs @ [hd xs]) = hd (as @ bs)" using ne by (auto simp: xs)
    then show ?thesis
      using fp nt t(2) r(2) c(3) tp
      by (simp add: sched_remove_task_def Let_def ts'_def cli_def sti_def upd_task_def fun_upd_twist)
  next
    case (Cons a as')
    then have "hd xs \<noteq> t" "hd (as @ bs) = hd xs" using d by (auto simp: xs)
    then show ?thesis
      using fp nt t(2) r(2) c(3) tp
      by (simp add: sched_remove_task_def Let_def ts'_def cli_def sti_def upd_task_def fun_upd_twist)
  qed
  have link: "chain ts' ys y" if "chain (tasks s) (ys @ [p]) t" "p \<notin> set ys" "t \<notin> set ys" "y = p" for ys y
    using that by (subst chain_cong [of _ _ "tasks s"]) (auto simp: ts'_def)
  have "ring ts' (as @ bs)"
  proof (cases as rule: rev_cases)
    case Nil
    then obtain ys where ys: "bs = ys @ [p]" using p(3) ne by (metis append_butlast_last_id append_Nil)
    have "chain ts' ys p" using link c(2) d by (auto simp: Nil ys xs)
    moreover have "t_next (ts' p) = Some (hd bs)" using tp c(3) ne by (simp add: ts'_def Nil)
    ultimately show ?thesis using d by (auto simp: ring_def Nil ys)
  next
    case (snoc ys l)
    then have l: "l = p" using p(2) by simp
    have "chain ts' ys p" using link c(1) d by (auto simp: snoc l)
    moreover have "chain ts' bs (hd xs)"
      using c(2) d by (subst chain_cong [of _ _ "tasks s"]) (auto simp: ts'_def snoc l)
    moreover have "t_next (ts' p) = Some (hd (bs @ [hd xs]))" using tp c(3) by (simp add: ts'_def)
    moreover have "hd xs = hd (as @ bs)" by (simp add: xs snoc hd_append)
    ultimately show ?thesis using d by (auto simp: ring_def snoc l)
  qed
  moreover have "remove1 t xs = as @ bs" using d by (simp add: xs remove1_append)
  moreover have "same_tasks s ?s" using tp by (auto simp: same_tasks_def ts'_def cli_def sti_def)
  moreover have "\<forall>u. u \<notin> set xs \<longrightarrow> ts' u = tasks s u" using p(1) by (auto simp: ts'_def xs)
  ultimately show ?thesis using run by (simp add: ready_queue_def ts'_def)
qed

text \<open>
  The contract of the queue: entries leave in the order they came, one of them (the idle task) never leaves.
  \<^verbatim>\<open>task.c\<close> relies on nothing else.
\<close>

locale turn_queue =
  fixes rep :: "'s \<Rightarrow> 'a list \<Rightarrow> bool" and add remove :: "'a \<Rightarrow> 's \<Rightarrow> 's option" and fixed :: 'a
  assumes add_law: "rep s xs \<Longrightarrow> t \<notin> set xs \<Longrightarrow> \<exists>s'. add t s = Some s' \<and> rep s' (xs @ [t])"
    and remove_law: "rep s xs \<Longrightarrow> fixed \<in> set xs \<Longrightarrow> t \<in> set xs \<Longrightarrow> t \<noteq> fixed \<Longrightarrow>
      \<exists>s'. remove t s = Some s' \<and> rep s' (remove1 t xs)"
begin

fun add_all :: "'a list \<Rightarrow> 's \<Rightarrow> 's option" where
  "add_all [] s = Some s"
| "add_all (t # ts) s = add t s \<bind> add_all ts"

fun remove_all :: "'a list \<Rightarrow> 's \<Rightarrow> 's option" where
  "remove_all [] s = Some s"
| "remove_all (t # ts) s = remove t s \<bind> remove_all ts"

lemma add_all_order:
  "rep s xs \<Longrightarrow> distinct (xs @ ts) \<Longrightarrow> \<exists>s'. add_all ts s = Some s' \<and> rep s' (xs @ ts)"
proof (induction ts arbitrary: s xs)
  case (Cons t ts)
  then obtain s1 where "add t s = Some s1" "rep s1 (xs @ [t])" using add_law [of s xs t] by auto
  then show ?case using Cons.IH [of s1 "xs @ [t]"] Cons.prems by auto
qed auto

lemma remove_all_rest:
  "rep s xs \<Longrightarrow> distinct xs \<Longrightarrow> fixed \<in> set xs \<Longrightarrow> distinct ts \<Longrightarrow> set ts \<subseteq> set xs - {fixed} \<Longrightarrow>
   \<exists>s'. remove_all ts s = Some s' \<and> rep s' (filter (\<lambda>x. x \<notin> set ts) xs)"
proof (induction ts arbitrary: s xs)
  case (Cons t ts)
  then obtain s1 where s1: "remove t s = Some s1" "rep s1 (remove1 t xs)" using remove_law [of s xs t] by auto
  have "remove1 t xs = filter ((\<noteq>) t) xs" using Cons.prems(2) distinct_remove1_removeAll [of xs t]
    by (simp add: removeAll_filter_not_eq)
  moreover have "set ts \<subseteq> set (remove1 t xs) - {fixed}" "fixed \<in> set (remove1 t xs)"
    using Cons.prems by (auto simp: in_set_remove1)
  ultimately have "\<exists>s'. remove_all ts s1 = Some s' \<and> rep s' (filter (\<lambda>x. x \<notin> set ts) (filter ((\<noteq>) t) xs))"
    using Cons.IH [OF s1(2)] Cons.prems(2,4) by (simp add: distinct_remove1)
  moreover have "filter (\<lambda>x. x \<notin> set ts) (filter ((\<noteq>) t) xs) = filter (\<lambda>x. x \<notin> set (t # ts)) xs"
    by (simp, metis)
  ultimately show ?case using s1(1) by simp
qed simp

lemma add_remove_all:
  assumes "rep s xs" "distinct (xs @ ts)" "fixed \<in> set xs"
  shows "\<exists>s'. add_all ts s \<bind> remove_all ts = Some s' \<and> rep s' xs"
proof -
  obtain s1 where s1: "add_all ts s = Some s1" "rep s1 (xs @ ts)" using add_all_order [OF assms(1,2)] by blast
  have "filter (\<lambda>x. x \<notin> set ts) (xs @ ts) = xs" using assms(2) by (auto simp: filter_id_conv)
  moreover have "set ts \<subseteq> set (xs @ ts) - {fixed}" using assms(2,3) by auto
  ultimately show ?thesis using remove_all_rest [OF s1(2) assms(2) _ _ \<open>set ts \<subseteq> _\<close>] assms s1(1) by simp
qed

end

interpretation rq: turn_queue ready_queue "\<lambda>t. sched_add_task (Some t)" "\<lambda>t. sched_remove_task (Some t)" Boot
proof unfold_locales
  show "\<exists>s'. sched_add_task (Some t) s = Some s' \<and> ready_queue s' (xs @ [t])"
    if "ready_queue s xs" "t \<notin> set xs" for s xs t using sched_add_queue [OF that] by blast
  show "\<exists>s'. sched_remove_task (Some t) s = Some s' \<and> ready_queue s' (remove1 t xs)"
    if "ready_queue s xs" "Boot \<in> set xs" "t \<in> set xs" "t \<noteq> Boot" for s xs t
  proof -
    have "xs \<noteq> [t]" using that(2,4) by auto
    then show ?thesis using sched_remove_queue [OF that(1,3,4)] by blast
  qed
qed

section \<open>Choosing and switching\<close>

lemma pick_ring:
  assumes "ring (tasks s) (cur # ys)" "current_task s = Some cur"
  shows "pick_next_ready s = Some (case List.find (\<lambda>t. runnable (tasks s t)) (ys @ [cur]) of Some t \<Rightarrow> t | None \<Rightarrow> cur)"
proof -
  have r: "ring (tasks s) (ys @ [cur])" using ring_rotate [of _ "[cur]" ys] assms(1) by simp
  obtain x zs where x: "ys @ [cur] = x # zs" by (cases "ys @ [cur]") auto
  have "pick_loop (tasks s) x x = Some (List.find (\<lambda>t. runnable (tasks s t)) (x # zs))"
    using r unfolding x by (intro pick_loop_find) (auto simp: ring_def)
  moreover have "t_next (tasks s cur) = Some x" using ring_next [OF assms(1)] x by (metis list.sel(1))
  ultimately show ?thesis using assms(2) x by (simp add: pick_next_ready_def)
qed

lemma switch_to_effect:
  assumes "current_task s = Some prev" "next \<noteq> prev"
  shows "\<exists>s'. switch_to next s = Some s' \<and> current_task s' = Some next \<and> slice_remaining s' = SCHED_TIME_SLICE \<and>
    ready_head s' = ready_head s \<and> scheduler_on s' = scheduler_on s \<and> next_task_id s' = next_task_id s \<and> intr s' = intr s \<and>
    tasks s' = (tasks s)(next := (tasks s next)\<lparr>t_state := TASK_RUNNING\<rparr>,
      prev := (tasks s prev)\<lparr>t_state := (if t_state (tasks s prev) = TASK_RUNNING then TASK_READY else t_state (tasks s prev)),
                t_esp := esp (regs s) - 16\<rparr>) \<and>
    tss s' = tss_set_kernel_stack (t_esp0 (tasks s next)) (tss s) \<and>
    kvm s' = (kvm s)\<lparr>mem := mem (kvm s'), cr3 := cr3 (kvm s')\<rparr>"
  using assms by (auto simp: switch_to_def task_switch_def Let_def upd_task_def fun_upd_twist)

text \<open>The processor follows the current task into its address space.\<close>

lemma switch_to_cr3:
  assumes "switch_to next s = Some s'" "current_task s = Some prev" "cr3 (kvm s) = task_cr3 (tasks s prev) (kvm s)"
  shows "cr3 (kvm s') = task_cr3 (tasks s' next) (kvm s')"
  using assms
  by (auto simp: switch_to_def task_switch_def Let_def upd_task_def task_cr3_def paging_get_kernel_cr3_def split: if_splits)

section \<open>Fairness\<close>

text \<open>\<open>turn\<close> is what both \<^verbatim>\<open>sched_yield\<close> and an expired time slice do.\<close>

definition turn :: "os \<Rightarrow> os option" where
  "turn s = pick_next_ready s \<bind> (\<lambda>t. switch_to t s)"

lemma sched_yield_turn: "sched_yield s = map_option sti (turn (cli s))"
  by (simp add: sched_yield_def turn_def Let_def map_conv_bind_option comp_def)

lemma schedule_turn:
  "schedule s = (if \<not> scheduler_on s then Some s
     else if slice_remaining s > 1 then Some (s\<lparr>slice_remaining := slice_remaining s - 1\<rparr>)
     else turn (s\<lparr>slice_remaining := 0\<rparr>))"
proof -
  consider "slice_remaining s = 0" | "slice_remaining s = 1" | "slice_remaining s > 1"
    by (metis word_gt_0 word_less_1 linorder_neqE)
  then show ?thesis
  proof cases
    case 1
    then have eq: "s\<lparr>slice_remaining := 0\<rparr> = s" by simp
    show ?thesis using 1 by (simp add: schedule_def turn_def Let_def eq)
  next
    case 3
    then have "slice_remaining s \<noteq> 0" "slice_remaining s \<noteq> 1" by auto
    then show ?thesis using 3 by (simp add: schedule_def Let_def word_gt_0)
  qed (simp_all add: schedule_def turn_def Let_def)
qed

text \<open>
  \<open>sched_ok s xs c\<close>: the queue is the list \<open>xs\<close>, the current task \<open>c\<close> is in it, no other task is marked running, and the
  slice is within its bound.
\<close>

definition sched_ok :: "os \<Rightarrow> tref list \<Rightarrow> tref \<Rightarrow> bool" where
  "sched_ok s xs c \<longleftrightarrow> ready_queue s xs \<and> current_task s = Some c \<and> c \<in> set xs \<and>
     (\<forall>t \<in> set xs. t_state (tasks s t) = TASK_RUNNING \<longrightarrow> t = c) \<and> slice_remaining s \<le> SCHED_TIME_SLICE"

definition after_cur :: "tref list \<Rightarrow> tref \<Rightarrow> tref list" where
  "after_cur xs c = tl (dropWhile ((\<noteq>) c) xs) @ takeWhile ((\<noteq>) c) xs @ [c]"

lemma after_cur_split: "c \<notin> set as \<Longrightarrow> after_cur (as @ c # bs) c = bs @ as @ [c]"
proof -
  assume "c \<notin> set as"
  then have "\<And>a. a \<in> set as \<Longrightarrow> c \<noteq> a" by auto
  then show ?thesis by (simp add: after_cur_def)
qed

lemma find_SomeD: "List.find P ys = Some y \<Longrightarrow> y \<in> set ys \<and> P y"
  by (induction ys) (auto split: if_splits)

text \<open>The task that runs next, when the runnable ones are given.\<close>

definition next_turn :: "(tref \<Rightarrow> bool) \<Rightarrow> tref list \<Rightarrow> tref \<Rightarrow> tref" where
  "next_turn P xs c = (case List.find P (after_cur xs c) of Some t \<Rightarrow> t | None \<Rightarrow> c)"

definition can_run :: "os \<Rightarrow> tref \<Rightarrow> bool" where
  "can_run s t = runnable (tasks s t)"

lemma set_after_cur: "c \<in> set xs \<Longrightarrow> distinct xs \<Longrightarrow> set (after_cur xs c) = set xs"
  using split_list [of c xs] after_cur_split by force

lemma turn_ok:
  assumes ok: "sched_ok s xs c"
  defines "u \<equiv> next_turn (can_run s) xs c"
  shows "\<exists>s'. turn s = Some s' \<and> sched_ok s' xs u \<and> scheduler_on s' = scheduler_on s \<and> can_run s' = can_run s \<and>
     (u = c \<and> s' = s \<or> u \<noteq> c \<and> switch_to u s = Some s')"
proof -
  have c: "c \<in> set xs" "ring (tasks s) xs" "ready_head s = Some (hd xs)" "current_task s = Some c"
    using ok by (auto simp: sched_ok_def ready_queue_def)
  obtain as bs where xs: "xs = as @ c # bs" using c(1) by (meson split_list)
  have d: "c \<notin> set as" using c(2) by (auto simp: ring_def xs)
  have "ring (tasks s) (c # bs @ as)" using ring_rotate [of _ as "c # bs"] c(2) by (simp add: xs)
  from pick_ring [OF this c(4)] have pick: "pick_next_ready s = Some u"
    using d by (simp add: u_def next_turn_def xs after_cur_split can_run_def [abs_def])
  show ?thesis
  proof (cases "u = c")
    case True
    then have "turn s = Some s" using pick c(4) by (simp add: turn_def switch_to_def)
    then show ?thesis using ok True by simp
  next
    case False
    then have "List.find (\<lambda>t. runnable (tasks s t)) (after_cur xs c) = Some u"
      by (simp add: u_def next_turn_def can_run_def [abs_def] split: option.splits)
    from find_SomeD [OF this] have u: "runnable (tasks s u)" "u \<in> set xs"
      using set_after_cur [OF c(1)] c(2) by (simp_all add: ring_def)
    obtain s' where s': "switch_to u s = Some s'" "current_task s' = Some u" "slice_remaining s' = SCHED_TIME_SLICE"
      "ready_head s' = ready_head s" "scheduler_on s' = scheduler_on s" and ts: "tasks s' = (tasks s)(u := (tasks s u)\<lparr>t_state := TASK_RUNNING\<rparr>,
      c := (tasks s c)\<lparr>t_state := (if t_state (tasks s c) = TASK_RUNNING then TASK_READY else t_state (tasks s c)),
                t_esp := esp (regs s) - 16\<rparr>)"
      using switch_to_effect [OF c(4) False] by blast
    have n: "t_next (tasks s' t) = t_next (tasks s t) \<and> (runnable (tasks s' t) \<longleftrightarrow> runnable (tasks s t))" for t
      using u(1) by (auto simp: ts runnable_def)
    have "ring (tasks s') xs" using c(2) n by (simp only: ring_cong [of xs "tasks s'" "tasks s"])
    moreover have "t = u" if t: "t \<in> set xs" "t_state (tasks s' t) = TASK_RUNNING" for t
    proof (rule ccontr)
      assume "t \<noteq> u"
      moreover have "t_state (tasks s' c) \<noteq> TASK_RUNNING" by (simp add: ts)
      ultimately have "t \<noteq> c" "t_state (tasks s t) = TASK_RUNNING" using t(2) by (auto simp: ts split: if_splits)
      then show False using ok t(1) by (simp add: sched_ok_def)
    qed
    ultimately have "sched_ok s' xs u" using s' c(3) u(2) by (simp add: sched_ok_def ready_queue_def)
    then show ?thesis using pick s'(1,5) n False by (simp add: turn_def can_run_def fun_eq_iff)
  qed
qed

lemma after_cur_rotate:
  assumes "distinct xs" "i < length xs"
  shows "after_cur xs (xs ! i) = rotate (Suc i) xs"
proof -
  have xs: "xs = take i xs @ xs ! i # drop (Suc i) xs" by (rule id_take_nth_drop [OF assms(2)])
  have "xs ! i \<notin> set (take i xs)" using assms(1) by (subst (asm) xs) auto
  then have "after_cur xs (xs ! i) = drop (Suc i) xs @ take (Suc i) xs"
    using after_cur_split [of "xs ! i" "take i xs" "drop (Suc i) xs"] xs assms(2) by (simp add: take_Suc_conv_app_nth)
  then show ?thesis using assms(2) by (cases "Suc i = length xs") (simp_all add: rotate_drop_take)
qed

lemma after_cur_step:
  assumes d: "distinct xs" "c \<in> set xs" and u: "after_cur xs c = as @ u # bs"
  shows "after_cur xs u = bs @ as @ [u]" "u \<in> set xs"
proof -
  obtain i where i: "c = xs ! i" "i < length xs" using d(2) by (metis in_set_conv_nth)
  have rot: "rotate (Suc i) xs = as @ u # bs" using after_cur_rotate [OF d(1) i(2)] u i(1) by simp
  let ?j = "(Suc i + length as) mod length xs"
  have len: "length as < length xs" using arg_cong [OF rot, of length] by simp
  have "u = rotate (Suc i) xs ! length as" using rot by simp
  also have "\<dots> = xs ! ?j" using len by (simp add: nth_rotate del: rotate_Suc)
  finally have uj: "u = xs ! ?j" .
  have j: "?j < length xs" using i(2) by (intro mod_less_divisor) auto
  then show "u \<in> set xs" using uj by simp
  have "after_cur xs u = rotate (Suc ?j) xs" using after_cur_rotate [OF d(1) j] uj by simp
  also have "\<dots> = rotate (Suc (length as) + Suc i) xs" by (subst (1 2) rotate_conv_mod) (simp add: mod_Suc_eq add.commute)
  also have "\<dots> = rotate (length (as @ [u])) ((as @ [u]) @ bs)"
    unfolding rotate_rotate [symmetric] rot by simp
  finally show "after_cur xs u = bs @ as @ [u]" unfolding rotate_append by simp
qed

primrec ticks :: "nat \<Rightarrow> os \<Rightarrow> os option" where
  "ticks 0 s = Some s"
| "ticks (Suc n) s = schedule s \<bind> ticks n"

lemma ticks_add: "ticks (m + n) s = ticks m s \<bind> ticks n"
  by (induction m arbitrary: s) (auto split: bind_splits)

lemma ticks_turn:
  assumes "sched_ok s xs c" "scheduler_on s"
  shows "\<exists>n s'. 1 \<le> n \<and> n \<le> 10 \<and> ticks n s = Some s' \<and> sched_ok s' xs (next_turn (can_run s) xs c) \<and>
    scheduler_on s' \<and> can_run s' = can_run s"
proof -
  have "\<exists>n s'. 1 \<le> n \<and> n \<le> max 1 k \<and> ticks n s = Some s' \<and> sched_ok s' xs (next_turn (can_run s) xs c) \<and>
    scheduler_on s' \<and> can_run s' = can_run s" if "unat (slice_remaining s) = k" for k
    using that assms
  proof (induction k arbitrary: s)
    case 0
    then have "slice_remaining s = 0" by (simp add: unat_eq_zero)
    then have "schedule s = turn (s\<lparr>slice_remaining := 0\<rparr>)" "s\<lparr>slice_remaining := 0\<rparr> = s" using 0 by (simp_all add: schedule_turn)
    then have "ticks 1 s = turn s" by (simp add: bind_eq_Some_conv split: bind_splits)
    then show ?case using turn_ok [OF 0(2)] 0(3) by (intro exI [of _ 1]) auto
  next
    case (Suc k)
    have sl: "unat (slice_remaining s) = Suc k" by (rule Suc.prems(1))
    show ?case
    proof (cases "slice_remaining s > 1")
      case True
      let ?s = "s\<lparr>slice_remaining := slice_remaining s - 1\<rparr>"
      have st: "schedule s = Some ?s" using True Suc.prems(3) by (simp add: schedule_turn)
      have "slice_remaining s \<noteq> 0" using sl by auto
      then have k: "unat (slice_remaining ?s) = k" using sl by (simp add: unat_minus_one)
      have "slice_remaining ?s \<le> SCHED_TIME_SLICE"
        using k sl Suc.prems(2) by (simp add: sched_ok_def word_le_nat_alt)
      then have "sched_ok ?s xs c" using Suc.prems(2) by (simp add: sched_ok_def ready_queue_def)
      from Suc.IH [OF k this] Suc.prems(3) obtain n s' where n: "1 \<le> n" "n \<le> max 1 k" "ticks n ?s = Some s'"
        "sched_ok s' xs (next_turn (can_run ?s) xs c)" "scheduler_on s'" "can_run s' = can_run ?s" by auto
      have "can_run ?s = can_run s" by (simp add: can_run_def fun_eq_iff)
      moreover have "1 \<le> k" using True sl by (simp add: word_less_nat_alt)
      ultimately show ?thesis using n st by (intro exI [of _ "Suc n"] exI [of _ s']) auto
    next
      case False
      let ?s = "s\<lparr>slice_remaining := 0\<rparr>"
      have ok: "sched_ok ?s xs c" using Suc.prems(2) by (simp add: sched_ok_def ready_queue_def)
      have "ticks 1 s = turn ?s" using False Suc.prems(3) by (simp add: schedule_turn split: bind_splits)
      moreover have "can_run ?s = can_run s" by (simp add: can_run_def fun_eq_iff)
      ultimately show ?thesis using turn_ok [OF ok] Suc.prems(3) by (intro exI [of _ 1]) auto
    qed
  qed
  from this [OF refl] obtain n s' where "1 \<le> n" "n \<le> max 1 (unat (slice_remaining s))" "ticks n s = Some s'"
    "sched_ok s' xs (next_turn (can_run s) xs c)" "scheduler_on s'" "can_run s' = can_run s" by blast
  moreover have "unat (slice_remaining s) \<le> 10" using assms(1) by (simp add: sched_ok_def word_le_nat_alt)
  ultimately show ?thesis by (intro exI [of _ n] exI [of _ s']) simp
qed

lemma find_first: "\<forall>x \<in> set as. \<not> P x \<Longrightarrow> P t \<Longrightarrow> List.find P (as @ t # bs) = Some t"
  by (induction as) auto

lemma ticks_reach:
  assumes "sched_ok s xs c" "scheduler_on s" "after_cur xs c = as @ t # bs" "can_run s t"
  shows "\<exists>n s'. 1 \<le> n \<and> n \<le> 10 * Suc (length as) \<and> ticks n s = Some s' \<and> sched_ok s' xs t"
  using assms
proof (induction "length as" arbitrary: as bs s c rule: less_induct)
  case less
  have c: "c \<in> set xs" "distinct xs" using less.prems(1) by (auto simp: sched_ok_def ready_queue_def ring_def)
  define u where "u = next_turn (can_run s) xs c"
  obtain n s' where n: "1 \<le> n" "n \<le> 10" "ticks n s = Some s'" "sched_ok s' xs u" "scheduler_on s'" "can_run s' = can_run s"
    using ticks_turn [OF less.prems(1,2)] unfolding u_def by blast
  show ?case
  proof (cases "\<exists>x \<in> set as. can_run s x")
    case False
    then have "u = t" using less.prems(3,4) by (simp add: u_def next_turn_def find_first)
    then show ?thesis using n by (intro exI [of _ n] exI [of _ s']) auto
  next
    case True
    then obtain a1 v a2 where a: "as = a1 @ v # a2" "can_run s v" "\<forall>x \<in> set a1. \<not> can_run s x"
      by (rule split_list_first_propE)
    have "u = v" using a less.prems(3) by (simp add: u_def next_turn_def find_first)
    moreover have "after_cur xs v = (a2 @ t # bs) @ a1 @ [v]" using after_cur_step(1) [OF c(2,1), of a1 v] less.prems(3) a(1) by simp
    ultimately have "\<exists>n s''. 1 \<le> n \<and> n \<le> 10 * Suc (length a2) \<and> ticks n s' = Some s'' \<and> sched_ok s'' xs t"
      using less.hyps [of a2 s' u "bs @ a1 @ [v]"] n less.prems(4) a(1) by simp
    then obtain k s'' where "1 \<le> k" "k \<le> 10 * Suc (length a2)" "ticks k s' = Some s''" "sched_ok s'' xs t" by blast
    then show ?thesis using n a(1) by (intro exI [of _ "n + k"] exI [of _ s'']) (simp add: ticks_add)
  qed
qed

section \<open>Context switches\<close>

lemma word_aligned_minus:
  assumes "unat a mod 4 = 0" "unat b mod 4 = 0"
  shows "unat (a - b :: u32) mod 4 = 0"
proof -
  obtain x y where xy: "unat a = 4 * x" "unat b = 4 * y" using assms by (metis mod_0_imp_dvd dvdE)
  have "unat (a - b) = (if unat b \<le> unat a then unat a - unat b else unat a + 2 ^ 32 - unat b)"
    by (simp add: unat_sub_if')
  also have "\<dots> = 4 * (if y \<le> x then x - y else x + 2 ^ 30 - y)" by (simp add: xy diff_mult_distrib2 add_mult_distrib2)
  finally show ?thesis by (simp only: mod_mult_self1_is_0)
qed

text \<open>The five words at the top of a suspended stack: four registers and the return address.\<close>

definition switch_frame :: "u32 \<Rightarrow> u32 set" where
  "switch_frame sp = {sp - 16, sp - 12, sp - 8, sp - 4, sp}"

definition push_frame :: "u32 \<Rightarrow> u32 set" where
  "push_frame sp = {sp - 16, sp - 12, sp - 8, sp - 4}"

lemma task_switch_mem:
  assumes "unat (esp (regs s)) mod 4 = 0" "unat a mod 4 = 0" "a \<notin> push_frame (esp (regs s))"
  shows "read32 (mem (kvm (task_switch t n s))) a = read32 (mem (kvm s)) a"
proof -
  have "unat (esp (regs s) - k) mod 4 = 0" if "unat k mod 4 = 0" for k using word_aligned_minus [OF assms(1) that] .
  note al = this [of 4] this [of 8] this [of 12] this [of 16]
  have "esp (regs s) - 16 \<noteq> a" "esp (regs s) - 12 \<noteq> a" "esp (regs s) - 8 \<noteq> a" "esp (regs s) - 4 \<noteq> a"
    using assms(3) by (auto simp: push_frame_def)
  then show ?thesis using al assms(2) by (simp add: task_switch_def Let_def read32_write32_other)
qed

lemma task_switch_saves:
  fixes t n s
  assumes "unat (esp (regs s)) mod 4 = 0"
  defines "sp \<equiv> esp (regs s)" and "m \<equiv> mem (kvm (task_switch t n s))"
  shows "read32 m (sp - 16) = ebp (regs s)" "read32 m (sp - 12) = edi (regs s)" "read32 m (sp - 8) = esi (regs s)"
    "read32 m (sp - 4) = ebx (regs s)" "read32 m sp = read32 (mem (kvm s)) sp"
    "t_esp (tasks (task_switch t n s) t) = sp - 16"
proof -
  have "unat (sp - k) mod 4 = 0" if "unat k mod 4 = 0" for k using word_aligned_minus [OF assms(1) that] by (simp add: sp_def)
  note al = this [of 4] this [of 8] this [of 12] this [of 16] assms(1) [folded sp_def]
  show "read32 m (sp - 16) = ebp (regs s)" "read32 m (sp - 12) = edi (regs s)" "read32 m (sp - 8) = esi (regs s)"
    "read32 m (sp - 4) = ebx (regs s)"  "read32 m sp = read32 (mem (kvm s)) sp"
    using al by (simp_all add: m_def task_switch_def Let_def sp_def [symmetric] read32_write32_same read32_write32_other)
  show "t_esp (tasks (task_switch t n s) t) = sp - 16" by (simp add: task_switch_def Let_def sp_def)
qed

section \<open>Properties\<close>

text \<open>(C3) Round-robin fairness: with the scheduler on and a well-formed queue, each runnable task of the queue gets the processor within
  ten timer ticks (one time slice) per task in the queue, and all ticks up to then return.\<close>

theorem schedule_fair:
  assumes "sched_ok s xs c" "scheduler_on s" "t \<in> set xs" "runnable (tasks s t)"
  shows "\<exists>n s'. 1 \<le> n \<and> n \<le> 10 * length xs \<and> ticks n s = Some s' \<and> current_task s' = Some t"
proof -
  have c: "c \<in> set xs" "distinct xs" using assms(1) by (auto simp: sched_ok_def ready_queue_def ring_def)
  obtain as bs where a: "after_cur xs c = as @ t # bs"
    using assms(3) set_after_cur [OF c] by (metis split_list)
  have "length (after_cur xs c) = length xs" using split_list [OF c(1)] c(2) after_cur_split by force
  then have "10 * Suc (length as) \<le> 10 * length xs" using a by simp
  moreover obtain n s' where "1 \<le> n" "n \<le> 10 * Suc (length as)" "ticks n s = Some s'" "sched_ok s' xs t"
    using ticks_reach [OF assms(1,2) a] assms(4) by (auto simp: can_run_def)
  ultimately show ?thesis by (intro exI [of _ n] exI [of _ s']) (simp add: sched_ok_def)
qed

text \<open>(C7) The circular list of control blocks implements a first-in first-out list: \<^verbatim>\<open>sched_add_task\<close> appends,
  \<^verbatim>\<open>sched_remove_task\<close> deletes a task other than the idle task, both return, neither changes anything of a task but its link, and removing the tasks
  of a list just added restores the queue.\<close>

theorem ready_queue_refines:
  assumes "ready_queue s xs" "Boot \<in> set xs" "distinct (xs @ ts)"
  shows "(\<forall>t. t \<notin> set xs \<longrightarrow> (\<exists>s'. sched_add_task (Some t) s = Some s' \<and> ready_queue s' (xs @ [t]) \<and> same_tasks s s')) \<and>
    (\<forall>t \<in> set xs. t \<noteq> Boot \<longrightarrow> (\<exists>s'. sched_remove_task (Some t) s = Some s' \<and> ready_queue s' (remove1 t xs) \<and> same_tasks s s')) \<and>
    (\<exists>s'. rq.add_all ts s \<bind> rq.remove_all ts = Some s' \<and> ready_queue s' xs)"
proof (intro conjI allI ballI impI)
  show "\<exists>s'. sched_add_task (Some t) s = Some s' \<and> ready_queue s' (xs @ [t]) \<and> same_tasks s s'" if "t \<notin> set xs" for t
    using sched_add_queue [OF assms(1) that] by blast
  show "\<exists>s'. sched_remove_task (Some t) s = Some s' \<and> ready_queue s' (remove1 t xs) \<and> same_tasks s s'"
    if "t \<in> set xs" "t \<noteq> Boot" for t
  proof -
    have "xs \<noteq> [t]" using assms(2) that(2) by auto
    then show ?thesis using sched_remove_queue [OF assms(1) that] by blast
  qed
  show "\<exists>s'. rq.add_all ts s \<bind> rq.remove_all ts = Some s' \<and> ready_queue s' xs"
    by (rule rq.add_remove_all [OF assms(1,3,2)])
qed

text \<open>(C21) A suspended task resumes where it left: if \<^verbatim>\<open>task_switch\<close> suspends a task and its saved frame is intact when another
  \<^verbatim>\<open>task_switch\<close> selects it, the callee-saved registers and the stack pointer are those of the suspension and control
  continues at the return address of the suspending call.\<close>

theorem task_switch_resumes:
  assumes "unat (esp (regs s)) mod 4 = 0" "unat (esp (regs s2)) mod 4 = 0"
    and "\<forall>a \<in> switch_frame (esp (regs s)). read32 (mem (kvm s2)) a = read32 (mem (kvm (task_switch p n s))) a"
    and "t_esp (tasks s2 p) = t_esp (tasks (task_switch p n s) p)"
    and "push_frame (esp (regs s2)) \<inter> switch_frame (esp (regs s)) = {}"
  shows "let c = regs s; c' = regs (task_switch q (t_esp (tasks s2 p)) s2) in
    ebx c' = ebx c \<and> esi c' = esi c \<and> edi c' = edi c \<and> ebp c' = ebp c \<and> esp c' = esp c + 4 \<and> eip c' = read32 (mem (kvm s)) (esp c)"
proof -
  let ?sp = "esp (regs s)"
  let ?m = "mem (kvm (task_switch q (?sp - 16) s2))"
  have al: "unat a mod 4 = 0" if "a \<in> switch_frame ?sp" for a
    using that assms(1) word_aligned_minus [OF assms(1)] by (auto simp: switch_frame_def)
  have m: "read32 ?m a = read32 (mem (kvm (task_switch p n s))) a" if "a \<in> switch_frame ?sp" for a
    using task_switch_mem [OF assms(2) al [OF that]] assms(3,5) that by auto
  note sv = task_switch_saves [OF assms(1), where t = p and n = n]
  have w: "?sp - 16 + 4 = ?sp - 12" "?sp - 16 + 8 = ?sp - 8" "?sp - 16 + 12 = ?sp - 4" "?sp - 16 + 16 = ?sp" "?sp - 16 + 20 = ?sp + 4"
    by simp_all
  have "regs (task_switch q (?sp - 16) s2) = (regs s2)\<lparr>ebp := read32 ?m (?sp - 16), edi := read32 ?m (?sp - 12),
      esi := read32 ?m (?sp - 8), ebx := read32 ?m (?sp - 4), eip := read32 ?m ?sp, esp := ?sp + 4\<rparr>"
    unfolding task_switch_def Let_def w by (simp add: w)
  then show ?thesis using sv m by (simp add: Let_def assms(4) switch_frame_def)
qed

subsection \<open>Instances\<close>

definition reset_os :: os where
  "reset_os = \<lparr>tasks = (\<lambda>_. zero_task), current_task = None, ready_head = None, scheduler_on = False, slice_remaining = 0,
     next_task_id = 0, tss = \<lparr>tss_prev = 0, tss_esp0 = 0, tss_ss0 = 0, tss_regs = [], tss_trap = 0, tss_iomap_base = 0\<rparr>,
     kvm = boot_vm, regs = \<lparr>ebx = 1, esi = 2, edi = 3, ebp = 4, esp = 0x90000, eip = 0, cs = 8, ss = 16, eflags = 2\<rparr>, intr = False\<rparr>"

lemma sched_init_queue: "ready_queue (sched_init s) [Boot]" "sched_ok (sched_init s) [Boot] Boot"
  by (simp_all add: sched_init_def Let_def ready_queue_def ring_def sched_ok_def)

definition two_tasks :: os where
  "two_tasks = sched_enable (sti (insert_after Boot (Pool 0) (cli (sched_init reset_os))))"

lemma two_tasks_ok: "sched_ok two_tasks [Boot, Pool 0] Boot" "scheduler_on two_tasks" "runnable (tasks two_tasks (Pool 0))"
  by (simp_all add: two_tasks_def sched_enable_def insert_after_def sched_init_def reset_os_def zero_task_def Let_def sched_ok_def
      ready_queue_def ring_def runnable_def)

theorem schedule_fair_witness:
  "runnable (tasks two_tasks (Pool 0)) \<and> (\<exists>n s'. 1 \<le> n \<and> n \<le> 20 \<and> ticks n two_tasks = Some s' \<and> current_task s' = Some (Pool 0))"
  using schedule_fair [OF two_tasks_ok(1,2) _ two_tasks_ok(3)] two_tasks_ok(3) by simp

theorem ready_queue_refines_witness:
  "\<exists>s'. sched_add_task (Some (Pool 0)) (sched_init reset_os) = Some s' \<and> ready_queue s' [Boot, Pool 0]"
  using ready_queue_refines [OF sched_init_queue(1), of "[Pool 0, Pool 1]" reset_os] by auto

theorem task_switch_resumes_witness:
  "let s = sched_init reset_os; s2 = (task_switch Boot 0x300FE4 s)\<lparr>regs := (regs s)\<lparr>esp := 0x300FF0, ebx := 9\<rparr>\<rparr>;
       c' = regs (task_switch (Pool 0) (t_esp (tasks s2 Boot)) s2)
   in ebx c' = 1 \<and> ebp c' = 4 \<and> esp c' = 0x90004"
proof -
  let ?s = "sched_init reset_os"
  let ?s2 = "(task_switch Boot 0x300FE4 ?s)\<lparr>regs := (regs ?s)\<lparr>esp := 0x300FF0, ebx := 9\<rparr>\<rparr>"
  have r: "regs ?s = regs reset_os" by (simp add: sched_init_def Let_def)
  show ?thesis
    using task_switch_resumes [of ?s ?s2 Boot "0x300FE4" "Pool 0"]
    by (simp add: Let_def r) (simp add: reset_os_def push_frame_def switch_frame_def)
qed

end
