(* ===== verification/Task.thy ===== *)
theory Task
  imports Sched_Props
begin

text \<open>
  Task creation and destruction, \<^verbatim>\<open>task.c\<close>.  The addresses the linker gives to code (\<^verbatim>\<open>task_wrapper\<close>,
  \<^verbatim>\<open>enter_usermode\<close> and the system call wrappers) are the record \<open>symbols\<close>.  A creating function returns the new task
  or \<open>None\<close> for the null pointer; the outer option is undefined behaviour, as in the scheduler.
\<close>

section \<open>Definitions\<close>

record symbols =
  sym_task_wrapper :: u32
  sym_enter_usermode :: u32
  sym_sys_exit :: u32
  sym_sys_write :: u32
  sym_sys_read :: u32
  sym_sys_yield :: u32
  sym_sys_getpid :: u32
  sym_sys_sleep :: u32

abbreviation TASK_MAX_TASKS :: nat where "TASK_MAX_TASKS \<equiv> 64"
abbreviation TASK_KERNEL_STACK_SIZE :: u32 where "TASK_KERNEL_STACK_SIZE \<equiv> 4096"

definition free_slot :: "task_t \<Rightarrow> bool" where
  "free_slot t \<longleftrightarrow> t_id t = 0 \<and> t_kernel_stack t = 0"

definition alloc_tcb :: "os \<Rightarrow> tref option" where
  "alloc_tcb s = List.find (\<lambda>t. free_slot (tasks s t)) (map Pool [0..<TASK_MAX_TASKS])"

definition os_alloc_page :: "os \<Rightarrow> u32 \<times> os" where
  "os_alloc_page s = (let (a, v) = vm_alloc_page (kvm s) in (a, s\<lparr>kvm := v\<rparr>))"

definition os_free_page :: "u32 \<Rightarrow> os \<Rightarrow> os" where
  "os_free_page a s = s\<lparr>kvm := vm_free_page a (kvm s)\<rparr>"

text \<open>\<^verbatim>\<open>t->id = ++next_task_id\<close> and the bounded copy of the name.\<close>

definition identify :: "tref \<Rightarrow> string \<Rightarrow> os \<Rightarrow> os option" where
  "identify t name s =
     map_option (\<lambda>n. upd_task t (\<lambda>x. x\<lparr>t_id := next_task_id s + 1, t_name := n[TASK_NAME_MAX - 1 := NUL]\<rparr>)
                       (s\<lparr>next_task_id := next_task_id s + 1\<rparr>))
       (strncpy (t_name (tasks s t)) name (TASK_NAME_MAX - 1))"

text \<open>\<^verbatim>\<open>*(--sp) = v\<close> for each value in turn.\<close>

fun push_words :: "u32 list \<Rightarrow> u32 \<Rightarrow> pmem \<Rightarrow> u32 \<times> pmem" where
  "push_words [] sp m = (sp, m)"
| "push_words (v # vs) sp m = push_words vs (sp - 4) (write32 (sp - 4) v m)"

text \<open>The common end: the frame on the kernel stack, the state, the queue.\<close>

definition start_task :: "tref \<Rightarrow> u32 list \<Rightarrow> os \<Rightarrow> (tref option \<times> os) option" where
  "start_task t frame s = do {
     let (sp, m) = push_words frame (t_esp0 (tasks s t)) (mem (kvm s));
     let s = s\<lparr>kvm := kvm s\<lparr>mem := m\<rparr>\<rparr>;
     let s = upd_task t (\<lambda>x. x\<lparr>t_esp := sp, t_state := TASK_READY, t_next := None\<rparr>) s;
     s \<leftarrow> sched_add_task (Some t) s;
     Some (Some t, s)
   }"

definition task_create :: "symbols \<Rightarrow> u32 \<Rightarrow> string \<Rightarrow> os \<Rightarrow> (tref option \<times> os) option" where
  "task_create sy start name s =
     (case alloc_tcb s of
        None \<Rightarrow> Some (None, s)
      | Some t \<Rightarrow> do {
          s \<leftarrow> identify t name s;
          let (stack_phys, s) = os_alloc_page s;
          if stack_phys = 0 then Some (None, upd_task t (\<lambda>_. zero_task) s)
          else
            let s = upd_task t (\<lambda>x. x\<lparr>t_kernel_stack := stack_phys, t_esp0 := stack_phys + TASK_KERNEL_STACK_SIZE\<rparr>) s
            in start_task t [start, 0, sym_task_wrapper sy, 0, 0, 0, 0] s
        })"

definition task_get_current :: "os \<Rightarrow> tref option" where
  "task_get_current s = sched_get_current s"

text \<open>\<^verbatim>\<open>task_exit\<close> up to its \<^verbatim>\<open>hlt\<close> loop, which a dead task reaches only if no other task is runnable.\<close>

definition task_exit :: "os \<Rightarrow> os option" where
  "task_exit s =
     (let s = (case task_get_current s of Some cur \<Rightarrow> upd_task cur (\<lambda>t. t\<lparr>t_state := TASK_DEAD\<rparr>) s | None \<Rightarrow> s)
      in sched_yield s)"

definition reap_slot :: "nat \<Rightarrow> os \<Rightarrow> os option" where
  "reap_slot i s =
     (let t = tasks s (Pool i)
      in if t_state t = TASK_DEAD \<and> t_kernel_stack t \<noteq> 0 then do {
           s \<leftarrow> sched_remove_task (Some (Pool i)) s;
           let s = os_free_page (t_kernel_stack t) s;
           let s = (if t_page_dir t \<noteq> 0 then s\<lparr>kvm := paging_free_directory (t_page_dir t) (kvm s)\<rparr>
                    else if t_user_stack t \<noteq> 0
                    then os_free_page (t_user_stack t) (s\<lparr>kvm := paging_unmap_page (t_user_stack t) (kvm s)\<rparr>)
                    else s);
           Some (upd_task (Pool i) (\<lambda>_. zero_task) s)
         }
         else Some s)"

fun reap_slots :: "nat list \<Rightarrow> os \<Rightarrow> os option" where
  "reap_slots [] s = Some s"
| "reap_slots (i # is) s = reap_slot i s \<bind> reap_slots is"

definition task_reap :: "os \<Rightarrow> os option" where
  "task_reap s = map_option sti (reap_slots [0..<TASK_MAX_TASKS] (cli s))"

text \<open>The frame of a user task: the five words of the \<^verbatim>\<open>iret\<close>, then that of \<^verbatim>\<open>task_switch\<close>.\<close>

definition user_frame :: "symbols \<Rightarrow> u32 \<Rightarrow> u32 \<Rightarrow> u32 list" where
  "user_frame sy user_esp start =
     [GDT_USER_DATA_SEG, user_esp, 0x202, GDT_USER_CODE_SEG, start, sym_enter_usermode sy, 0, 0, 0, 0]"

definition MAP_USER_PAGE :: "u32 \<Rightarrow> u32 \<Rightarrow> vm \<Rightarrow> vm" where
  "MAP_USER_PAGE dir func_addr v =
     paging_map_page_in dir (PAGE_FRAME func_addr) (PAGE_FRAME func_addr) (PAGE_PRESENT OR PAGE_WRITABLE OR PAGE_USER) v"

definition user_code_pages :: "symbols \<Rightarrow> u32 \<Rightarrow> u32 list" where
  "user_code_pages sy start = [start, start + 0x1000, sym_sys_exit sy, sym_sys_write sy, sym_sys_read sy,
     sym_sys_yield sy, sym_sys_getpid sy, sym_sys_sleep sy]"

definition task_create_user :: "symbols \<Rightarrow> u32 \<Rightarrow> string \<Rightarrow> os \<Rightarrow> (tref option \<times> os) option" where
  "task_create_user sy start name s =
     (case alloc_tcb s of
        None \<Rightarrow> Some (None, s)
      | Some t \<Rightarrow> do {
          s \<leftarrow> identify t name s;
          let s = upd_task t (\<lambda>x. x\<lparr>t_is_user := 1\<rparr>) s;
          let (kstack_phys, s) = os_alloc_page s;
          if kstack_phys = 0 then Some (None, upd_task t (\<lambda>_. zero_task) s)
          else
            let s = upd_task t (\<lambda>x. x\<lparr>t_kernel_stack := kstack_phys, t_esp0 := kstack_phys + TASK_KERNEL_STACK_SIZE\<rparr>) s;
                (clone_dir, v) = paging_clone_directory (kvm s);
                s = s\<lparr>kvm := v\<rparr>
            in if clone_dir = 0 then Some (None, upd_task t (\<lambda>_. zero_task) (os_free_page kstack_phys s))
               else
                 let s = upd_task t (\<lambda>x. x\<lparr>t_page_dir := clone_dir, t_cr3 := clone_dir\<rparr>) s;
                     s = s\<lparr>kvm := fold (MAP_USER_PAGE clone_dir) (user_code_pages sy start) (kvm s)\<rparr>;
                     (ustack_phys, s) = os_alloc_page s
                 in if ustack_phys = 0 then
                      let s = s\<lparr>kvm := paging_free_directory clone_dir (kvm s)\<rparr>
                      in Some (None, upd_task t (\<lambda>_. zero_task) (os_free_page kstack_phys s))
                    else
                      let s = s\<lparr>kvm := kvm s\<lparr>mem := memset ustack_phys 0 TASK_KERNEL_STACK_SIZE (mem (kvm s))\<rparr>\<rparr>;
                          s = upd_task t (\<lambda>x. x\<lparr>t_user_stack := ustack_phys, t_user_stack_top := USER_STACK_TOP\<rparr>) s;
                          s = s\<lparr>kvm := paging_map_page_in clone_dir USER_STACK_VIRT ustack_phys
                                 (PAGE_PRESENT OR PAGE_WRITABLE OR PAGE_USER) (kvm s)\<rparr>
                      in start_task t (user_frame sy (t_user_stack_top (tasks s t)) start) s
        })"

definition task_create_user_mapped ::
  "symbols \<Rightarrow> u32 \<Rightarrow> string \<Rightarrow> u32 \<Rightarrow> u32 \<Rightarrow> u32 \<Rightarrow> os \<Rightarrow> (tref option \<times> os) option" where
  "task_create_user_mapped sy entry_vaddr name dir dir_phys user_esp s =
     (case alloc_tcb s of
        None \<Rightarrow> Some (None, s)
      | Some t \<Rightarrow> do {
          s \<leftarrow> identify t name s;
          let s = upd_task t (\<lambda>x. x\<lparr>t_is_user := 1\<rparr>) s;
          let (kstack_phys, s) = os_alloc_page s;
          if kstack_phys = 0 then Some (None, upd_task t (\<lambda>_. zero_task) s)
          else
            let s = upd_task t (\<lambda>x. x\<lparr>t_kernel_stack := kstack_phys, t_esp0 := kstack_phys + TASK_KERNEL_STACK_SIZE,
                      t_page_dir := dir, t_cr3 := dir_phys, t_user_stack := 0, t_user_stack_top := user_esp\<rparr>) s
            in start_task t (user_frame sy user_esp entry_vaddr) s
        })"

end
