(* ===== verification/Task_Props.thy ===== *)
theory Task_Props
  imports Task
begin

text \<open>
  Properties of tasks: the frame a creating function builds is the one the first context switch consumes; the control
  blocks in use are exactly the queue; reaping frees what the dead tasks hold and nothing else.
\<close>

declare upt_rec_numeral [simp del]

section \<open>Frames\<close>

definition pushed :: "u32 \<Rightarrow> nat \<Rightarrow> u32" where
  "pushed sp i = sp - of_nat (4 * Suc i)"

lemma pushed_aligned:
  assumes "unat sp mod 4 = 0" "4 * Suc i < 4294967296"
  shows "unat (pushed sp i) mod 4 = 0"
  unfolding pushed_def using assms by (intro word_aligned_minus) (simp_all only: unat_of_nat_u32 [of "4 * Suc i"], simp)

lemma pushed_Suc: "pushed sp (Suc i) = pushed (sp - 4) i"
  by (simp add: pushed_def)

lemma pushed_neq: "4 * Suc i < 4294967296 \<Longrightarrow> pushed sp i \<noteq> sp"
proof
  assume *: "4 * Suc i < 4294967296" "pushed sp i = sp"
  then have "(of_nat (4 * Suc i) :: u32) = 0" by (simp only: pushed_def diff_eq_eq) (metis add_cancel_right_right)
  then have "unat (of_nat (4 * Suc i) :: u32) = 0" by (simp only: unat_0)
  then show False using *(1) by (simp only: unat_of_nat_u32) simp
qed

lemma push_words_other:
  assumes "unat sp mod 4 = 0" "unat a mod 4 = 0" "4 * length vs < 4294967296" "\<forall>i < length vs. a \<noteq> pushed sp i"
  shows "read32 (snd (push_words vs sp m)) a = read32 m a"
  using assms
proof (induction vs arbitrary: sp m)
  case (Cons v vs)
  have sp: "unat (sp - 4) mod 4 = 0" using Cons.prems(1) by (intro word_aligned_minus) simp_all
  have "a \<noteq> sp - 4" using Cons.prems(4) by (force simp: pushed_def)
  moreover have "\<forall>i < length vs. a \<noteq> pushed (sp - 4) i" using Cons.prems(4) by (auto simp: pushed_Suc [symmetric])
  ultimately show ?case using Cons.IH [OF sp Cons.prems(2)] Cons.prems(3) sp Cons.prems(2)
    by (simp add: read32_write32_other)
qed simp

lemma push_words_read:
  assumes "unat sp mod 4 = 0" "4 * length vs < 4294967296" "i < length vs"
  shows "read32 (snd (push_words vs sp m)) (pushed sp i) = vs ! i"
  using assms
proof (induction vs arbitrary: sp m i)
  case (Cons v vs)
  have sp: "unat (sp - 4) mod 4 = 0" using Cons.prems(1) by (intro word_aligned_minus) simp_all
  show ?case
  proof (cases i)
    case 0
    have "sp - 4 \<noteq> pushed (sp - 4) i" if "i < length vs" for i
      using pushed_neq [of i "sp - 4"] Cons.prems(2) that by (simp add: eq_commute)
    then show ?thesis
      using push_words_other [OF sp sp, of vs] Cons.prems(2) 0 by (simp add: pushed_def read32_write32_same)
  next
    case (Suc k)
    then show ?thesis using Cons.IH [OF sp, of k] Cons.prems by (simp add: pushed_Suc)
  qed
qed simp

lemma push_words_sp: "fst (push_words vs sp m) = sp - of_nat (4 * length vs)"
  by (induction vs arbitrary: sp m) (simp_all add: diff_diff_eq)

section \<open>What memory management leaves alone\<close>

text \<open>\<open>vm_keeps v v'\<close>: the frame bitmap stays consistent, the processor stays in its address space.\<close>

definition vm_keeps :: "vm \<Rightarrow> vm \<Rightarrow> bool" where
  "vm_keeps v v' \<longleftrightarrow> (pmm_inv (frames v) \<longrightarrow> pmm_inv (frames v')) \<and> cr3 v' = cr3 v \<and> pd_physical_address v' = pd_physical_address v"

lemma vm_keeps_refl: "vm_keeps v v"
  by (simp add: vm_keeps_def)

lemma vm_keeps_trans: "vm_keeps u v \<Longrightarrow> vm_keeps v w \<Longrightarrow> vm_keeps u w"
  by (simp add: vm_keeps_def)

lemma vm_keeps_mem: "vm_keeps u v \<Longrightarrow> vm_keeps u (v\<lparr>mem := m\<rparr>)"
  by (simp add: vm_keeps_def)

lemma vm_keeps_print: "vm_keeps u v \<Longrightarrow> vm_keeps u (vm_print msg v)"
  by (simp add: vm_keeps_def vm_print_def)

lemma vm_keeps_alloc: "vm_alloc_page v = (a, w) \<Longrightarrow> vm_keeps v w"
  using alloc_page_spec(1) by (auto simp: vm_keeps_def vm_alloc_page_def split: prod.splits)

lemma vm_keeps_free: "vm_keeps u v \<Longrightarrow> vm_keeps u (vm_free_page a v)"
  using vm_free_page_effect [of v a] by (auto simp: vm_keeps_def vm_free_page_def vm_print_def split: prod.splits)

lemma vm_keeps_fold: "(\<And>x v. vm_keeps v (f x v)) \<Longrightarrow> vm_keeps v (fold f xs v)"
  by (induction xs arbitrary: v) (auto simp: vm_keeps_refl intro: vm_keeps_trans)

lemma vm_keeps_map_in: "vm_keeps v (paging_map_page_in d virt phys flags v)"
  unfolding paging_map_page_in_def Let_def
  by (auto split: prod.splits intro!: vm_keeps_mem vm_keeps_print vm_keeps_refl intro: vm_keeps_alloc)

lemma vm_keeps_clone:
  assumes "paging_clone_directory v = (d, w)"
  shows "vm_keeps v w"
proof -
  obtain a v1 where a: "vm_alloc_page v = (a, v1)" by fastforce
  let ?v1 = "v1\<lparr>mem := memset a 0 4096 (mem v1)\<rparr>"
  obtain b v2 where b: "vm_alloc_page ?v1 = (b, v2)" by fastforce
  have k1: "vm_keeps v ?v1" using vm_keeps_mem vm_keeps_alloc [OF a] by blast
  have k2: "vm_keeps v v2" by (rule vm_keeps_trans [OF k1 vm_keeps_alloc [OF b]])
  show ?thesis using assms k1 k2 vm_keeps_alloc [OF a]
    by (auto simp: paging_clone_directory_def Let_def a b split: if_splits intro!: vm_keeps_mem vm_keeps_free)
qed

lemma vm_keeps_free_table: "vm_keeps v (free_user_table d i v)"
  unfolding free_user_table_def Let_def by (auto intro!: vm_keeps_fold vm_keeps_free vm_keeps_refl)

lemma vm_keeps_free_directory: "vm_keeps v (paging_free_directory d v)"
  unfolding paging_free_directory_def Let_def
  by (auto intro!: vm_keeps_free vm_keeps_refl vm_keeps_trans [OF _ vm_keeps_fold] vm_keeps_free_table)

section \<open>The invariant\<close>

definition pool_used :: "os \<Rightarrow> tref set" where
  "pool_used s = Pool ` {i. i < TASK_MAX_TASKS \<and> t_kernel_stack (tasks s (Pool i)) \<noteq> 0}"

text \<open>
  \<open>os_inv s xs c\<close>: the queue holds the idle task and exactly the slots with a kernel stack, every other slot is zero, and
  the processor is in the address space of the current task \<open>c\<close>.
\<close>

definition os_inv :: "os \<Rightarrow> tref list \<Rightarrow> tref \<Rightarrow> bool" where
  "os_inv s xs c \<longleftrightarrow> sched_ok s xs c \<and> set xs = insert Boot (pool_used s) \<and>
     (\<forall>i < TASK_MAX_TASKS. t_kernel_stack (tasks s (Pool i)) = 0 \<longrightarrow> tasks s (Pool i) = zero_task) \<and>
     pmm_inv (frames (kvm s)) \<and> cr3 (kvm s) = task_cr3 (tasks s c) (kvm s)"

lemma os_invD:
  assumes "os_inv s xs c"
  shows "sched_ok s xs c" "set xs = insert Boot (pool_used s)" "pmm_inv (frames (kvm s))"
    "\<And>i. i < TASK_MAX_TASKS \<Longrightarrow> t_kernel_stack (tasks s (Pool i)) = 0 \<Longrightarrow> tasks s (Pool i) = zero_task"
    "cr3 (kvm s) = task_cr3 (tasks s c) (kvm s)" "ready_queue s xs" "current_task s = Some c" "c \<in> set xs" "Boot \<in> set xs"
  using assms by (auto simp: os_inv_def sched_ok_def)

lemma alloc_tcb_cases:
  assumes "os_inv s xs c"
  obtains (full) "alloc_tcb s = None" "\<forall>i < TASK_MAX_TASKS. Pool i \<in> set xs"
  | (slot) i where "alloc_tcb s = Some (Pool i)" "i < TASK_MAX_TASKS" "tasks s (Pool i) = zero_task" "Pool i \<notin> set xs"
proof (cases "alloc_tcb s")
  case None
  have "Pool i \<in> set xs" if i: "i < TASK_MAX_TASKS" for i
  proof -
    have "\<not> free_slot (tasks s (Pool i))" using None i by (auto simp: alloc_tcb_def find_None_iff)
    then have "tasks s (Pool i) \<noteq> zero_task" by (auto simp: free_slot_def zero_task_def)
    then have "t_kernel_stack (tasks s (Pool i)) \<noteq> 0" using os_invD(4) [OF assms i] by blast
    then show ?thesis using i by (simp add: os_invD(2) [OF assms] pool_used_def)
  qed
  then show thesis using full None by blast
next
  case (Some t)
  from find_SomeD [OF this [unfolded alloc_tcb_def]] obtain i where i: "t = Pool i" "i < TASK_MAX_TASKS" "free_slot (tasks s (Pool i))"
    by auto
  then have "tasks s (Pool i) = zero_task" "Pool i \<notin> set xs"
    using os_invD(2,4) [OF assms] by (auto simp: free_slot_def pool_used_def)
  then show thesis using slot [of i] Some i by simp
qed

lemma identify_zero:
  assumes "tasks s t = zero_task" "is_cstr name"
  shows "\<exists>n. length n = TASK_NAME_MAX \<and> identify t name s =
    Some (upd_task t (\<lambda>x. x\<lparr>t_id := next_task_id s + 1, t_name := n\<rparr>) (s\<lparr>next_task_id := next_task_id s + 1\<rparr>))"
proof -
  let ?n = "(take 31 (cstr name) @ replicate (31 - length (cstr name)) NUL @ [NUL])[31 := NUL]"
  have "strncpy (replicate TASK_NAME_MAX NUL) name 31 = Some (take 31 (cstr name) @ replicate (31 - length (cstr name)) NUL @ [NUL])"
    using strncpy_eq [OF assms(2), of 31 "replicate TASK_NAME_MAX NUL"] by simp
  then show ?thesis using assms(1) by (intro exI [of _ ?n]) (auto simp: identify_def zero_task_def)
qed

text \<open>Changing a slot outside the queue and the memory manager's state keeps the scheduler's part.\<close>

lemma sched_ok_frame:
  assumes "sched_ok s xs c" "t \<notin> set xs" "tasks s' = (tasks s)(t := x)" "ready_head s' = ready_head s"
    "current_task s' = current_task s" "slice_remaining s' = slice_remaining s"
  shows "sched_ok s' xs c"
proof -
  have *: "tasks s' y = tasks s y" if "y \<in> set xs" for y using that assms(2,3) by auto
  then have "ring (tasks s') xs \<longleftrightarrow> ring (tasks s) xs" by (intro ring_cong) simp
  then show ?thesis using assms * by (simp add: sched_ok_def ready_queue_def)
qed

text \<open>A slot that fails to become a task is zeroed; one that becomes a task joins the queue.\<close>

lemma failed_slot:
  assumes inv: "os_inv s xs c" and t: "tasks s (Pool i) = zero_task" "Pool i \<notin> set xs"
    and s': "tasks s' = (tasks s)(Pool i := zero_task)" "ready_head s' = ready_head s" "current_task s' = current_task s"
      "slice_remaining s' = slice_remaining s" "vm_keeps (kvm s) (kvm s')"
  shows "os_inv s' xs c"
proof -
  have eq: "tasks s' = tasks s" using s'(1) t(1) by (simp add: fun_upd_idem)
  have "sched_ok s' xs c" by (rule sched_ok_frame [OF os_invD(1) [OF inv] t(2) s'(1-4)])
  then show ?thesis using inv s'(5) by (auto simp: os_inv_def eq pool_used_def vm_keeps_def task_cr3_def paging_get_kernel_cr3_def)
qed

lemma start_task_inv:
  assumes inv: "os_inv s xs c" and t: "i < TASK_MAX_TASKS" "Pool i \<notin> set xs"
    and s1: "tasks s1 = (tasks s)(Pool i := x)" "t_kernel_stack x \<noteq> 0" "ready_head s1 = ready_head s"
      "current_task s1 = current_task s" "slice_remaining s1 = slice_remaining s" "vm_keeps (kvm s) (kvm s1)"
  shows "\<exists>s'. start_task (Pool i) frame s1 = Some (Some (Pool i), s') \<and> os_inv s' (xs @ [Pool i]) c \<and>
    (\<exists>n. tasks s' (Pool i) = x\<lparr>t_esp := t_esp0 x - of_nat (4 * length frame), t_state := TASK_READY, t_next := n\<rparr>) \<and>
    kvm s' = (kvm s1)\<lparr>mem := snd (push_words frame (t_esp0 x) (mem (kvm s1)))\<rparr> \<and> regs s' = regs s1"
proof -
  obtain sp m where m: "push_words frame (t_esp0 x) (mem (kvm s1)) = (sp, m)" by fastforce
  have sp: "sp = t_esp0 x - of_nat (4 * length frame)" using push_words_sp [of frame "t_esp0 x" "mem (kvm s1)"] m by simp
  define y where "y = x\<lparr>t_esp := sp, t_state := TASK_READY, t_next := None\<rparr>"
  define s2 where "s2 = upd_task (Pool i) (\<lambda>x. x\<lparr>t_esp := sp, t_state := TASK_READY, t_next := None\<rparr>)
      (s1\<lparr>kvm := (kvm s1)\<lparr>mem := m\<rparr>\<rparr>)"
  have ts: "tasks s2 = (tasks s)(Pool i := y)" using s1(1) by (simp add: s2_def y_def)
  have ok: "sched_ok s2 xs c"
    by (rule sched_ok_frame [OF os_invD(1) [OF inv] t(2) ts]) (simp_all add: s2_def s1)
  then have "ready_queue s2 xs" by (simp add: sched_ok_def)
  from sched_add_queue [OF this t(2)] obtain s' where s': "sched_add_task (Some (Pool i)) s2 = Some s'"
    "ready_queue s' (xs @ [Pool i])" "same_tasks s2 s'" "\<And>u. u \<notin> set (xs @ [Pool i]) \<Longrightarrow> tasks s' u = tasks s2 u" by blast
  have st: "tasks s' u = (tasks s2 u)\<lparr>t_next := t_next (tasks s' u)\<rparr>" for u using s'(3) unfolding same_tasks_def by blast
  have fld: "t_kernel_stack (tasks s' u) = t_kernel_stack (tasks s2 u)" "t_state (tasks s' u) = t_state (tasks s2 u)"
    "t_cr3 (tasks s' u) = t_cr3 (tasks s2 u)" for u by (subst st, simp)+
  have eq: "s' = s2\<lparr>tasks := tasks s', ready_head := ready_head s', intr := intr s'\<rparr>"
    using s'(3) unfolding same_tasks_def by blast
  have rest: "current_task s' = current_task s2" "slice_remaining s' = slice_remaining s2" "kvm s' = kvm s2"
    "regs s' = regs s2" by (subst eq, simp)+
  have "sched_ok s' (xs @ [Pool i]) c"
    using s'(2) ok rest by (auto simp: sched_ok_def fld ts y_def)
  moreover have "pool_used s' = insert (Pool i) (pool_used s)"
    using t(1) s1(2) by (auto simp: pool_used_def fld ts y_def)
  moreover have "tasks s' (Pool j) = zero_task" if j: "j < TASK_MAX_TASKS" "t_kernel_stack (tasks s' (Pool j)) = 0" for j
  proof -
    have "j \<noteq> i" using j(2) s1(2) by (auto simp: fld ts y_def)
    then have z: "tasks s2 (Pool j) = zero_task" using os_invD(4) [OF inv j(1)] j(2) by (simp add: fld ts)
    have "Pool j \<notin> set (xs @ [Pool i])" using j(2) \<open>j \<noteq> i\<close> os_invD(2) [OF inv] by (auto simp: pool_used_def fld ts)
    then show ?thesis using s'(4) z by simp
  qed
  moreover have "vm_keeps (kvm s) (kvm s')" using s1(6) by (auto simp: rest(3) s2_def intro: vm_keeps_mem)
  moreover have "task_cr3 (tasks s' c) (kvm s') = task_cr3 (tasks s c) (kvm s)"
  proof -
    have "tasks s2 c = tasks s c" using os_invD(8) [OF inv] t(2) by (auto simp: ts)
    moreover have "pd_physical_address (kvm s') = pd_physical_address (kvm s)"
      using s1(6) by (simp add: rest(3) s2_def vm_keeps_def)
    ultimately show ?thesis by (simp add: task_cr3_def fld paging_get_kernel_cr3_def)
  qed
  ultimately have "os_inv s' (xs @ [Pool i]) c"
    using inv by (auto simp: os_inv_def vm_keeps_def)
  moreover have "start_task (Pool i) frame s1 = Some (Some (Pool i), s')"
    using s'(1) by (simp add: start_task_def s1(1) m s2_def)
  moreover have "tasks s' (Pool i) = x\<lparr>t_esp := t_esp0 x - of_nat (4 * length frame), t_state := TASK_READY,
      t_next := t_next (tasks s' (Pool i))\<rparr>"
    by (subst st) (simp add: ts y_def sp)
  ultimately show ?thesis using m rest(3,4) by (auto simp: s2_def)
qed

section \<open>Creation\<close>

text \<open>The result of a creating function on a queue \<open>xs\<close>: a new queue, and a new slot or none.\<close>

definition created :: "tref list \<Rightarrow> tref \<Rightarrow> (tref option \<times> os) option \<Rightarrow> bool" where
  "created xs c res \<longleftrightarrow> (\<exists>s'. (res = Some (None, s') \<and> os_inv s' xs c) \<or>
     (\<exists>i < TASK_MAX_TASKS. Pool i \<notin> set xs \<and> res = Some (Some (Pool i), s') \<and> os_inv s' (xs @ [Pool i]) c))"

lemma created_none: "os_inv s' xs c \<Longrightarrow> created xs c (Some (None, s'))"
  by (auto simp: created_def)

lemma created_start:
  assumes "os_inv s xs c" "i < TASK_MAX_TASKS" "Pool i \<notin> set xs" "tasks s1 = (tasks s)(Pool i := x)" "t_kernel_stack x \<noteq> 0"
    "ready_head s1 = ready_head s" "current_task s1 = current_task s" "slice_remaining s1 = slice_remaining s"
    "vm_keeps (kvm s) (kvm s1)"
  shows "created xs c (start_task (Pool i) frame s1)"
  using start_task_inv [OF assms, of frame] assms(2,3) by (auto simp: created_def)

lemma task_create_user_mapped_inv:
  assumes inv: "os_inv s xs c" and name: "is_cstr name"
  shows "created xs c (task_create_user_mapped sy start name dir dir_phys user_esp s)"
  using inv
proof (cases rule: alloc_tcb_cases)
  case full
  then show ?thesis using inv by (simp add: task_create_user_mapped_def created_none)
next
  case (slot i)
  obtain n where n: "identify (Pool i) name s = Some (upd_task (Pool i) (\<lambda>x. x\<lparr>t_id := next_task_id s + 1, t_name := n\<rparr>)
      (s\<lparr>next_task_id := next_task_id s + 1\<rparr>))" using identify_zero [OF slot(3) name] by blast
  obtain a v where a: "vm_alloc_page (kvm s) = (a, v)" by fastforce
  note k = vm_keeps_alloc [OF a]
  show ?thesis
  proof (cases "a = 0")
    case True
    then show ?thesis
      using slot n a by (simp add: task_create_user_mapped_def os_alloc_page_def)
        (intro created_none failed_slot [OF inv slot(3,4)], simp_all add: k)
  next
    case False
    then show ?thesis
      using slot n a by (simp add: task_create_user_mapped_def os_alloc_page_def Let_def)
        (rule created_start [OF inv slot(2,4)], simp add: upd_task_def, simp_all add: k upd_task_def False)
  qed
qed

lemma task_create_inv:
  assumes inv: "os_inv s xs c" and name: "is_cstr name"
  shows "created xs c (task_create sy start name s)"
  using inv
proof (cases rule: alloc_tcb_cases)
  case full
  then show ?thesis using inv by (simp add: task_create_def created_none)
next
  case (slot i)
  obtain n where n: "identify (Pool i) name s = Some (upd_task (Pool i) (\<lambda>x. x\<lparr>t_id := next_task_id s + 1, t_name := n\<rparr>)
      (s\<lparr>next_task_id := next_task_id s + 1\<rparr>))" using identify_zero [OF slot(3) name] by blast
  obtain a v where a: "vm_alloc_page (kvm s) = (a, v)" by fastforce
  note k = vm_keeps_alloc [OF a]
  show ?thesis
  proof (cases "a = 0")
    case True
    then show ?thesis
      using slot n a by (simp add: task_create_def os_alloc_page_def)
        (intro created_none failed_slot [OF inv slot(3,4)], simp_all add: k)
  next
    case False
    then show ?thesis
      using slot n a by (simp add: task_create_def os_alloc_page_def Let_def)
        (rule created_start [OF inv slot(2,4)], simp add: upd_task_def, simp_all add: k upd_task_def False)
  qed
qed

lemma vm_keeps_user_pages: "vm_keeps v (fold (MAP_USER_PAGE d) ps v)"
  by (rule vm_keeps_fold) (simp add: MAP_USER_PAGE_def vm_keeps_map_in)

lemma task_create_user_inv:
  assumes inv: "os_inv s xs c" and name: "is_cstr name"
  shows "created xs c (task_create_user sy start name s)"
  using inv
proof (cases rule: alloc_tcb_cases)
  case full
  then show ?thesis using inv by (simp add: task_create_user_def created_none)
next
  case (slot i)
  obtain n where n: "identify (Pool i) name s = Some (upd_task (Pool i) (\<lambda>x. x\<lparr>t_id := next_task_id s + 1, t_name := n\<rparr>)
      (s\<lparr>next_task_id := next_task_id s + 1\<rparr>))" using identify_zero [OF slot(3) name] by blast
  obtain a v where a: "vm_alloc_page (kvm s) = (a, v)" by fastforce
  obtain d v1 where d: "paging_clone_directory v = (d, v1)" by fastforce
  define v2 where "v2 = fold (MAP_USER_PAGE d) (user_code_pages sy start) v1"
  obtain u v3 where u: "vm_alloc_page v2 = (u, v3)" by fastforce
  have k: "vm_keeps (kvm s) v" by (rule vm_keeps_alloc [OF a])
  then have k1: "vm_keeps (kvm s) v1" using vm_keeps_clone [OF d] by (rule vm_keeps_trans)
  then have k2: "vm_keeps (kvm s) v2" using vm_keeps_user_pages unfolding v2_def by (rule vm_keeps_trans)
  then have k3: "vm_keeps (kvm s) v3" using vm_keeps_alloc [OF u] by (rule vm_keeps_trans)
  note kf = k k1 k2 k3 vm_keeps_free [OF k1] vm_keeps_free [OF vm_keeps_trans [OF k3 vm_keeps_free_directory]]
    vm_keeps_trans [OF vm_keeps_mem [OF k3] vm_keeps_map_in]
  note run = task_create_user_def os_alloc_page_def os_free_page_def Let_def d v2_def [symmetric] u
  consider "a = 0" | "a \<noteq> 0" "d = 0" | "a \<noteq> 0" "d \<noteq> 0" "u = 0" | "a \<noteq> 0" "d \<noteq> 0" "u \<noteq> 0" by blast
  then show ?thesis
  proof cases
    case 4
    then show ?thesis
      using slot n a by (simp add: run)
        (rule created_start [OF inv slot(2,4)], simp add: upd_task_def, simp_all add: kf upd_task_def 4)
  qed (use slot n a in \<open>simp add: run, intro created_none failed_slot [OF inv slot(3,4)]; simp add: kf\<close>)+
qed

end
