(* ===== verification/Task_Steps.thy ===== *)
theory Task_Steps
  imports Task_Props
begin

text \<open>
  The life of tasks as a step relation: what the timer, the running task and the kernel do to the tasks, in any order.
  Every state reached from \<^verbatim>\<open>sched_init\<close> satisfies the invariant, and there every operation returns.  Calls are atomic steps.
\<close>

section \<open>Scheduling steps\<close>

text \<open>The invariant reads of a control block only whether it has a stack, and its address space.\<close>

lemma os_inv_switch:
  assumes inv: "os_inv s xs c" and sw: "switch_to u s = Some s'" "u \<noteq> c" and ok: "sched_ok s' xs u"
  shows "os_inv s' xs u"
proof -
  obtain s1 where "switch_to u s = Some s1" and eff: "current_task s1 = Some u"
    "tasks s1 = (tasks s)(u := (tasks s u)\<lparr>t_state := TASK_RUNNING\<rparr>,
      c := (tasks s c)\<lparr>t_state := (if t_state (tasks s c) = TASK_RUNNING then TASK_READY else t_state (tasks s c)),
                t_esp := esp (regs s) - 16\<rparr>)"
    "kvm s1 = (kvm s)\<lparr>mem := mem (kvm s1), cr3 := cr3 (kvm s1)\<rparr>"
    using switch_to_effect [OF os_invD(7) [OF inv] sw(2)] by blast
  then have eq: "s1 = s'" using sw(1) by simp
  note ts = eff(2) [unfolded eq] and kv = eff(3) [unfolded eq]
  have ks: "t_kernel_stack (tasks s' t) = t_kernel_stack (tasks s t)" for t by (simp add: ts)
  have uc: "u \<in> set xs" using ok by (simp add: sched_ok_def)
  have "tasks s' (Pool i) = zero_task" if "i < TASK_MAX_TASKS" "t_kernel_stack (tasks s' (Pool i)) = 0" for i
  proof -
    have "Pool i \<notin> set xs" using that(2) os_invD(2) [OF inv] by (auto simp: pool_used_def ks)
    then have "tasks s' (Pool i) = tasks s (Pool i)" using uc os_invD(8) [OF inv] by (auto simp: ts)
    then show ?thesis using os_invD(4) [OF inv that(1)] that(2) by simp
  qed
  moreover have "pmm_inv (frames (kvm s'))" by (subst kv) (simp add: os_invD(3) [OF inv])
  moreover have "cr3 (kvm s') = task_cr3 (tasks s' u) (kvm s')"
    by (rule switch_to_cr3 [OF sw(1) os_invD(7) [OF inv] os_invD(5) [OF inv]])
  moreover have "pool_used s' = pool_used s" by (simp add: pool_used_def ks)
  ultimately show ?thesis using ok os_invD(2) [OF inv] by (simp add: os_inv_def)
qed

lemma turn_inv:
  assumes "os_inv s xs c"
  shows "\<exists>s' u. turn s = Some s' \<and> os_inv s' xs u"
proof -
  obtain s' where s': "turn s = Some s'" "sched_ok s' xs (next_turn (can_run s) xs c)"
    "next_turn (can_run s) xs c = c \<and> s' = s \<or> next_turn (can_run s) xs c \<noteq> c \<and> switch_to (next_turn (can_run s) xs c) s = Some s'"
    using turn_ok [OF os_invD(1) [OF assms]] by blast
  then show ?thesis using os_inv_switch [OF assms _ _ s'(2)] assms by metis
qed

text \<open>Fields the invariant does not read.\<close>

lemma os_inv_cong:
  assumes "os_inv s xs c" "tasks s' = tasks s" "ready_head s' = ready_head s" "current_task s' = current_task s"
    "slice_remaining s' \<le> SCHED_TIME_SLICE" "vm_keeps (kvm s) (kvm s')"
  shows "os_inv s' xs c"
  using assms by (auto simp: os_inv_def sched_ok_def ready_queue_def pool_used_def vm_keeps_def task_cr3_def paging_get_kernel_cr3_def)

lemma os_inv_slice: "os_inv s xs c \<Longrightarrow> slice_remaining s \<le> SCHED_TIME_SLICE"
  using os_invD(1) by (auto simp: sched_ok_def)

lemma schedule_inv:
  assumes inv: "os_inv s xs c"
  shows "\<exists>s' u. schedule s = Some s' \<and> os_inv s' xs u"
proof -
  have "slice_remaining s - 1 \<le> SCHED_TIME_SLICE" if "slice_remaining s > 1"
  proof -
    have "slice_remaining s \<noteq> 0" using that by auto
    then have "unat (slice_remaining s - 1) = unat (slice_remaining s) - 1" by (rule unat_minus_one)
    then show ?thesis using os_inv_slice [OF inv] by (simp add: word_le_nat_alt)
  qed
  then have dec: "os_inv (s\<lparr>slice_remaining := slice_remaining s - 1\<rparr>) xs c" if "slice_remaining s > 1"
    using os_inv_cong [OF inv] that by (simp add: vm_keeps_refl)
  have zero: "os_inv (s\<lparr>slice_remaining := 0\<rparr>) xs c" using os_inv_cong [OF inv] by (simp add: vm_keeps_refl)
  consider "\<not> scheduler_on s" | "scheduler_on s" "slice_remaining s > 1" | "scheduler_on s" "\<not> slice_remaining s > 1" by blast
  then show ?thesis
  proof cases
    case 1
    then show ?thesis using inv by (auto simp: schedule_turn)
  next
    case 2
    then show ?thesis using dec by (auto simp: schedule_turn)
  next
    case 3
    then show ?thesis using turn_inv [OF zero] by (simp add: schedule_turn)
  qed
qed

lemma sched_yield_inv:
  assumes inv: "os_inv s xs c"
  shows "\<exists>s' u. sched_yield s = Some s' \<and> os_inv s' xs u"
proof -
  have "os_inv (cli s) xs c" using os_inv_cong [OF inv] os_inv_slice [OF inv] by (simp add: vm_keeps_refl)
  then obtain s' u where s': "turn (cli s) = Some s'" "os_inv s' xs u" using turn_inv by blast
  then have "os_inv (sti s') xs u" using os_inv_cong [OF s'(2)] os_inv_slice [OF s'(2)] by (simp add: vm_keeps_refl)
  then show ?thesis using s'(1) by (auto simp: sched_yield_turn)
qed

text \<open>A running task that exits is dead until it is reaped; it keeps its place in the queue.\<close>

lemma os_inv_state:
  assumes inv: "os_inv s xs c" and st: "st \<noteq> TASK_RUNNING"
  shows "os_inv (upd_task c (\<lambda>t. t\<lparr>t_state := st\<rparr>) s) xs c"
proof -
  let ?s = "upd_task c (\<lambda>t. t\<lparr>t_state := st\<rparr>) s"
  have "ring (tasks ?s) xs \<longleftrightarrow> ring (tasks s) xs" by (rule ring_cong) simp
  then have "sched_ok ?s xs c" using os_invD(1) [OF inv] st by (auto simp: sched_ok_def ready_queue_def)
  moreover have "pool_used ?s = pool_used s" by (auto simp: pool_used_def)
  moreover have "tasks ?s (Pool i) = zero_task" if "i < TASK_MAX_TASKS" "t_kernel_stack (tasks ?s (Pool i)) = 0" for i
  proof -
    have "Pool i \<noteq> c" using that(2) os_invD(2,8) [OF inv] by (auto simp: pool_used_def split: if_splits)
    then show ?thesis using os_invD(4) [OF inv that(1)] that(2) by simp
  qed
  ultimately show ?thesis using inv by (simp add: os_inv_def task_cr3_def)
qed

lemma task_exit_inv:
  assumes inv: "os_inv s xs c"
  shows "\<exists>s' u. task_exit s = Some s' \<and> os_inv s' xs u"
  using sched_yield_inv [OF os_inv_state [OF inv, of TASK_DEAD]] os_invD(7) [OF inv]
  by (simp add: task_exit_def task_get_current_def sched_get_current_def)

section \<open>Reaping\<close>

definition dead :: "task_t \<Rightarrow> bool" where
  "dead t \<longleftrightarrow> t_state t = TASK_DEAD \<and> t_kernel_stack t \<noteq> 0"

lemma vm_keeps_unmap: "vm_keeps v (paging_unmap_page a v)"
  by (simp add: paging_unmap_page_def Let_def vm_keeps_def)

definition reap_vm :: "task_t \<Rightarrow> vm \<Rightarrow> vm" where
  "reap_vm t v =
     (let v = vm_free_page (t_kernel_stack t) v
      in if t_page_dir t \<noteq> 0 then paging_free_directory (t_page_dir t) v
         else if t_user_stack t \<noteq> 0 then vm_free_page (t_user_stack t) (paging_unmap_page (t_user_stack t) v)
         else v)"

lemma vm_keeps_reap: "vm_keeps v (reap_vm t v)"
  unfolding reap_vm_def Let_def using vm_keeps_free [OF vm_keeps_refl, of v "t_kernel_stack t"]
  by (auto intro: vm_keeps_trans vm_keeps_free_directory vm_keeps_unmap vm_keeps_free)

text \<open>The pages a task holds: its kernel stack, and for a process its address space.\<close>

definition task_pages :: "pmem \<Rightarrow> task_t \<Rightarrow> u32 set" where
  "task_pages m t = insert (t_kernel_stack t) (if t_page_dir t = 0 then {} else owned m (t_page_dir t) \<union> leaves m (t_page_dir t))"

definition task_pages_ok :: "task_t \<Rightarrow> bool" where
  "task_pages_ok t \<longleftrightarrow> page_aligned (t_kernel_stack t) \<and> page_aligned (t_page_dir t) \<and> (t_page_dir t = 0 \<longrightarrow> t_user_stack t = 0)"

lemma reap_vm_releases:
  assumes "pmm_inv (frames v)" "task_pages_ok t"
  shows "releases v (reap_vm t v) (task_pages (mem v) t)"
proof -
  let ?v = "vm_free_page (t_kernel_stack t) v"
  have r: "releases v ?v {t_kernel_stack t}" using assms by (intro releases_page) (simp_all add: task_pages_ok_def)
  then have m: "pmm_inv (frames ?v)" "mem ?v = mem v" by (simp_all add: releases_def)
  show ?thesis
  proof (cases "t_page_dir t = 0")
    case True
    then show ?thesis using r assms(2) by (simp add: reap_vm_def task_pages_def task_pages_ok_def)
  next
    case False
    then have "releases ?v (reap_vm t v) (owned (mem v) (t_page_dir t) \<union> leaves (mem v) (t_page_dir t))"
      using paging_free_directory_releases [OF m(1), of "t_page_dir t"] assms(2) m(2) by (simp add: reap_vm_def task_pages_ok_def)
    from releases_trans [OF r this] show ?thesis using False by (simp add: task_pages_def)
  qed
qed

lemma reap_slot_inv:
  assumes inv: "os_inv s xs c" and i: "i < TASK_MAX_TASKS" and cur: "t_state (tasks s c) \<noteq> TASK_DEAD"
  shows "\<exists>s'. reap_slot i s = Some s' \<and>
    os_inv s' (if dead (tasks s (Pool i)) then remove1 (Pool i) xs else xs) c \<and>
    (\<forall>j. tasks s' (Pool j) = (if j = i \<and> dead (tasks s (Pool i)) then zero_task
        else (tasks s (Pool j))\<lparr>t_next := t_next (tasks s' (Pool j))\<rparr>)) \<and>
    t_state (tasks s' c) \<noteq> TASK_DEAD \<and> (dead (tasks s (Pool i)) \<longrightarrow> intr s') \<and>
    kvm s' = (if dead (tasks s (Pool i)) then reap_vm (tasks s (Pool i)) (kvm s) else kvm s)"
proof (cases "dead (tasks s (Pool i))")
  case False
  then show ?thesis using inv cur by (auto simp: reap_slot_def dead_def)
next
  case True
  let ?t = "tasks s (Pool i)"
  have st: "t_state ?t = TASK_DEAD" "t_kernel_stack ?t \<noteq> 0" using True by (simp_all add: dead_def)
  have mem: "Pool i \<in> set xs" using i st(2) os_invD(2) [OF inv] by (simp add: pool_used_def)
  have ne: "xs \<noteq> [Pool i]" using os_invD(9) [OF inv] by auto
  have ci: "c \<noteq> Pool i" using cur st(1) by auto
  have d: "distinct xs" using os_invD(6) [OF inv] by (simp add: ready_queue_def ring_def)
  obtain s1 where s1: "sched_remove_task (Some (Pool i)) s = Some s1" "ready_queue s1 (remove1 (Pool i) xs)" "same_tasks s s1"
    "intr s1" "\<And>u. u \<notin> set xs \<Longrightarrow> tasks s1 u = tasks s u"
    using sched_remove_queue [OF os_invD(6) [OF inv] mem _ ne] by blast
  have link: "tasks s1 u = (tasks s u)\<lparr>t_next := t_next (tasks s1 u)\<rparr>" for u using s1(3) unfolding same_tasks_def by blast
  have eq: "s1 = s\<lparr>tasks := tasks s1, ready_head := ready_head s1, intr := intr s1\<rparr>"
    using s1(3) unfolding same_tasks_def by blast
  have rest: "current_task s1 = Some c" "slice_remaining s1 = slice_remaining s" "kvm s1 = kvm s"
    using os_invD(7) [OF inv] by (subst eq, simp)+
  define v where "v = reap_vm ?t (kvm s)"
  define s' where "s' = upd_task (Pool i) (\<lambda>_. zero_task) (s1\<lparr>kvm := v\<rparr>)"
  have run: "reap_slot i s = Some s'"
    using s1(1) st by (auto simp: reap_slot_def Let_def os_free_page_def s'_def v_def reap_vm_def rest(3))
  have kv: "vm_keeps (kvm s) v" unfolding v_def by (rule vm_keeps_reap)
  have ts: "tasks s' = (tasks s1)(Pool i := zero_task)" by (simp add: s'_def)
  have fld: "t_kernel_stack (tasks s1 u) = t_kernel_stack (tasks s u)" "t_state (tasks s1 u) = t_state (tasks s u)"
    "t_cr3 (tasks s1 u) = t_cr3 (tasks s u)" for u by (subst link, simp)+
  have out: "Pool i \<notin> set (remove1 (Pool i) xs)" using d by simp
  have sub: "set (remove1 (Pool i) xs) = set xs - {Pool i}" using d by simp
  have "sched_ok s1 (remove1 (Pool i) xs) c"
    using s1(2) os_invD(1,8) [OF inv] ci by (simp add: sched_ok_def rest fld sub)
  then have ok: "sched_ok s' (remove1 (Pool i) xs) c"
    by (rule sched_ok_frame [OF _ out]) (simp_all add: s'_def)
  moreover have "set (remove1 (Pool i) xs) = insert Boot (pool_used s')"
    using os_invD(2) [OF inv] unfolding sub by (auto simp: pool_used_def ts fld zero_task_def)
  moreover have "tasks s' (Pool j) = zero_task" if j: "j < TASK_MAX_TASKS" "t_kernel_stack (tasks s' (Pool j)) = 0" for j
  proof (cases "j = i")
    case False
    then have "Pool j \<notin> set xs" using j(2) os_invD(2) [OF inv] by (auto simp: pool_used_def ts fld)
    then show ?thesis using False os_invD(4) [OF inv j(1)] j(2) s1(5) by (simp add: ts)
  qed (simp add: ts)
  moreover have "cr3 (kvm s') = task_cr3 (tasks s' c) (kvm s')"
    using os_invD(5) [OF inv] kv ci by (simp add: s'_def task_cr3_def fld vm_keeps_def paging_get_kernel_cr3_def)
  moreover have "pmm_inv (frames (kvm s'))" using kv os_invD(3) [OF inv] by (simp add: s'_def vm_keeps_def)
  ultimately have "os_inv s' (remove1 (Pool i) xs) c" by (simp add: os_inv_def)
  moreover have "tasks s' (Pool j) = (if j = i then zero_task else (tasks s (Pool j))\<lparr>t_next := t_next (tasks s' (Pool j))\<rparr>)" for j
    using link [of "Pool j"] by (simp add: ts)
  moreover have "t_state (tasks s' c) \<noteq> TASK_DEAD" using cur ci by (simp add: ts fld)
  ultimately show ?thesis using run True s1(4) by (auto simp: s'_def v_def)
qed

lemma relink: "a = b\<lparr>t_next := n\<rparr> \<Longrightarrow> b = c\<lparr>t_next := m\<rparr> \<Longrightarrow> a = (c :: task_t)\<lparr>t_next := n\<rparr>"
  by simp

lemma reap_slots_inv:
  assumes "os_inv s xs c" "set is \<subseteq> {..<TASK_MAX_TASKS}" "distinct is" "t_state (tasks s c) \<noteq> TASK_DEAD"
    "gone = {i \<in> set is. dead (tasks s (Pool i))}"
  shows "\<exists>s'. reap_slots is s = Some s' \<and> os_inv s' (filter (\<lambda>t. t \<notin> Pool ` gone) xs) c \<and>
    (\<forall>j. tasks s' (Pool j) = (if j \<in> gone then zero_task else (tasks s (Pool j))\<lparr>t_next := t_next (tasks s' (Pool j))\<rparr>)) \<and>
    t_state (tasks s' c) \<noteq> TASK_DEAD \<and>
    ((\<forall>i \<in> gone. task_pages_ok (tasks s (Pool i))) \<longrightarrow>
       releases (kvm s) (kvm s') (\<Union>i \<in> gone. task_pages (mem (kvm s)) (tasks s (Pool i))))"
  using assms
proof (induction "is" arbitrary: s xs gone)
  case Nil
  then show ?case using os_invD(3) by (auto simp: releases_refl)
next
  case (Cons i "is")
  let ?ti = "tasks s (Pool i)"
  obtain s1 where s1: "reap_slot i s = Some s1" "os_inv s1 (if dead ?ti then remove1 (Pool i) xs else xs) c"
    "\<And>j. tasks s1 (Pool j) = (if j = i \<and> dead ?ti then zero_task else (tasks s (Pool j))\<lparr>t_next := t_next (tasks s1 (Pool j))\<rparr>)"
    "t_state (tasks s1 c) \<noteq> TASK_DEAD" "kvm s1 = (if dead ?ti then reap_vm ?ti (kvm s) else kvm s)"
    using reap_slot_inv [OF Cons.prems(1), of i] Cons.prems(2,4) by auto
  have fld: "t_state (tasks s1 (Pool j)) = t_state (tasks s (Pool j))" "t_kernel_stack (tasks s1 (Pool j)) = t_kernel_stack (tasks s (Pool j))"
    "t_page_dir (tasks s1 (Pool j)) = t_page_dir (tasks s (Pool j))" "t_user_stack (tasks s1 (Pool j)) = t_user_stack (tasks s (Pool j))"
    if "j \<noteq> i" for j using that by (subst s1(3), simp)+
  define g where "g = {j \<in> set is. dead (tasks s1 (Pool j))}"
  have g: "g = {j \<in> set is. dead (tasks s (Pool j))}" 
  proof -
    have "dead (tasks s1 (Pool j)) \<longleftrightarrow> dead (tasks s (Pool j))" if "j \<in> set is" for j
    proof -
      have "j \<noteq> i" using that Cons.prems(3) by auto
      then show ?thesis by (simp add: dead_def fld)
    qed
    then show ?thesis by (auto simp: g_def)
  qed
  have gone: "gone = (if dead ?ti then insert i g else g)" using Cons.prems(5) by (auto simp: g)
  have ig: "i \<notin> g" using Cons.prems(3) by (simp add: g)
  obtain s' where s': "reap_slots is s1 = Some s'" "os_inv s' (filter (\<lambda>t. t \<notin> Pool ` g) (if dead ?ti then remove1 (Pool i) xs else xs)) c"
    "\<And>j. tasks s' (Pool j) = (if j \<in> g then zero_task else (tasks s1 (Pool j))\<lparr>t_next := t_next (tasks s' (Pool j))\<rparr>)"
    "t_state (tasks s' c) \<noteq> TASK_DEAD"
    "(\<forall>i \<in> g. task_pages_ok (tasks s1 (Pool i))) \<longrightarrow>
       releases (kvm s1) (kvm s') (\<Union>i \<in> g. task_pages (mem (kvm s1)) (tasks s1 (Pool i)))"
    using Cons.IH [OF s1(2) _ _ s1(4) g_def] Cons.prems(2,3) by auto
  have d: "distinct xs" using os_invD(6) [OF Cons.prems(1)] by (simp add: ready_queue_def ring_def)
  have q: "filter (\<lambda>t. t \<notin> Pool ` g) (if dead ?ti then remove1 (Pool i) xs else xs) = filter (\<lambda>t. t \<notin> Pool ` gone) xs"
    using d by (auto simp: gone distinct_remove1_removeAll removeAll_filter_not_eq intro: filter_cong)
  have tj: "tasks s' (Pool j) = (if j \<in> gone then zero_task else (tasks s (Pool j))\<lparr>t_next := t_next (tasks s' (Pool j))\<rparr>)" for j
  proof (cases "j = i \<and> dead ?ti")
    case True
    then have "tasks s1 (Pool j) = zero_task" using s1(3) [of j] by simp
    then have "tasks s' (Pool j) = zero_task\<lparr>t_next := t_next (tasks s' (Pool j))\<rparr>" using s'(3) [of j] ig True by simp
    from arg_cong [OF this, of t_kernel_stack] have "t_kernel_stack (tasks s' (Pool j)) = 0" by (simp add: zero_task_def)
    then have "tasks s' (Pool j) = zero_task" using os_invD(4) [OF s'(2)] Cons.prems(2) True by simp
    then show ?thesis using True by (simp add: gone)
  next
    case False
    then have gg: "j \<in> g \<longleftrightarrow> j \<in> gone" by (auto simp: gone)
    have 1: "tasks s1 (Pool j) = (tasks s (Pool j))\<lparr>t_next := t_next (tasks s1 (Pool j))\<rparr>" by (rule s1(3) [of j, unfolded if_not_P [OF False]])
    show ?thesis
    proof (cases "j \<in> g")
      case True
      then show ?thesis using s'(3) [of j] gg by simp
    next
      case False
      show ?thesis unfolding if_not_P [OF False [unfolded gg]] by (rule relink [OF s'(3) [of j, unfolded if_not_P [OF False]] 1])
    qed
  qed
  have rel: "releases (kvm s) (kvm s') (\<Union>i \<in> gone. task_pages (mem (kvm s)) (tasks s (Pool i)))"
    if pg: "\<forall>i \<in> gone. task_pages_ok (tasks s (Pool i))"
  proof -
    have r1: "releases (kvm s) (kvm s1) (if dead ?ti then task_pages (mem (kvm s)) ?ti else {})"
      using pg os_invD(3) [OF Cons.prems(1)] by (simp add: s1(5) gone reap_vm_releases releases_refl)
    have same: "task_pages m (tasks s1 (Pool j)) = task_pages m (tasks s (Pool j))"
      "task_pages_ok (tasks s1 (Pool j)) = task_pages_ok (tasks s (Pool j))" if "j \<in> g" for j m
    proof -
      have "j \<noteq> i" using that ig by auto
      then show "task_pages m (tasks s1 (Pool j)) = task_pages m (tasks s (Pool j))"
        "task_pages_ok (tasks s1 (Pool j)) = task_pages_ok (tasks s (Pool j))" by (simp_all add: task_pages_def task_pages_ok_def fld)
    qed
    have "mem (kvm s1) = mem (kvm s)" using r1 by (simp add: releases_def)
    then have "releases (kvm s1) (kvm s') (\<Union>i \<in> g. task_pages (mem (kvm s)) (tasks s (Pool i)))"
      using s'(5) pg same by (simp add: gone split: if_splits)
    from releases_trans [OF r1 this] show ?thesis by (simp add: gone split: if_splits)
  qed
  show ?case using s'(1,4) s'(2) [unfolded q] s1(1) tj rel by (intro exI [of _ s']) simp
qed

lemma task_reap_inv:
  assumes inv: "os_inv s xs c" and cur: "t_state (tasks s c) \<noteq> TASK_DEAD"
  defines "gone \<equiv> {i. i < TASK_MAX_TASKS \<and> dead (tasks s (Pool i))}"
  shows "\<exists>s'. task_reap s = Some s' \<and> os_inv s' (filter (\<lambda>t. t \<notin> Pool ` gone) xs) c \<and>
    (\<forall>j. tasks s' (Pool j) = (if j \<in> gone then zero_task else (tasks s (Pool j))\<lparr>t_next := t_next (tasks s' (Pool j))\<rparr>)) \<and>
    ((\<forall>i \<in> gone. task_pages_ok (tasks s (Pool i))) \<longrightarrow>
       releases (kvm s) (kvm s') (\<Union>i \<in> gone. task_pages (mem (kvm s)) (tasks s (Pool i))))"
proof -
  have cli: "os_inv (cli s) xs c" using os_inv_cong [OF inv] os_inv_slice [OF inv] by (simp add: vm_keeps_refl)
  have g: "gone = {i \<in> set [0..<TASK_MAX_TASKS]. dead (tasks (cli s) (Pool i))}" by (auto simp: gone_def)
  have sub: "set [0..<TASK_MAX_TASKS] \<subseteq> {..<TASK_MAX_TASKS}" by auto
  have alive: "t_state (tasks (cli s) c) \<noteq> TASK_DEAD" using cur by simp
  obtain s' where s': "reap_slots [0..<TASK_MAX_TASKS] (cli s) = Some s'" "os_inv s' (filter (\<lambda>t. t \<notin> Pool ` gone) xs) c"
    "\<forall>j. tasks s' (Pool j) = (if j \<in> gone then zero_task else (tasks s (Pool j))\<lparr>t_next := t_next (tasks s' (Pool j))\<rparr>)"
    "(\<forall>i \<in> gone. task_pages_ok (tasks s (Pool i))) \<longrightarrow>
       releases (kvm s) (kvm s') (\<Union>i \<in> gone. task_pages (mem (kvm s)) (tasks s (Pool i)))"
    using reap_slots_inv [OF cli sub distinct_upt alive g] unfolding cli_sti_fields by blast
  have "os_inv (sti s') (filter (\<lambda>t. t \<notin> Pool ` gone) xs) c"
    using os_inv_cong [OF s'(2)] os_inv_slice [OF s'(2)] by (simp add: vm_keeps_refl)
  moreover have "task_reap s = Some (sti s')" using s'(1) by (simp add: task_reap_def)
  ultimately show ?thesis using s'(3,4) by (intro exI [of _ "sti s'"]) (simp only: cli_sti_fields, blast)
qed

section \<open>Reachable states\<close>

text \<open>
  One step is a timer tick, a call of the running task, or an instruction of it (which may change the registers and
  memory it can write, but not the kernel's variables).  \<^verbatim>\<open>task_reap\<close> is called by a task that is alive.  Every call is one step: the timer
  interrupt, which the code leaves enabled in parts of task creation and reaping, is modelled between calls only.
\<close>

inductive os_step :: "symbols \<Rightarrow> os \<Rightarrow> os \<Rightarrow> bool" for sy where
  tick: "schedule s = Some s' \<Longrightarrow> os_step sy s s'"
| yield: "sched_yield s = Some s' \<Longrightarrow> os_step sy s s'"
| leave: "task_exit s = Some s' \<Longrightarrow> os_step sy s s'"
| create: "is_cstr name \<Longrightarrow> task_create sy start name s = Some (t, s') \<Longrightarrow> os_step sy s s'"
| create_user: "is_cstr name \<Longrightarrow> task_create_user sy start name s = Some (t, s') \<Longrightarrow> os_step sy s s'"
| create_user_mapped: "is_cstr name \<Longrightarrow> task_create_user_mapped sy start name dir dir_phys user_esp s = Some (t, s') \<Longrightarrow>
    os_step sy s s'"
| reap: "current_task s = Some c \<Longrightarrow> t_state (tasks s c) \<noteq> TASK_DEAD \<Longrightarrow> task_reap s = Some s' \<Longrightarrow> os_step sy s s'"
| enable: "os_step sy s (sched_enable s)"
| disable: "os_step sy s (sched_disable s)"
| run: "os_step sy s (s\<lparr>regs := r, kvm := (kvm s)\<lparr>mem := m\<rparr>\<rparr>)"

text \<open>At \<^verbatim>\<open>sched_init\<close> the pool is zero, as all static data, and the kernel's address space is loaded.\<close>

inductive reachable :: "symbols \<Rightarrow> os \<Rightarrow> bool" for sy where
  init: "(\<forall>i. tasks s (Pool i) = zero_task) \<Longrightarrow> pmm_inv (frames (kvm s)) \<Longrightarrow> cr3 (kvm s) = paging_get_kernel_cr3 (kvm s) \<Longrightarrow>
    reachable sy (sched_init s)"
| step: "reachable sy s \<Longrightarrow> os_step sy s s' \<Longrightarrow> reachable sy s'"

lemma sched_init_inv:
  assumes "\<forall>i. tasks s (Pool i) = zero_task" "pmm_inv (frames (kvm s))" "cr3 (kvm s) = paging_get_kernel_cr3 (kvm s)"
  shows "os_inv (sched_init s) [Boot] Boot"
proof -
  have "tasks (sched_init s) (Pool i) = zero_task" for i using assms(1) by (simp add: sched_init_def Let_def)
  moreover have "kvm (sched_init s) = kvm s" "t_cr3 (tasks (sched_init s) Boot) = 0"
    by (simp_all add: sched_init_def Let_def zero_task_def)
  moreover have "pool_used (sched_init s) = {}" using calculation(1) by (simp add: pool_used_def zero_task_def)
  ultimately show ?thesis using assms sched_init_queue(2) by (simp add: os_inv_def task_cr3_def)
qed

lemma created_next: "created xs c res \<Longrightarrow> res = Some (t, s') \<Longrightarrow> \<exists>xs. os_inv s' xs c"
  by (auto simp: created_def)

lemma os_step_inv:
  assumes "os_step sy s s'" "os_inv s xs c"
  shows "\<exists>xs c. os_inv s' xs c"
  using assms(1)
proof cases
  case tick
  then show ?thesis using schedule_inv [OF assms(2)] by auto
next
  case yield
  then show ?thesis using sched_yield_inv [OF assms(2)] by auto
next
  case leave
  then show ?thesis using task_exit_inv [OF assms(2)] by auto
next
  case (create name start t)
  then show ?thesis using created_next [OF task_create_inv [OF assms(2)]] by blast
next
  case (create_user name start t)
  then show ?thesis using created_next [OF task_create_user_inv [OF assms(2)]] by blast
next
  case (create_user_mapped name start dir dir_phys user_esp t)
  then show ?thesis using created_next [OF task_create_user_mapped_inv [OF assms(2)]] by blast
next
  case (reap c')
  then show ?thesis using task_reap_inv [OF assms(2)] os_invD(7) [OF assms(2)] by auto
next
  case enable
  then have "os_inv s' xs c" using os_inv_slice [OF assms(2)] by (intro os_inv_cong [OF assms(2)]) (simp_all add: sched_enable_def vm_keeps_refl)
  then show ?thesis by blast
next
  case disable
  then have "os_inv s' xs c" using os_inv_slice [OF assms(2)] by (intro os_inv_cong [OF assms(2)]) (simp_all add: sched_disable_def vm_keeps_refl)
  then show ?thesis by blast
next
  case (run r m)
  then have "os_inv s' xs c" using os_inv_slice [OF assms(2)] by (intro os_inv_cong [OF assms(2)]) (simp_all add: vm_keeps_mem vm_keeps_refl)
  then show ?thesis by blast
qed

lemma reachable_os_inv: "reachable sy s \<Longrightarrow> \<exists>xs c. os_inv s xs c"
  by (induction rule: reachable.induct) (use sched_init_inv os_step_inv in blast)+

section \<open>Properties\<close>

text \<open>(C2) In every reachable state the ready queue is a well-formed ring that holds the idle task and exactly the pool slots with a
  kernel stack, every other slot is zero, at most the current task is marked running, the time slice is within its
  bound, and the processor is in the address space of the current task.\<close>

theorem reachable_invariant:
  assumes "reachable sy s"
  shows "\<exists>xs c. ready_queue s xs \<and> current_task s = Some c \<and> c \<in> set xs \<and>
    set xs = insert Boot (Pool ` {i. i < 64 \<and> t_kernel_stack (tasks s (Pool i)) \<noteq> 0}) \<and>
    (\<forall>i < 64. t_kernel_stack (tasks s (Pool i)) = 0 \<longrightarrow> tasks s (Pool i) = zero_task) \<and>
    (\<forall>t \<in> set xs. t_state (tasks s t) = TASK_RUNNING \<longrightarrow> t = c) \<and>
    slice_remaining s \<le> SCHED_TIME_SLICE \<and> cr3 (kvm s) = task_cr3 (tasks s c) (kvm s)"
  using reachable_os_inv [OF assms] by (auto simp: os_inv_def sched_ok_def pool_used_def)

text \<open>(C6) No loop over the ready queue runs forever and no null link is followed: in every reachable state the timer tick,
  yielding, exiting, creating a task of each kind and, from a live task, reaping all return.\<close>

theorem operations_return:
  assumes "reachable sy s" "is_cstr name"
  shows "schedule s \<noteq> None \<and> sched_yield s \<noteq> None \<and> task_exit s \<noteq> None \<and> task_create sy start name s \<noteq> None \<and>
    task_create_user sy start name s \<noteq> None \<and> task_create_user_mapped sy start name dir dir_phys user_esp s \<noteq> None \<and>
    (\<forall>c. current_task s = Some c \<and> t_state (tasks s c) \<noteq> TASK_DEAD \<longrightarrow> task_reap s \<noteq> None)"
proof -
  obtain xs c where inv: "os_inv s xs c" using reachable_os_inv [OF assms(1)] by blast
  have ret: "res \<noteq> None" if "created xs c res" for res using that by (auto simp: created_def)
  show ?thesis
    using schedule_inv [OF inv] sched_yield_inv [OF inv] task_exit_inv [OF inv] os_invD(7) [OF inv]
      ret [OF task_create_inv [OF inv assms(2)]] ret [OF task_create_user_inv [OF inv assms(2)]]
      ret [OF task_create_user_mapped_inv [OF inv assms(2)]] task_reap_inv [OF inv] by fastforce
qed

text \<open>(C16) \<^verbatim>\<open>task_reap\<close>, called by a live task: the dead tasks, and only they, leave the queue and their slots become zero; the other
  control blocks of the pool keep everything but their link; and when the dead tasks are of the two kinds the kernel creates,
  the frames given back are exactly those of their kernel stacks and address spaces, and memory is not written.\<close>

theorem task_reap_exact:
  assumes "os_inv s xs c" "t_state (tasks s c) \<noteq> TASK_DEAD"
  defines "gone \<equiv> {i. i < TASK_MAX_TASKS \<and> dead (tasks s (Pool i))}"
  shows "\<exists>s'. task_reap s = Some s' \<and> ready_queue s' (filter (\<lambda>t. t \<notin> Pool ` gone) xs) \<and>
    (\<forall>j. tasks s' (Pool j) = (if j \<in> gone then zero_task else (tasks s (Pool j))\<lparr>t_next := t_next (tasks s' (Pool j))\<rparr>)) \<and>
    ((\<forall>i \<in> gone. task_pages_ok (tasks s (Pool i))) \<longrightarrow>
       mem (kvm s') = mem (kvm s) \<and>
       used (kvm s') = used (kvm s) - fno ` (\<Union>i \<in> gone. task_pages (mem (kvm s)) (tasks s (Pool i))))"
proof -
  obtain s' where s': "task_reap s = Some s'" "os_inv s' (filter (\<lambda>t. t \<notin> Pool ` gone) xs) c"
    "\<forall>j. tasks s' (Pool j) = (if j \<in> gone then zero_task else (tasks s (Pool j))\<lparr>t_next := t_next (tasks s' (Pool j))\<rparr>)"
    "(\<forall>i \<in> gone. task_pages_ok (tasks s (Pool i))) \<longrightarrow>
       releases (kvm s) (kvm s') (\<Union>i \<in> gone. task_pages (mem (kvm s)) (tasks s (Pool i)))"
    using task_reap_inv [OF assms(1,2)] unfolding gone_def by blast
  show ?thesis using s'(1,3) os_invD(6) [OF s'(2)] s'(4) unfolding releases_def by blast
qed

subsection \<open>Instances\<close>

definition some_symbols :: symbols where
  "some_symbols = \<lparr>sym_task_wrapper = 0x10400, sym_enter_usermode = 0x10500, sym_sys_exit = 0x12000, sym_sys_write = 0x12020,
     sym_sys_read = 0x12040, sym_sys_yield = 0x12060, sym_sys_getpid = 0x12080, sym_sys_sleep = 0x120A0\<rparr>"

lemma reset_os_init:
  "\<forall>i. tasks reset_os (Pool i) = zero_task" "pmm_inv (frames (kvm reset_os))" "cr3 (kvm reset_os) = paging_get_kernel_cr3 (kvm reset_os)"
  using pmm_init_inv(1) by (simp_all add: reset_os_def boot_vm_def paging_get_kernel_cr3_def)

lemma reachable_boot: "reachable some_symbols (sched_enable (sched_init reset_os))"
  by (rule reachable.step [OF reachable.init [OF reset_os_init] os_step.enable])

theorem reachable_invariant_witness:
  "\<exists>xs c. ready_queue (sched_enable (sched_init reset_os)) xs \<and> current_task (sched_enable (sched_init reset_os)) = Some c \<and> c \<in> set xs"
  using reachable_invariant [OF reachable_boot] by blast

theorem operations_return_witness:
  "task_create some_symbols 0x11000 (''worker'' @ [NUL]) (sched_enable (sched_init reset_os)) \<noteq> None"
  using operations_return [OF reachable_boot, of "''worker'' @ [NUL]"] by (simp add: is_cstr_def)

text \<open>Two tasks, one of them dead.\<close>

definition one_dead :: os where
  "one_dead = (sched_init reset_os)\<lparr>tasks := (tasks (sched_init reset_os))
     (Boot := (tasks (sched_init reset_os) Boot)\<lparr>t_next := Some (Pool 3)\<rparr>,
      Pool 3 := zero_task\<lparr>t_id := 1, t_state := TASK_DEAD, t_kernel_stack := 0x201000, t_next := Some Boot\<rparr>)\<rparr>"

lemma one_dead_inv: "os_inv one_dead [Boot, Pool 3] Boot" "t_state (tasks one_dead Boot) \<noteq> TASK_DEAD"
proof -
  have "sched_ok one_dead [Boot, Pool 3] Boot" "pool_used one_dead = {Pool 3}"
    by (auto simp: one_dead_def sched_init_def reset_os_def zero_task_def Let_def sched_ok_def ready_queue_def ring_def pool_used_def)
  then show "os_inv one_dead [Boot, Pool 3] Boot"
    using reset_os_init(2,3) by (auto simp: os_inv_def one_dead_def sched_init_def Let_def zero_task_def task_cr3_def reset_os_def)
qed (simp add: one_dead_def sched_init_def Let_def)

theorem task_reap_exact_witness:
  "\<exists>s'. task_reap one_dead = Some s' \<and> ready_queue s' [Boot] \<and> tasks s' (Pool 3) = zero_task \<and> 0x201 \<notin> used (kvm s')"
proof -
  have gone: "{i. i < TASK_MAX_TASKS \<and> dead (tasks one_dead (Pool i))} = {3}"
    by (auto simp: one_dead_def sched_init_def reset_os_def zero_task_def dead_def Let_def split: if_splits)
  have pg: "task_pages_ok (tasks one_dead (Pool 3))" "task_pages (mem (kvm one_dead)) (tasks one_dead (Pool 3)) = {0x201000}"
    by (simp_all add: one_dead_def zero_task_def task_pages_ok_def task_pages_def page_aligned_def)
  from task_reap_exact [OF one_dead_inv, unfolded gone] obtain s' where
    s': "task_reap one_dead = Some s'" "ready_queue s' (filter (\<lambda>t. t \<notin> Pool ` {3}) [Boot, Pool 3])"
    and zero: "\<forall>j. tasks s' (Pool j) = (if j \<in> {3} then zero_task else (tasks one_dead (Pool j))\<lparr>t_next := t_next (tasks s' (Pool j))\<rparr>)"
    and fr: "(\<forall>i \<in> {3}. task_pages_ok (tasks one_dead (Pool i))) \<longrightarrow> mem (kvm s') = mem (kvm one_dead) \<and>
       used (kvm s') = used (kvm one_dead) - fno ` (\<Union>i \<in> {3}. task_pages (mem (kvm one_dead)) (tasks one_dead (Pool i)))"
    by blast
  have "tasks s' (Pool 3) = zero_task" using spec [OF zero, of 3] by (simp only: singleton_iff refl if_True)
  moreover have "0x201 \<notin> used (kvm s')" using fr pg by (auto simp: fno_def)
  ultimately show ?thesis using s' by simp
qed

end
