(* ===== verification/Task_Entry.thy ===== *)
theory Task_Entry
  imports Task_Steps
begin

text \<open>
  The first time a new task is switched to: the frame on its fresh kernel stack takes a kernel task into
  \<^verbatim>\<open>task_wrapper\<close> with its entry point as argument, and a user task through \<^verbatim>\<open>enter_usermode\<close> into ring 3.
\<close>

section \<open>New kernel stacks\<close>

definition in_page :: "u32 \<Rightarrow> u32 \<Rightarrow> bool" where
  "in_page p a \<longleftrightarrow> unat p \<le> unat a \<and> unat a < unat p + 4096"

lemma unat_page: "page_aligned p \<Longrightarrow> unat p = 4096 * fno p"
  unfolding page_aligned_def fno_def by (metis add_0_right mult_div_mod_eq)

lemma pushed_in_page:
  assumes "page_aligned p" "fno p < 4096" "i < 1024"
  shows "in_page p (pushed (p + 4096) i)" "unat (pushed (p + 4096) i) mod 4 = 0"
proof -
  have p: "unat p = 4096 * fno p" by (rule unat_page [OF assms(1)])
  have "pushed (p + 4096) i = p + of_nat (4096 - 4 * Suc i)"
    using assms(3) by (simp add: pushed_def of_nat_diff algebra_simps)
  moreover have "unat (p + of_nat (4096 - 4 * Suc i)) = unat p + (4096 - 4 * Suc i)"
    using assms(2) p by (subst unat_add_lem [THEN iffD1]) (simp_all add: unat_of_nat_u32)
  ultimately have u: "unat (pushed (p + 4096) i) = unat p + 4 * (1023 - i)" by simp
  have "1023 - i \<le> 1023" by simp
  then show "in_page p (pushed (p + 4096) i)" unfolding in_page_def u by linarith
  have "unat p + 4 * (1023 - i) = 4 * (1024 * fno p + (1023 - i))" unfolding p by simp
  then show "unat (pushed (p + 4096) i) mod 4 = 0" unfolding u by (simp only: mod_mult_self1_is_0)
qed

text \<open>The stack the processor is on when it switches is not the new one.\<close>

definition stack_apart :: "os \<Rightarrow> u32 \<Rightarrow> bool" where
  "stack_apart s p \<longleftrightarrow> unat (esp (regs s)) mod 4 = 0 \<and> (\<forall>a \<in> push_frame (esp (regs s)). \<not> in_page p a)"

lemma first_switch:
  assumes p: "page_aligned p" "fno p < 4096" and ap: "stack_apart s p" and n: "length frame \<le> 1024"
    and m: "mem (kvm s) = snd (push_words frame (p + 4096) m0)" and i: "i < length frame"
  shows "read32 (mem (kvm (task_switch old new s))) (pushed (p + 4096) i) = frame ! i"
proof -
  have al: "unat (p + 4096) mod 4 = 0"
  proof -
    have "unat p = 4096 * fno p" by (rule unat_page [OF p(1)])
    then have "unat (p + 4096) = 4 * (1024 * (fno p + 1))" using p(2) by (subst unat_add_lem [THEN iffD1]) simp_all
    then show ?thesis by (simp only: mod_mult_self1_is_0)
  qed
  have i': "i < 1024" using i n by simp
  have "pushed (p + 4096) i \<notin> push_frame (esp (regs s))" using pushed_in_page(1) [OF p i'] ap by (auto simp: stack_apart_def)
  then have "read32 (mem (kvm (task_switch old new s))) (pushed (p + 4096) i) = read32 (mem (kvm s)) (pushed (p + 4096) i)"
    using ap pushed_in_page(2) [OF p i'] by (intro task_switch_mem) (auto simp: stack_apart_def)
  also have "\<dots> = frame ! i" unfolding m using al n i by (intro push_words_read) simp_all
  finally show ?thesis .
qed

lemma switch_regs:
  "regs (task_switch old new s) = (let m = mem (kvm (task_switch old new s)) in
     (regs s)\<lparr>ebp := read32 m new, edi := read32 m (new + 4), esi := read32 m (new + 8), ebx := read32 m (new + 12),
        eip := read32 m (new + 16), esp := new + 20\<rparr>)"
  by (simp add: task_switch_def Let_def)

section \<open>What the creating functions leave\<close>

text \<open>\<open>fresh_task s t frame s'\<close>: \<open>t\<close> is a new slot whose stack is a frame free in \<open>s\<close>, carrying the given words.\<close>

definition fresh_task :: "os \<Rightarrow> tref \<Rightarrow> u32 list \<Rightarrow> os \<Rightarrow> bool" where
  "fresh_task s t frame s' \<longleftrightarrow>
     (let p = t_kernel_stack (tasks s' t)
      in p \<noteq> 0 \<and> page_aligned p \<and> fno p < 4096 \<and> fno p \<notin> used (kvm s) \<and> regs s' = regs s \<and>
         t_esp0 (tasks s' t) = p + 4096 \<and> t_esp (tasks s' t) = p + 4096 - of_nat (4 * length frame) \<and>
         t_state (tasks s' t) = TASK_READY \<and> (\<exists>m. mem (kvm s') = snd (push_words frame (p + 4096) m)))"

lemma os_alloc_fresh:
  assumes "pmm_inv (frames v)" "vm_alloc_page v = (a, v')" "a \<noteq> 0"
  shows "page_aligned a" "fno a < 4096" "fno a \<notin> used v" "used v' = insert (fno a) (used v)"
proof -
  obtain p where p: "alloc_page (frames v) = (a, p)" "v' = v\<lparr>frames := p\<rparr>"
    using assms(2) by (auto simp: vm_alloc_page_def split: prod.splits)
  note spec = alloc_page_spec [OF assms(1) p(1)]
  have "used_set (frames v) \<noteq> {..<4096}" using spec(2) assms(3) by auto
  then show "page_aligned a" "fno a < 4096" "fno a \<notin> used v" "used v' = insert (fno a) (used v)"
    using spec(3) p(2) by (simp_all add: page_aligned_def fno_def used_def)
qed

lemma start_fresh:
  assumes inv: "os_inv s xs c" and t: "i < TASK_MAX_TASKS" "Pool i \<notin> set xs"
    and a: "vm_alloc_page (kvm s) = (a, v)" "a \<noteq> 0"
    and s1: "tasks s1 = (tasks s)(Pool i := x)" "t_kernel_stack x = a" "t_esp0 x = a + 4096" "ready_head s1 = ready_head s"
      "current_task s1 = current_task s" "slice_remaining s1 = slice_remaining s" "vm_keeps (kvm s) (kvm s1)" "regs s1 = regs s"
    and run: "start_task (Pool i) frame s1 = Some (t', s')"
  shows "t' = Some (Pool i) \<and> fresh_task s (Pool i) frame s' \<and>
    kvm s' = (kvm s1)\<lparr>mem := snd (push_words frame (a + 4096) (mem (kvm s1)))\<rparr> \<and> os_inv s' (xs @ [Pool i]) c \<and>
    t_kernel_stack (tasks s' (Pool i)) = a"
proof -
  have "t_kernel_stack x \<noteq> 0" using s1(2) a(2) by simp
  from start_task_inv [OF inv t s1(1) this s1(4-7), of frame] run obtain n where
    eff: "t' = Some (Pool i)" "tasks s' (Pool i) = x\<lparr>t_esp := a + 4096 - of_nat (4 * length frame), t_state := TASK_READY, t_next := n\<rparr>"
    "kvm s' = (kvm s1)\<lparr>mem := snd (push_words frame (a + 4096) (mem (kvm s1)))\<rparr>" "regs s' = regs s" "os_inv s' (xs @ [Pool i]) c"
    using s1(3,8) by auto
  then show ?thesis
    using os_alloc_fresh [OF os_invD(3) [OF inv] a] a(2) s1(2,3) by (auto simp: fresh_task_def Let_def)
qed

lemma task_create_fresh:
  assumes inv: "os_inv s xs c" and name: "is_cstr name" and run: "task_create sy start name s = Some (Some t, s')"
  shows "fresh_task s t [start, 0, sym_task_wrapper sy, 0, 0, 0, 0] s' \<and> ready_queue s' (xs @ [t]) \<and> t \<notin> set xs \<and>
    used (kvm s') = insert (fno (t_kernel_stack (tasks s' t))) (used (kvm s))"
  using inv
proof (cases rule: alloc_tcb_cases)
  case full
  then show ?thesis using run by (simp add: task_create_def)
next
  case (slot i)
  obtain n where n: "identify (Pool i) name s = Some (upd_task (Pool i) (\<lambda>x. x\<lparr>t_id := next_task_id s + 1, t_name := n\<rparr>)
      (s\<lparr>next_task_id := next_task_id s + 1\<rparr>))" using identify_zero [OF slot(3) name] by blast
  obtain a v where a: "vm_alloc_page (kvm s) = (a, v)" by fastforce
  have a0: "a \<noteq> 0" using run slot n a by (auto simp: task_create_def os_alloc_page_def split: if_splits)
  define x where "x = zero_task\<lparr>t_id := next_task_id s + 1, t_name := n, t_kernel_stack := a, t_esp0 := a + 4096\<rparr>"
  define s1 where "s1 = s\<lparr>next_task_id := next_task_id s + 1, kvm := v, tasks := (tasks s)(Pool i := x)\<rparr>"
  have "start_task (Pool i) [start, 0, sym_task_wrapper sy, 0, 0, 0, 0] s1 = Some (Some t, s')"
    using run slot n a a0 by (simp add: task_create_def os_alloc_page_def Let_def s1_def x_def upd_task_def)
  note sf = start_fresh [OF inv slot(2,4) a a0, of s1 x, OF _ _ _ _ _ _ _ _ this]
  have eff: "t = Pool i \<and> fresh_task s (Pool i) [start, 0, sym_task_wrapper sy, 0, 0, 0, 0] s' \<and>
      kvm s' = (kvm s1)\<lparr>mem := snd (push_words [start, 0, sym_task_wrapper sy, 0, 0, 0, 0] (a + 4096) (mem (kvm s1)))\<rparr> \<and>
      os_inv s' (xs @ [Pool i]) c \<and> t_kernel_stack (tasks s' (Pool i)) = a"
    using sf by (simp add: s1_def x_def vm_keeps_alloc [OF a])
  then show ?thesis using os_alloc_fresh(4) [OF os_invD(3) [OF inv] a a0] slot(4) os_invD(6) by (auto simp: s1_def used_def)
qed

lemma task_create_user_mapped_fresh:
  assumes inv: "os_inv s xs c" and name: "is_cstr name"
    and run: "task_create_user_mapped sy start name dir dir_phys user_esp s = Some (Some t, s')"
  shows "fresh_task s t (user_frame sy user_esp start) s' \<and> ready_queue s' (xs @ [t]) \<and> t_cr3 (tasks s' t) = dir_phys"
  using inv
proof (cases rule: alloc_tcb_cases)
  case full
  then show ?thesis using run by (simp add: task_create_user_mapped_def)
next
  case (slot i)
  obtain n where n: "identify (Pool i) name s = Some (upd_task (Pool i) (\<lambda>x. x\<lparr>t_id := next_task_id s + 1, t_name := n\<rparr>)
      (s\<lparr>next_task_id := next_task_id s + 1\<rparr>))" using identify_zero [OF slot(3) name] by blast
  obtain a v where a: "vm_alloc_page (kvm s) = (a, v)" by fastforce
  have a0: "a \<noteq> 0" using run slot n a by (auto simp: task_create_user_mapped_def os_alloc_page_def split: if_splits)
  define x where "x = zero_task\<lparr>t_id := next_task_id s + 1, t_name := n, t_is_user := 1, t_kernel_stack := a, t_esp0 := a + 4096,
      t_page_dir := dir, t_cr3 := dir_phys, t_user_stack := 0, t_user_stack_top := user_esp\<rparr>"
  define s1 where "s1 = s\<lparr>next_task_id := next_task_id s + 1, kvm := v, tasks := (tasks s)(Pool i := x)\<rparr>"
  have st: "start_task (Pool i) (user_frame sy user_esp start) s1 = Some (Some t, s')"
    using run slot n a a0 by (simp add: task_create_user_mapped_def os_alloc_page_def Let_def s1_def x_def upd_task_def)
  have "t = Pool i \<and> fresh_task s (Pool i) (user_frame sy user_esp start) s' \<and> os_inv s' (xs @ [Pool i]) c"
    using start_fresh [OF inv slot(2,4) a a0, of s1 x, OF _ _ _ _ _ _ _ _ st] by (simp add: s1_def x_def vm_keeps_alloc [OF a])
  moreover have "t_cr3 (tasks s' (Pool i)) = dir_phys"
    using start_task_inv [OF inv slot(2,4), of s1 x "user_frame sy user_esp start"] st a0
    by (auto simp: s1_def x_def vm_keeps_alloc [OF a])
  ultimately show ?thesis using os_invD(6) by blast
qed

section \<open>Properties\<close>

text \<open>(C22) A kernel task starts in its entry function: if \<^verbatim>\<open>task_create\<close> succeeds, the task joins the end of the queue with a kernel stack
  in a frame that was free, and the first \<^verbatim>\<open>task_switch\<close> to it continues in \<^verbatim>\<open>task_wrapper\<close> with the entry point as its
  argument (at esp + 4, above the null return address), on the new stack.\<close>

theorem task_create_starts:
  assumes "os_inv s xs c" "is_cstr name" "task_create sy start name s = Some (Some t, s')"
    and "stack_apart s (t_kernel_stack (tasks s' t))"
  shows "let p = t_kernel_stack (tasks s' t); s2 = task_switch old (t_esp (tasks s' t)) s'; r = regs s2; m = mem (kvm s2) in
    ready_queue s' (xs @ [t]) \<and> fno p \<notin> used (kvm s) \<and> used (kvm s') = insert (fno p) (used (kvm s)) \<and>
    eip r = sym_task_wrapper sy \<and> in_page p (esp r) \<and> read32 m (esp r) = 0 \<and> read32 m (esp r + 4) = start"
proof -
  let ?f = "[start, 0, sym_task_wrapper sy, 0, 0, 0, 0]" and ?p = "t_kernel_stack (tasks s' t)"
  note tf = task_create_fresh [OF assms(1-3)]
  then have fr: "page_aligned ?p" "fno ?p < 4096" "fno ?p \<notin> used (kvm s)" "regs s' = regs s" "t_esp (tasks s' t) = ?p + 4096 - 28"
    and "\<exists>m. mem (kvm s') = snd (push_words ?f (?p + 4096) m)" by (simp_all add: fresh_task_def Let_def)
  then obtain m where m: "mem (kvm s') = snd (push_words ?f (?p + 4096) m)" by blast
  have ap: "stack_apart s' ?p" using assms(4) fr(4) by (simp add: stack_apart_def)
  note rd = first_switch [OF fr(1,2) ap _ m, where old = old and new = "?p + 4096 - 28"]
  have w: "?p + 4096 - 28 + 16 = pushed (?p + 4096) 2" "?p + 4096 - 28 + 20 = pushed (?p + 4096) 1"
    "?p + 4096 - 28 + 20 + 4 = pushed (?p + 4096) 0" by (simp_all add: pushed_def)
  show ?thesis
    unfolding Let_def fr(5) switch_regs cpu.simps w
    using tf fr(3) rd [of 0] rd [of 1] rd [of 2] pushed_in_page(1) [OF fr(1,2), of 1] w(2,3)
    by (simp add: w)
qed

text \<open>(C20) A user task starts in ring 3: after \<^verbatim>\<open>task_create_user_mapped\<close> the first \<^verbatim>\<open>task_switch\<close> to the task continues in
  \<^verbatim>\<open>enter_usermode\<close>, whose \<^verbatim>\<open>iret\<close> loads the entry point, the user code and data selectors with privilege 3, the given
  stack pointer, and flags with interrupts enabled; the address space of the task is the given one.\<close>

theorem user_task_enters_ring3:
  assumes "os_inv s xs c" "is_cstr name"
    and "task_create_user_mapped sy start name dir dir_phys user_esp s = Some (Some t, s')"
    and "stack_apart s (t_kernel_stack (tasks s' t))"
  shows "let s2 = task_switch old (t_esp (tasks s' t)) s'; r = regs (enter_usermode s2) in
    ready_queue s' (xs @ [t]) \<and> task_cr3 (tasks s' t) (kvm s') = (if dir_phys = 0 then paging_get_kernel_cr3 (kvm s') else dir_phys) \<and>
    eip (regs s2) = sym_enter_usermode sy \<and>
    eip r = start \<and> esp r = user_esp \<and> cs r = GDT_USER_CODE_SEG \<and> ss r = GDT_USER_DATA_SEG \<and>
    cs r AND 3 = 3 \<and> ss r AND 3 = 3 \<and> bit (eflags r) 9"
proof -
  let ?f = "user_frame sy user_esp start" and ?p = "t_kernel_stack (tasks s' t)"
  note tf = task_create_user_mapped_fresh [OF assms(1-3)]
  have len: "length ?f = 10" by (simp add: user_frame_def)
  from tf have fr: "page_aligned ?p" "fno ?p < 4096" "regs s' = regs s" "t_esp (tasks s' t) = ?p + 4096 - 40"
    and "\<exists>m. mem (kvm s') = snd (push_words ?f (?p + 4096) m)" by (simp_all add: fresh_task_def Let_def len)
  then obtain m where m: "mem (kvm s') = snd (push_words ?f (?p + 4096) m)" by blast
  have ap: "stack_apart s' ?p" using assms(4) fr(3) by (simp add: stack_apart_def)
  note rd = first_switch [OF fr(1,2) ap _ m, where old = old and new = "?p + 4096 - 40", unfolded len]
  have w: "?p + 4096 - 40 + 16 = pushed (?p + 4096) 5" "?p + 4096 - 40 + 20 = pushed (?p + 4096) 4"
    "pushed (?p + 4096) 4 + 4 = pushed (?p + 4096) 3" "pushed (?p + 4096) 4 + 8 = pushed (?p + 4096) 2"
    "pushed (?p + 4096) 4 + 12 = pushed (?p + 4096) 1" "pushed (?p + 4096) 4 + 16 = pushed (?p + 4096) 0"
    by (simp_all add: pushed_def)
  have e: "eip (regs (task_switch old (?p + 4096 - 40) s')) = sym_enter_usermode sy"
    "esp (regs (task_switch old (?p + 4096 - 40) s')) = pushed (?p + 4096) 4"
    unfolding switch_regs Let_def cpu.simps w using rd [of 5] by (simp_all add: user_frame_def)
  have fl: "bit (0x202 :: u32) 9" by (simp add: bit_numeral_rec(1) bit_numeral_rec(2) numeral_eq_Suc)
  show ?thesis
    unfolding Let_def fr(4) using tf e rd [of 0] rd [of 1] rd [of 2] rd [of 3] rd [of 4] fl
    by (simp add: enter_usermode_def Let_def w(3-6) task_cr3_def) (simp add: user_frame_def)
qed

subsection \<open>Instances\<close>

lemma boot_inv: "os_inv (sched_init reset_os) [Boot] Boot"
  by (rule sched_init_inv [OF reset_os_init])

lemma boot_facts:
  "kvm (sched_init reset_os) = boot_vm" "esp (regs (sched_init reset_os)) = 0x90000" "frames_ok boot_vm" "used boot_vm \<noteq> {..<4096}"
  "\<And>f. f \<notin> used boot_vm \<Longrightarrow> 513 \<le> f"
proof -
  show "kvm (sched_init reset_os) = boot_vm" "esp (regs (sched_init reset_os)) = 0x90000"
    by (simp_all add: sched_init_def Let_def reset_os_def)
  show "frames_ok boot_vm" by (rule boot_vm_ok)
  show "used boot_vm \<noteq> {..<4096}"
  proof
    assume "used boot_vm = {..<4096}"
    from arg_cong [OF this, of card] show False by (simp add: boot_vm_ok(2))
  qed
  show "513 \<le> f" if "f \<notin> used boot_vm" for f using that pmm_init_inv(2) by (auto simp: used_def boot_vm_def)
qed

lemma boot_stack_apart:
  assumes "page_aligned p" "fno p \<notin> used boot_vm"
  shows "stack_apart (sched_init reset_os) p"
  using boot_facts(5) [OF assms(2)] unat_page [OF assms(1)] by (auto simp: stack_apart_def boot_facts(2) push_frame_def in_page_def)

lemma boot_alloc: "\<exists>a v. vm_alloc_page boot_vm = (a, v) \<and> a \<noteq> 0"
  using boot_facts(3) boot_facts(4) by (cases rule: vm_alloc_cases) blast+

lemma boot_slot:
  assumes "is_cstr n"
  obtains i k where "alloc_tcb (sched_init reset_os) = Some (Pool i)"
    "identify (Pool i) n (sched_init reset_os) = Some (upd_task (Pool i) (\<lambda>x. x\<lparr>t_id := next_task_id (sched_init reset_os) + 1, t_name := k\<rparr>)
      ((sched_init reset_os)\<lparr>next_task_id := next_task_id (sched_init reset_os) + 1\<rparr>))"
  using boot_inv
proof (cases rule: alloc_tcb_cases)
  case full
  then have "Pool 0 \<in> set [Boot]" by (metis zero_less_numeral)
  then show thesis by simp
next
  case (slot i)
  then show thesis using identify_zero [OF slot(3) assms] that by blast
qed

theorem task_create_starts_witness:
  "\<exists>t s'. task_create some_symbols 0x11000 (''worker'' @ [NUL]) (sched_init reset_os) = Some (Some t, s') \<and>
     eip (regs (task_switch Boot (t_esp (tasks s' t)) s')) = 0x10400"
proof -
  let ?s = "sched_init reset_os" and ?n = "''worker'' @ [NUL]"
  have n: "is_cstr ?n" by (simp add: is_cstr_def)
  obtain a v where a: "vm_alloc_page boot_vm = (a, v)" "a \<noteq> 0" using boot_alloc by blast
  have "task_create some_symbols 0x11000 ?n ?s \<noteq> Some (None, s')" for s'
    by (rule boot_slot [OF n]) (simp add: task_create_def os_alloc_page_def boot_facts(1) a Let_def start_task_def split: bind_splits prod.splits)
  then obtain t s' where run: "task_create some_symbols 0x11000 ?n ?s = Some (Some t, s')"
    using task_create_inv [OF boot_inv n, of some_symbols "0x11000"] unfolding created_def by blast
  have "stack_apart ?s (t_kernel_stack (tasks s' t))"
    using task_create_fresh [OF boot_inv n run] boot_facts(1) by (intro boot_stack_apart) (simp_all add: fresh_task_def Let_def)
  from task_create_starts [OF boot_inv n run this, where old = Boot] run show ?thesis by (auto simp: Let_def some_symbols_def)
qed

theorem user_task_enters_ring3_witness:
  "\<exists>t s'. task_create_user_mapped some_symbols 0x8000000 (''hello'' @ [NUL]) 0x300000 0x300000 0xBFFFFFF0 (sched_init reset_os) = Some (Some t, s') \<and>
     cs (regs (enter_usermode (task_switch Boot (t_esp (tasks s' t)) s'))) = 0x1B"
proof -
  let ?s = "sched_init reset_os" and ?n = "''hello'' @ [NUL]"
  let ?run = "task_create_user_mapped some_symbols 0x8000000 ?n 0x300000 0x300000 0xBFFFFFF0 ?s"
  have n: "is_cstr ?n" by (simp add: is_cstr_def)
  obtain a v where a: "vm_alloc_page boot_vm = (a, v)" "a \<noteq> 0" using boot_alloc by blast
  have "?run \<noteq> Some (None, s')" for s'
    by (rule boot_slot [OF n]) (simp add: task_create_user_mapped_def os_alloc_page_def boot_facts(1) a Let_def start_task_def split: bind_splits prod.splits)
  then obtain t s' where run: "?run = Some (Some t, s')"
    using task_create_user_mapped_inv [OF boot_inv n, of some_symbols "0x8000000" "0x300000" "0x300000" "0xBFFFFFF0"]
    unfolding created_def by blast
  have "stack_apart ?s (t_kernel_stack (tasks s' t))"
    using task_create_user_mapped_fresh [OF boot_inv n run] boot_facts(1)
    by (intro boot_stack_apart) (simp_all add: fresh_task_def Let_def)
  from user_task_enters_ring3 [OF boot_inv n run this, where old = Boot] run show ?thesis by (auto simp: Let_def)
qed

end
