(* ===== verification/Klog.thy ===== *)
theory Klog
  imports Klibc_Stdio
begin

text \<open>
  The kernel log, \<^verbatim>\<open>klog.c\<close>: a formatter into a buffer of 128 characters and a circular buffer of 256 entries.  The text printed on
  the console is collected in \<open>log_out\<close>.  The formatter returns its text or a fault: a store past its buffer, or other undefined
  behaviour (a missing or ill-typed variable argument).  The log refines a list of the most recent entries, oldest first.
\<close>

section \<open>Definitions\<close>

datatype klog_level_t = KLOG_DEBUG | KLOG_INFO | KLOG_WARN | KLOG_ERROR

record klog_entry_t =
  level :: klog_level_t
  message :: string
  timestamp :: u32

record klog_t =
  log_buffer :: "klog_entry_t list"
  log_head :: u32
  log_count :: u32
  current_timestamp :: u32
  log_out :: string

abbreviation KLOG_BUFFER_SIZE :: u32 where "KLOG_BUFFER_SIZE \<equiv> 256"
abbreviation KLOG_MSG_MAX_LEN :: nat where "KLOG_MSG_MAX_LEN \<equiv> 128"

fun level_names :: "klog_level_t \<Rightarrow> string" where
  "level_names KLOG_DEBUG = ''[DEBUG]''"
| "level_names KLOG_INFO = ''[INFO] ''"
| "level_names KLOG_WARN = ''[WARN] ''"
| "level_names KLOG_ERROR = ''[ERROR]''"

definition zero_entry :: klog_entry_t where
  "zero_entry = \<lparr>level = KLOG_DEBUG, message = replicate KLOG_MSG_MAX_LEN NUL, timestamp = 0\<rparr>"

definition klog_init :: "klog_t \<Rightarrow> klog_t" where
  "klog_init k = k\<lparr>log_buffer := replicate 256 zero_entry, log_head := 0, log_count := 0, current_timestamp := 0\<rparr>"

subsection \<open>Formatting\<close>

text \<open>\<open>Overrun buf c\<close>: the character \<open>c\<close> is stored at index \<open>length buf\<close>, past the end, when the array holds \<open>buf\<close>.\<close>

datatype klog_fault = Overrun string char | Undefined

fun and_then :: "'e + 'a \<Rightarrow> ('a \<Rightarrow> 'e + 'b) \<Rightarrow> 'e + 'b" where
  "and_then (Inl e) f = Inl e"
| "and_then (Inr x) f = f x"

fun defined :: "'a option \<Rightarrow> klog_fault + 'a" where
  "defined None = Inl Undefined"
| "defined (Some x) = Inr x"

lemma and_then_Inr: "and_then x f = Inr y \<longleftrightarrow> (\<exists>z. x = Inr z \<and> f z = Inr y)"
  by (cases x) simp_all

text \<open>
  \<open>put\<close> is an unguarded \<^verbatim>\<open>temp_buffer[pos++] = c\<close>, \<open>put_text\<close> the copying loops, which stop at the bound, \<open>put_end\<close> the store of the
  terminator.  The position is the length of the text so far.
\<close>

definition put :: "char \<Rightarrow> string \<Rightarrow> klog_fault + string" where
  "put c acc = (if length acc < KLOG_MSG_MAX_LEN then Inr (acc @ [c]) else Inl (Overrun acc c))"

definition put_end :: "string \<Rightarrow> klog_fault + string" where
  "put_end acc = (if length acc < KLOG_MSG_MAX_LEN then Inr acc else Inl (Overrun acc NUL))"

fun put_text :: "string \<Rightarrow> string \<Rightarrow> string" where
  "put_text [] acc = acc"
| "put_text (c # cs) acc =
     (if c \<noteq> NUL \<and> length acc < KLOG_MSG_MAX_LEN - 1 then put_text cs (acc @ [c]) else acc)"

fun klog_conv :: "char \<Rightarrow> va list \<Rightarrow> string \<Rightarrow> klog_fault + string \<times> va list" where
  "klog_conv f args acc =
     (if f = CHR ''d'' \<or> f = CHR ''i'' then
        (case args of VInt v # r \<Rightarrow> and_then (defined (itoa v 10)) (\<lambda>s. Inr (put_text s acc, r)) | _ \<Rightarrow> Inl Undefined)
      else if f = CHR ''u'' then
        (case args of VInt v # r \<Rightarrow> and_then (defined (utoa v 10)) (\<lambda>s. Inr (put_text s acc, r)) | _ \<Rightarrow> Inl Undefined)
      else if f = CHR ''x'' then
        (case args of VInt v # r \<Rightarrow> and_then (defined (utoa v 16)) (\<lambda>s. Inr (put_text s acc, r)) | _ \<Rightarrow> Inl Undefined)
      else if f = CHR ''s'' then
        (case args of VStr (Some s) # r \<Rightarrow> Inr (put_text s acc, r) | VStr None # r \<Rightarrow> Inr (acc, r) | _ \<Rightarrow> Inl Undefined)
      else if f = CHR ''c'' then
        (case args of VInt v # r \<Rightarrow> and_then (put (char_of (unat v)) acc) (\<lambda>acc. Inr (acc, r)) | _ \<Rightarrow> Inl Undefined)
      else if f = CHR ''%'' then and_then (put (CHR ''%'') acc) (\<lambda>acc. Inr (acc, args))
      else and_then (put (CHR ''%'') acc) (\<lambda>acc. and_then (put f acc) (\<lambda>acc. Inr (acc, args))))"

text \<open>
  The main loop.  The format is the characters in front of its terminator, so the end of the list is the test for
  \<^verbatim>\<open>format[i] != '\0'\<close>; the loop is followed by the store of the terminator.
\<close>

fun klog_format :: "string \<Rightarrow> va list \<Rightarrow> string \<Rightarrow> klog_fault + string" where
  "klog_format [] args acc = put_end acc"
| "klog_format (c # fmt) args acc =
     (if \<not> length acc < KLOG_MSG_MAX_LEN - 1 then put_end acc
      else if c = CHR ''%'' \<and> fmt \<noteq> [] then and_then (klog_conv (hd fmt) args acc) (\<lambda>(acc, args). klog_format (tl fmt) args acc)
      else and_then (put c acc) (klog_format fmt args))"

subsection \<open>The log\<close>

definition klog :: "klog_level_t \<Rightarrow> string \<Rightarrow> va list \<Rightarrow> klog_t \<Rightarrow> klog_fault + klog_t" where
  "klog lvl format args k =
     (let i = unat (log_head k);
          e = (log_buffer k ! i)\<lparr>level := lvl, timestamp := current_timestamp k\<rparr>;
          k = k\<lparr>current_timestamp := current_timestamp k + 1\<rparr>
      in and_then (klog_format format args []) (\<lambda>temp_buffer.
         and_then (defined (strncpy (message e) (temp_buffer @ [NUL]) (KLOG_MSG_MAX_LEN - 1))) (\<lambda>msg.
         let msg = msg[KLOG_MSG_MAX_LEN - 1 := NUL];
             e = e\<lparr>message := msg\<rparr>
         in Inr (k\<lparr>log_buffer := (log_buffer k)[i := e],
                   log_out := log_out k @ level_names lvl @ '' '' @ cstr msg @ [CHR 0x0A],
                   log_head := (log_head k + 1) mod KLOG_BUFFER_SIZE,
                   log_count := log_count k + 1\<rparr>))))"

definition klog_size :: "klog_t \<Rightarrow> u32" where
  "klog_size k = (if log_count k < KLOG_BUFFER_SIZE then log_count k else KLOG_BUFFER_SIZE)"

definition klog_get_stats :: "klog_t \<Rightarrow> u32 \<times> u32" where
  "klog_get_stats k = (log_count k, klog_size k)"

text \<open>The oldest entry's slot, as \<^verbatim>\<open>klog_dump\<close>, \<^verbatim>\<open>klog_get_entry\<close> and \<^verbatim>\<open>klog_flush_to_file\<close> compute it.\<close>

definition start_pos :: "klog_t \<Rightarrow> u32" where
  "start_pos k = (if log_count k \<le> KLOG_BUFFER_SIZE then 0 else log_head k)"

definition klog_get_entry :: "u32 \<Rightarrow> klog_t \<Rightarrow> klog_entry_t option" where
  "klog_get_entry index k =
     (if index \<ge> klog_size k then None
      else Some (log_buffer k ! unat ((start_pos k + index) mod KLOG_BUFFER_SIZE)))"

text \<open>A \<^verbatim>\<open>kprintf\<close> whose conversions all find their arguments.\<close>

definition log_printf :: "string \<Rightarrow> va list \<Rightarrow> klog_t \<Rightarrow> klog_t" where
  "log_printf fmt args k = (case kprintf fmt args of Some s \<Rightarrow> k\<lparr>log_out := log_out k @ s\<rparr> | None \<Rightarrow> k)"

definition klog_dump :: "klog_t \<Rightarrow> klog_t" where
  "klog_dump k =
     (let k0 = k; (total, size) = klog_get_stats k;
          nl = [CHR 0x0A];
          k = log_printf (nl @ ''=== Kernel Log Dump ==='' @ nl) [] k;
          k = log_printf (''Total messages logged: %u'' @ nl) [VInt total] k;
          k = log_printf (''Messages in buffer: %u'' @ nl) [VInt size] k;
          k = log_printf nl [] k;
          k = fold (\<lambda>i k. let e = log_buffer k ! unat ((start_pos k0 + of_nat i) mod KLOG_BUFFER_SIZE)
                        in log_printf (''[%u] %s %s'' @ nl)
                             [VInt (timestamp e), VStr (Some (level_names (level e))), VStr (Some (cstr (message e)))] k)
                [0..<unat size] k
      in log_printf (nl @ ''=== End of Log ==='' @ nl) [] k)"

definition klog_clear :: "klog_t \<Rightarrow> klog_t" where
  "klog_clear k = log_printf (''[INFO]  Log buffer cleared'' @ [CHR 0x0A]) []
     (k\<lparr>log_buffer := replicate 256 zero_entry, log_head := 0, log_count := 0, current_timestamp := 0\<rparr>)"

subsection \<open>The text of a flush\<close>

text \<open>
  \<^verbatim>\<open>klog_flush_to_file\<close> builds its text in \<^verbatim>\<open>flush_buf\<close> with guarded writes; \<open>fill lim\<close> is one such loop, the
  position being the length of the text.
\<close>

abbreviation FLUSH_BUF_SIZE :: nat where "FLUSH_BUF_SIZE \<equiv> 4096"

fun fill :: "nat \<Rightarrow> string \<Rightarrow> string \<Rightarrow> string" where
  "fill lim [] buf = buf"
| "fill lim (c # cs) buf = (if c \<noteq> NUL \<and> length buf < lim then fill lim cs (buf @ [c]) else buf)"

definition flush_entry :: "klog_entry_t \<Rightarrow> string \<Rightarrow> string" where
  "flush_entry e buf =
     (let lim = FLUSH_BUF_SIZE - 2;
          buf = fill lim (level_names (level e)) buf;
          buf = (if length buf < lim then buf @ '' '' else buf);
          buf = fill lim (the (utoa (timestamp e) 10)) buf;
          buf = (if length buf < lim then buf @ '' '' else buf);
          buf = fill lim (message e) buf
      in if length buf < FLUSH_BUF_SIZE - 1 then buf @ [CHR 0x0A] else buf)"

fun flush_loop :: "klog_entry_t list \<Rightarrow> string \<Rightarrow> string" where
  "flush_loop [] buf = buf"
| "flush_loop (e # es) buf = (if length buf < FLUSH_BUF_SIZE - 2 then flush_loop es (flush_entry e buf) else buf)"

definition flush_text :: "klog_t \<Rightarrow> string" where
  "flush_text k =
     flush_loop (map (\<lambda>i. log_buffer k ! unat ((start_pos k + of_nat i) mod KLOG_BUFFER_SIZE)) [0..<unat (klog_size k)]) []"

end
