(* ===== verification/Klog_Props.thy ===== *)
theory Klog_Props
  imports Klog
begin

text \<open>
  The log implements a bounded list.  \<open>klog_abs\<close> is the list of the entries it holds; logging appends to it and drops the oldest
  entry once 256 are held, \<^verbatim>\<open>klog_get_entry\<close> indexes it.  The formatter computes the first 127 characters of the
  expanded format, as long as the format has no unknown conversion.
\<close>

section \<open>Formatting\<close>

lemma put_text_take: "length acc \<le> 127 \<Longrightarrow> put_text s acc = take 127 (acc @ cstr s)"
proof (induction s arbitrary: acc)
  case (Cons c s)
  show ?case
  proof (cases "c \<noteq> NUL \<and> length acc < 127")
    case True
    then show ?thesis using Cons.IH [of "acc @ [c]"] by simp
  qed (use Cons.prems in auto)
qed simp

text \<open>The text of a conversion without any bound.\<close>

fun conv_text :: "char \<Rightarrow> va list \<Rightarrow> (string \<times> va list) option" where
  "conv_text f args =
     (if f = CHR ''d'' \<or> f = CHR ''i'' then
        (case args of VInt v # r \<Rightarrow> Some (the (itoa v 10), r) | _ \<Rightarrow> None)
      else if f = CHR ''u'' then (case args of VInt v # r \<Rightarrow> Some (the (utoa v 10), r) | _ \<Rightarrow> None)
      else if f = CHR ''x'' then (case args of VInt v # r \<Rightarrow> Some (the (utoa v 16), r) | _ \<Rightarrow> None)
      else if f = CHR ''s'' then
        (case args of VStr (Some s) # r \<Rightarrow> Some (cstr s, r) | VStr None # r \<Rightarrow> Some ([], r) | _ \<Rightarrow> None)
      else if f = CHR ''c'' then (case args of VInt v # r \<Rightarrow> Some ([char_of (unat v)], r) | _ \<Rightarrow> None)
      else if f = CHR ''%'' then Some (''%'', args)
      else Some ([CHR ''%'', f], args))"

fun expand :: "string \<Rightarrow> va list \<Rightarrow> string option" where
  "expand [] args = Some []"
| "expand (c # fmt) args =
     (if c = CHR ''%'' \<and> fmt \<noteq> [] then
        (case conv_text (hd fmt) args of
           None \<Rightarrow> None
         | Some (t, r) \<Rightarrow> map_option ((@) t) (expand (tl fmt) r))
      else map_option ((#) c) (expand fmt args))"

definition known_conv :: "char \<Rightarrow> bool" where
  "known_conv f \<longleftrightarrow> f \<in> set ''diuxsc%''"

fun known_fmt :: "string \<Rightarrow> bool" where
  "known_fmt [] = True"
| "known_fmt (c # fmt) =
     (if c = CHR ''%'' \<and> fmt \<noteq> [] then known_conv (hd fmt) \<and> known_fmt (tl fmt) else known_fmt fmt)"

lemma cstr_id: "NUL \<notin> set s \<Longrightarrow> cstr s = s"
  unfolding cstr_def by (induction s) auto

lemma digits_cstr: "2 \<le> b \<Longrightarrow> b \<le> 36 \<Longrightarrow> cstr (map digit_char (digits b n)) = map digit_char (digits b n)"
proof (rule cstr_id)
  assume b: "2 \<le> b" "b \<le> 36"
  have "digit_char d \<noteq> NUL" if "d \<in> set (digits b n)" for d
    using digits_less [OF b(1) that] b(2) by (intro digit_char_not_NUL) simp
  then show "NUL \<notin> set (map digit_char (digits b n))" by fastforce
qed

lemma itoa_cstr: "\<exists>s. itoa v 10 = Some s \<and> cstr s = s"
  by (simp add: itoa_decimal digits_cstr)

lemma utoa_cstr: "base \<in> {10, 16} \<Longrightarrow> \<exists>s. utoa v base = Some s \<and> cstr s = s"
  by (auto simp: utoa_digits digits_cstr)

lemma klog_conv_text:
  assumes "known_conv f" "conv_text f args = Some (t, r)" "length acc < 127"
  shows "klog_conv f args acc = Inr (take 127 (acc @ t), r)"
proof -
  obtain s10 where s10: "\<And>v. itoa v 10 = Some (s10 v)" "\<And>v. cstr (s10 v) = s10 v" using itoa_cstr by metis
  obtain u10 where u10: "\<And>v. utoa v 10 = Some (u10 v)" "\<And>v. cstr (u10 v) = u10 v" using utoa_cstr [of 10] by auto metis
  obtain u16 where u16: "\<And>v. utoa v 16 = Some (u16 v)" "\<And>v. cstr (u16 v) = u16 v" using utoa_cstr [of 16] by auto metis
  have "f \<in> set ''diuxsc%''" using assms(1) by (simp add: known_conv_def)
  then consider "f = CHR ''d'' \<or> f = CHR ''i''" | "f = CHR ''u''" | "f = CHR ''x''" | "f = CHR ''s''" | "f = CHR ''c''" | "f = CHR ''%''"
    by auto
  then show ?thesis
    by cases (use assms(2,3) in \<open>auto simp: s10 u10 u16 put_text_take put_def split: list.splits va.splits option.splits\<close>)
qed

lemma klog_format_take:
  "known_fmt fmt \<Longrightarrow> expand fmt args = Some t \<Longrightarrow> length acc \<le> 127 \<Longrightarrow>
   klog_format fmt args acc = Inr (take 127 (acc @ t))"
proof (induction fmt args arbitrary: acc t rule: expand.induct)
  case (2 c fmt args)
  show ?case
  proof (cases "length acc < 127")
    case False
    then show ?thesis using "2.prems"(3) by (simp add: put_end_def)
  next
    case room: True
    show ?thesis
    proof (cases "c = CHR ''%'' \<and> fmt \<noteq> []")
      case True
      then obtain u r t' where u: "conv_text (hd fmt) args = Some (u, r)" "expand (tl fmt) r = Some t'" "t = u @ t'"
        using "2.prems"(2) by (auto split: option.splits prod.splits)
      have k: "known_conv (hd fmt)" "known_fmt (tl fmt)" using "2.prems"(1) True by simp_all
      have "klog_format (tl fmt) r (take 127 (acc @ u)) = Inr (take 127 (take 127 (acc @ u) @ t'))"
        using "2.IH"(1) [OF True u(1) refl k(2) u(2), of "take 127 (acc @ u)"] by (simp del: take_append)
      moreover have "take 127 (take 127 (acc @ u) @ t') = take 127 (acc @ u @ t')" using room by (auto simp: min_def)
      ultimately show ?thesis
        using True room klog_conv_text [OF k(1) u(1) room] u(3) by (simp del: klog_conv.simps take_append)
    next
      case False
      then obtain t' where t': "expand fmt args = Some t'" "t = c # t'" using "2.prems"(2) by auto
      show ?thesis using "2.IH"(2) [OF False _ t'(1), of "acc @ [c]"] "2.prems"(1) False room t'(2) by (auto simp: put_def)
    qed
  qed
qed (simp add: put_end_def)

lemma length_klog_conv:
  "klog_conv f args acc = Inr (acc', r) \<Longrightarrow> length acc < 127 \<Longrightarrow> length acc' \<le> 128"
  by (auto simp: put_text_take put_def and_then_Inr split: if_splits list.splits va.splits option.splits)

lemma klog_format_length: "klog_format fmt args acc = Inr t \<Longrightarrow> length acc \<le> 128 \<Longrightarrow> length t \<le> 127"
proof (induction fmt args acc rule: klog_format.induct)
  case (2 c fmt args acc)
  then show ?case
    by (auto simp: put_def put_end_def and_then_Inr simp del: klog_conv.simps split: if_splits prod.splits dest: length_klog_conv)
qed (auto simp: put_end_def split: if_splits)

section \<open>The ring\<close>

definition entry_ok :: "klog_entry_t \<Rightarrow> bool" where
  "entry_ok e \<longleftrightarrow> length (message e) = KLOG_MSG_MAX_LEN \<and> is_cstr (message e)"

definition klog_inv :: "klog_t \<Rightarrow> bool" where
  "klog_inv k \<longleftrightarrow> length (log_buffer k) = 256 \<and> unat (log_head k) = unat (log_count k) mod 256 \<and>
     (\<forall>e \<in> set (log_buffer k). entry_ok e)"

text \<open>The entries held, oldest first.\<close>

definition klog_abs :: "klog_t \<Rightarrow> klog_entry_t list" where
  "klog_abs k = (if unat (log_count k) < 256 then take (unat (log_count k)) (log_buffer k)
     else rotate (unat (log_head k)) (log_buffer k))"

lemma length_klog_abs: "klog_inv k \<Longrightarrow> length (klog_abs k) = min (unat (log_count k)) 256"
  by (simp add: klog_abs_def klog_inv_def min_def)

lemma rotate_update:
  assumes "h < length xs"
  shows "rotate (Suc h) (xs[h := e]) = tl (rotate h xs) @ [e]"
proof -
  have d: "drop h (xs[h := e]) = e # drop (Suc h) xs" using assms by (metis Cons_nth_drop_Suc drop_update_cancel length_list_update lessI nth_list_update_eq)
  have "rotate h (xs[h := e]) = e # drop (Suc h) xs @ take h xs"
    using assms d by (simp add: rotate_drop_take)
  moreover have "rotate h xs = xs ! h # drop (Suc h) xs @ take h xs"
    using assms by (simp add: rotate_drop_take Cons_nth_drop_Suc [symmetric])
  ultimately show ?thesis by simp
qed

lemma klog_advance:
  assumes inv: "klog_inv k" and more: "log_count k \<noteq> - 1" and e: "entry_ok e"
    and k': "log_buffer k' = (log_buffer k)[unat (log_head k) := e]" "log_head k' = (log_head k + 1) mod KLOG_BUFFER_SIZE"
      "log_count k' = log_count k + 1"
  shows "klog_inv k' \<and> klog_abs k' = drop (length (klog_abs k) - 255) (klog_abs k @ [e])"
proof -
  let ?n = "unat (log_count k)" and ?h = "unat (log_head k)" and ?b = "log_buffer k"
  have len: "length ?b = 256" and h: "?h = ?n mod 256" and hl: "?h < 256" using inv by (simp_all add: klog_inv_def)
  have n': "unat (log_count k') = Suc ?n"
  proof -
    have "1 + log_count k \<noteq> 0" using more by (metis add.commute add_eq_0_iff)
    then show ?thesis using unatSuc k'(3) by (metis add.commute)
  qed
  have h': "unat (log_head k') = Suc ?h mod 256"
  proof -
    have "unat (log_head k + 1) = Suc ?h" using hl by (subst unat_add_lem [THEN iffD1]) simp_all
    then show ?thesis by (simp add: k'(2) unat_mod_distrib)
  qed
  have "klog_inv k'"
    using inv e h h' n' by (auto simp: klog_inv_def k'(1) mod_Suc_eq dest: set_update_subset_insert [THEN subsetD])
  moreover have "klog_abs k' = drop (length (klog_abs k) - 255) (klog_abs k @ [e])"
  proof (cases "?n < 256")
    case True
    then have abs: "klog_abs k = take ?n ?b" "?h = ?n" using h by (simp_all add: klog_abs_def)
    have t: "take (Suc ?n) (?b[?n := e]) = take ?n ?b @ [e]" using True len by (simp add: take_Suc_conv_app_nth)
    show ?thesis
    proof (cases "?n = 255")
      case False
      then show ?thesis using True t abs n' by (simp add: klog_abs_def k'(1) len)
    next
      case last: True
      then have "klog_abs k' = ?b[255 := e]" using h' n' abs(2) by (simp add: klog_abs_def k'(1))
      then show ?thesis using t last len by (simp add: abs)
    qed
  next
    case False
    then have abs: "klog_abs k = rotate ?h ?b" by (simp add: klog_abs_def)
    have "klog_abs k' = rotate (Suc ?h mod 256) (?b[?h := e])" using False n' h' by (simp add: klog_abs_def k'(1))
    also have "\<dots> = rotate (Suc ?h) (?b[?h := e])" using len by (metis length_list_update rotate_conv_mod)
    also have "\<dots> = tl (klog_abs k) @ [e]" using rotate_update [of ?h ?b e] hl len abs by simp
    finally show ?thesis using len abs by (cases "klog_abs k") (simp_all add: drop_Suc)
  qed
  ultimately show ?thesis by blast
qed

lemma klog_message:
  assumes "length msg = 128" "length t \<le> 127"
  defines "m \<equiv> take 127 (cstr (t @ [NUL])) @ replicate (127 - length (cstr (t @ [NUL]))) NUL @ drop 127 msg"
  shows "strncpy msg (t @ [NUL]) 127 = Some m" "length (m[127 := NUL]) = 128" "is_cstr (m[127 := NUL])" "cstr (m[127 := NUL]) = cstr t"
proof -
  have c: "cstr (t @ [NUL]) = cstr t" by (induction t) auto
  have l: "length (cstr t) \<le> 127" using assms(2) unfolding cstr_def by (meson length_takeWhile_le le_trans)
  show "strncpy msg (t @ [NUL]) 127 = Some m" using assms(1) by (simp add: m_def strncpy_eq)
  have "length (drop 127 msg) = Suc 0" using assms(1) by simp
  then obtain x where x: "drop 127 msg = [x]" by (metis length_0_conv length_Suc_conv)
  have m: "m[127 := NUL] = cstr t @ NUL # replicate (127 - length (cstr t)) NUL"
  proof -
    have "m = (cstr t @ replicate (127 - length (cstr t)) NUL) @ [x]" using l by (simp add: m_def c x)
    then have "m[127 := NUL] = (cstr t @ replicate (127 - length (cstr t)) NUL) @ [NUL]" using l by (simp add: list_update_append)
    then show ?thesis using replicate_append_same by simp
  qed
  show "length (m[127 := NUL]) = 128" "is_cstr (m[127 := NUL])" unfolding m using l by simp_all
  show "cstr (m[127 := NUL]) = cstr t" unfolding m by (rule cstr_append_NUL [OF cstr_no_NUL])
qed

lemma klog_effect:
  assumes inv: "klog_inv k" and more: "log_count k \<noteq> - 1" and t: "klog_format fmt args [] = Inr t"
  shows "\<exists>k' e. klog lvl fmt args k = Inr k' \<and> klog_inv k' \<and>
    klog_abs k' = drop (length (klog_abs k) - 255) (klog_abs k @ [e]) \<and>
    level e = lvl \<and> timestamp e = current_timestamp k \<and> cstr (message e) = cstr t \<and>
    log_out k' = log_out k @ level_names lvl @ '' '' @ cstr t @ [CHR 0x0A]"
proof -
  have h: "unat (log_head k) < 256" "length (log_buffer k) = 256" using inv by (simp_all add: klog_inv_def)
  then have "entry_ok (log_buffer k ! unat (log_head k))" using inv by (simp add: klog_inv_def)
  then have l: "length (message (log_buffer k ! unat (log_head k))) = 128" by (simp add: entry_ok_def)
  note m = klog_message [OF l klog_format_length [OF t]]
  define e where "e = (log_buffer k ! unat (log_head k))\<lparr>level := lvl, timestamp := current_timestamp k, message := (take 127 (cstr (t @ [NUL])) @
      replicate (127 - length (cstr (t @ [NUL]))) NUL @ drop 127 (message (log_buffer k ! unat (log_head k))))[127 := NUL]\<rparr>"
  obtain k' where k': "klog lvl fmt args k = Inr k'" "log_buffer k' = (log_buffer k)[unat (log_head k) := e]"
    "log_head k' = (log_head k + 1) mod KLOG_BUFFER_SIZE" "log_count k' = log_count k + 1"
    "log_out k' = log_out k @ level_names lvl @ '' '' @ cstr (message e) @ [CHR 0x0A]"
    using t m(1) by (simp add: klog_def Let_def e_def)
  have e: "entry_ok e" "level e = lvl" "timestamp e = current_timestamp k" "cstr (message e) = cstr t"
    using m(2-4) by (simp_all add: e_def entry_ok_def)
  show ?thesis using klog_advance [OF inv more e(1) k'(2-4)] k'(1,5) e by (intro exI [of _ k'] exI [of _ e]) simp
qed

lemma klog_get_entry_abs:
  assumes inv: "klog_inv k"
  shows "klog_get_entry i k = (if unat i < length (klog_abs k) then Some (klog_abs k ! unat i) else None)"
proof -
  have h: "unat (log_head k) < 256" "length (log_buffer k) = 256" using inv by (simp_all add: klog_inv_def)
  have size: "i < klog_size k \<longleftrightarrow> unat i < length (klog_abs k)"
    unfolding length_klog_abs [OF inv] by (simp add: klog_size_def word_less_nat_alt min_def)
  have "log_buffer k ! unat ((start_pos k + i) mod KLOG_BUFFER_SIZE) = klog_abs k ! unat i" if i: "unat i < length (klog_abs k)"
  proof -
    have i': "unat i < 256" using i length_klog_abs [OF inv] by simp
    have "unat (start_pos k + i) = unat (start_pos k) + unat i"
      using i' h(1) by (subst unat_add_lem [THEN iffD1]) (simp_all add: start_pos_def)
    then have u: "unat ((start_pos k + i) mod KLOG_BUFFER_SIZE) = (unat (start_pos k) + unat i) mod 256"
      by (simp add: unat_mod_distrib)
    consider "unat (log_count k) < 256" | "unat (log_count k) = 256" | "unat (log_count k) > 256" by linarith
    then show ?thesis
    proof cases
      case 1
      then show ?thesis using i i' u by (simp add: klog_abs_def start_pos_def word_le_nat_alt)
    next
      case 2
      then show ?thesis using i' u inv h by (simp add: klog_abs_def start_pos_def word_le_nat_alt klog_inv_def)
    next
      case 3
      then show ?thesis using i' u h by (simp add: klog_abs_def start_pos_def word_le_nat_alt nth_rotate)
    qed
  qed
  then show ?thesis using size by (auto simp: klog_get_entry_def not_less [symmetric])
qed

section \<open>The flush buffer\<close>

lemma fill_take: "length buf \<le> lim \<Longrightarrow> fill lim s buf = take lim (buf @ cstr s)"
proof (induction s arbitrary: buf)
  case (Cons c s)
  show ?case
  proof (cases "c \<noteq> NUL \<and> length buf < lim")
    case True
    then show ?thesis using Cons.IH [of "buf @ [c]"] by simp
  qed (use Cons.prems in auto)
qed simp

definition log_line :: "klog_entry_t \<Rightarrow> string" where
  "log_line e = level_names (level e) @ '' '' @ the (utoa (timestamp e) 10) @ '' '' @ cstr (message e) @ [CHR 0x0A]"

lemma cstr_level [simp]: "cstr (level_names l) = level_names l"
  by (cases l) simp_all

lemma cstr_utoa10 [simp]: "cstr (the (utoa v 10)) = the (utoa v 10)"
  using utoa_cstr [of 10 v] by auto

lemma put_space: "length buf \<le> lim \<Longrightarrow> (if length buf < lim then buf @ '' '' else buf) = take lim (buf @ '' '')"
  by auto

lemma take_take_append: "take n (take n xs @ ys) = take n (xs @ ys)"
  by (auto simp: min_def)

lemma flush_entry_take:
  assumes "length buf \<le> 4094"
  shows "flush_entry e buf =
    take 4094 (buf @ level_names (level e) @ '' '' @ the (utoa (timestamp e) 10) @ '' '' @ cstr (message e)) @ [CHR 0x0A]"
proof -
  define b1 where "b1 = fill 4094 (level_names (level e)) buf"
  define b2 where "b2 = (if length b1 < 4094 then b1 @ '' '' else b1)"
  define b3 where "b3 = fill 4094 (the (utoa (timestamp e) 10)) b2"
  define b4 where "b4 = (if length b3 < 4094 then b3 @ '' '' else b3)"
  define b5 where "b5 = fill 4094 (message e) b4"
  have b1: "b1 = take 4094 (buf @ level_names (level e))" using assms by (simp add: b1_def fill_take del: take_append)
  have b2: "b2 = take 4094 (b1 @ '' '')" unfolding b2_def by (rule put_space) (simp add: b1 del: take_append)
  have b3: "b3 = take 4094 (b2 @ the (utoa (timestamp e) 10))" unfolding b3_def by (subst fill_take) (simp_all add: b2 del: take_append)
  have b4: "b4 = take 4094 (b3 @ '' '')" unfolding b4_def by (rule put_space) (simp add: b3 del: take_append)
  have b5: "b5 = take 4094 (b4 @ cstr (message e))" unfolding b5_def by (subst fill_take) (simp_all add: b4 del: take_append)
  have "flush_entry e buf = (if length b5 < 4095 then b5 @ [CHR 0x0A] else b5)"
  proof -
    have lim: "FLUSH_BUF_SIZE - 2 = 4094" "FLUSH_BUF_SIZE - 1 = 4095" by simp_all
    show ?thesis unfolding flush_entry_def Let_def lim b5_def b4_def b3_def b2_def b1_def by (rule refl)
  qed
  also have "\<dots> = b5 @ [CHR 0x0A]" by (simp add: b5 del: take_append)
  finally show ?thesis unfolding b5 b4 b3 b2 b1 by (simp only: take_take_append append_assoc)
qed

lemma flush_loop_bound: "length buf \<le> 4095 \<Longrightarrow> length (flush_loop es buf) \<le> 4095"
proof (induction es arbitrary: buf)
  case (Cons e es)
  show ?case
  proof (cases "length buf < 4094")
    case True
    then show ?thesis using Cons.IH [of "flush_entry e buf"] by (simp add: flush_entry_take)
  qed (use Cons.prems in simp)
qed simp

text \<open>The lines that fit, or what the limit of 4094 characters leaves of them, with or without a line end behind.\<close>

definition cut_lines :: "string \<Rightarrow> string \<Rightarrow> bool" where
  "cut_lines all t \<longleftrightarrow> (if length all \<le> 4095 then t = all else t = take 4094 all \<or> t = take 4094 all @ [CHR 0x0A])"

lemma log_line_split: "log_line e = (level_names (level e) @ '' '' @ the (utoa (timestamp e) 10) @ '' '' @ cstr (message e)) @ [CHR 0x0A]"
  by (simp add: log_line_def)

lemma flush_loop_cut:
  "length buf \<le> 4095 \<Longrightarrow> length buf = 4095 \<longrightarrow> last buf = CHR 0x0A \<Longrightarrow> cut_lines (buf @ concat (map log_line es)) (flush_loop es buf)"
proof (induction es arbitrary: buf)
  case Nil
  then show ?case by (simp add: cut_lines_def)
next
  case (Cons e es)
  define x where "x = level_names (level e) @ '' '' @ the (utoa (timestamp e) 10) @ '' '' @ cstr (message e)"
  have line: "log_line e = x @ [CHR 0x0A]" "2 \<le> length x" "x \<noteq> []" by (simp_all add: log_line_split x_def)
  have fe: "length buf \<le> 4094 \<Longrightarrow> flush_entry e buf = take 4094 (buf @ x) @ [CHR 0x0A]" unfolding x_def by (rule flush_entry_take)
  consider (full) "4094 \<le> length buf" | (fits) "length (buf @ x) \<le> 4094" | (cut) "length buf < 4094" "4094 < length (buf @ x)" by fastforce
  then show ?case
  proof cases
    case full
    show ?thesis
    proof (cases "length buf = 4094")
      case False
      then have "length buf = 4095" "last buf = CHR 0x0A" using full Cons.prems by auto
      then obtain b where "buf = b @ [CHR 0x0A]" "length b = 4094" by (cases buf rule: rev_cases) auto
      then show ?thesis using line by (simp add: cut_lines_def)
    qed (use line in \<open>simp add: cut_lines_def\<close>)
  next
    case fits
    then have "flush_entry e buf = buf @ log_line e" "length buf < 4094" using line fe by simp_all
    then show ?thesis using Cons.IH [of "buf @ log_line e"] fits line(1) by simp
  next
    case cut
    then have "flush_entry e buf = take 4094 (buf @ x) @ [CHR 0x0A]" using fe by simp
    moreover have "length (take 4094 (buf @ x) @ [CHR 0x0A]) = 4095" using cut(2) by (simp add: min_def del: take_append)
    then have "flush_loop es (take 4094 (buf @ x) @ [CHR 0x0A]) = take 4094 (buf @ x) @ [CHR 0x0A]"
      by (cases es) (simp_all del: take_append)
    ultimately show ?thesis using cut line(1) by (simp add: cut_lines_def)
  qed
qed

lemma flush_text_loop: "klog_inv k \<Longrightarrow> flush_text k = flush_loop (klog_abs k) []"
proof -
  assume inv: "klog_inv k"
  have n: "unat (klog_size k) = length (klog_abs k)"
    using length_klog_abs [OF inv] by (simp add: klog_size_def word_less_nat_alt min_def)
  have "log_buffer k ! unat ((start_pos k + of_nat i) mod KLOG_BUFFER_SIZE) = klog_abs k ! i" if i: "i < length (klog_abs k)" for i
  proof -
    have "unat (of_nat i :: u32) = i" using i length_klog_abs [OF inv] by (intro unat_of_nat_u32) simp
    then have "klog_get_entry (of_nat i) k = Some (klog_abs k ! i)" using klog_get_entry_abs [OF inv, of "of_nat i"] i by simp
    then show ?thesis by (simp add: klog_get_entry_def split: if_splits)
  qed
  then have "map (\<lambda>i. log_buffer k ! unat ((start_pos k + of_nat i) mod KLOG_BUFFER_SIZE)) [0..<unat (klog_size k)] = klog_abs k"
    unfolding n by (intro nth_equalityI) simp_all
  then show ?thesis unfolding flush_text_def by (simp only:)
qed

section \<open>Properties\<close>

text \<open>(C14) The circular log buffer refines a bounded list: a message whose format expands without error is appended, with its
  level, its time stamp and the first 127 characters of its text, to the list of entries, and the oldest entry is dropped once there are
  256 (as long as the count of all messages stays below its wrap-around at \<open>2^32\<close>); \<^verbatim>\<open>klog_get_entry\<close> returns the entries
  of that list by index and nothing outside it.\<close>

theorem klog_refines_list:
  assumes "klog_inv k" "log_count k \<noteq> - 1" "known_fmt fmt" "expand fmt args = Some t"
  shows "\<exists>k' e. klog lvl fmt args k = Inr k' \<and> klog_inv k' \<and>
    klog_abs k' = drop (length (klog_abs k) - 255) (klog_abs k @ [e]) \<and>
    level e = lvl \<and> timestamp e = current_timestamp k \<and> cstr (message e) = cstr (take 127 t) \<and>
    (\<forall>i. klog_get_entry i k' = (if unat i < length (klog_abs k') then Some (klog_abs k' ! unat i) else None))"
proof -
  have "klog_format fmt args [] = Inr (take 127 t)" using klog_format_take [OF assms(3,4), of "[]"] by simp
  from klog_effect [OF assms(1,2) this, of lvl] show ?thesis using klog_get_entry_abs by blast
qed

text \<open>(C32) The text a flush writes stays inside its 4096-byte buffer, terminator included.  When the lines of all entries fit beside
  the terminator it is exactly these lines, one per entry in the order logged; otherwise it is their first 4094 characters, with or
  without a line end behind.\<close>

theorem flush_text_bounded:
  assumes "klog_inv k"
  shows "let all = concat (map log_line (klog_abs k))
    in length (flush_text k) < FLUSH_BUF_SIZE \<and>
       (if length all < FLUSH_BUF_SIZE then flush_text k = all
        else flush_text k = take 4094 all \<or> flush_text k = take 4094 all @ [CHR 0x0A])"
proof -
  have "length (flush_text k) \<le> 4095" unfolding flush_text_loop [OF assms] by (rule flush_loop_bound) simp
  moreover have "cut_lines (concat (map log_line (klog_abs k))) (flush_text k)"
    unfolding flush_text_loop [OF assms] using flush_loop_cut [of "[]" "klog_abs k"] by simp
  ultimately show ?thesis by (auto simp: cut_lines_def Let_def)
qed

lemma klog_format_plain:
  "CHR ''%'' \<notin> set s \<Longrightarrow> length acc + length s \<le> 127 \<Longrightarrow> klog_format (s @ r) args acc = klog_format r args (acc @ s)"
proof (induction s arbitrary: acc)
  case (Cons c s)
  have "klog_format (c # s @ r) args acc = klog_format (s @ r) args (acc @ [c])"
    using Cons.prems by (subst klog_format.simps) (auto simp: put_def simp del: klog_format.simps klog_conv.simps)
  then show ?case using Cons.IH [of "acc @ [c]"] Cons.prems by (simp del: klog_format.simps)
qed (simp del: klog_format.simps)

text \<open>(C40) An unknown conversion is stored as its two characters, without a test for room between them.  After fewer than 126 characters
  this is the text; after 126 it fills the 128-byte array of the formatter and the terminator is stored at index 128, past its end.\<close>

theorem klog_unknown_conversion_overruns:
  assumes "\<not> known_conv f" "CHR ''%'' \<notin> set body" "length body \<le> 126"
  shows "if length body < 126 then klog_format (body @ [CHR ''%'', f]) args [] = Inr (body @ [CHR ''%'', f])
    else klog lvl (body @ [CHR ''%'', f]) args k = Inl (Overrun (body @ [CHR ''%'', f]) NUL) \<and>
      length (body @ [CHR ''%'', f]) = KLOG_MSG_MAX_LEN"
proof -
  have "klog_conv f args body = Inr (body @ [CHR ''%'', f], args)"
    using assms(1,3) by (auto simp: known_conv_def put_def)
  then have "klog_format [CHR ''%'', f] args body = put_end (body @ [CHR ''%'', f])" using assms(3) by (simp del: klog_conv.simps)
  then have "klog_format (body @ [CHR ''%'', f]) args [] = put_end (body @ [CHR ''%'', f])"
    using klog_format_plain [of body "[]" "[CHR ''%'', f]" args] assms by (simp del: klog_format.simps)
  then show ?thesis using assms(3) by (simp add: klog_def put_end_def Let_def del: klog_format.simps)
qed

subsection \<open>Instances\<close>

definition empty_log :: klog_t where
  "empty_log = klog_init \<lparr>log_buffer = [], log_head = 0, log_count = 0, current_timestamp = 0, log_out = []\<rparr>"

lemma klog_init_inv: "klog_inv (klog_init k)" "klog_abs (klog_init k) = []"
  by (simp_all add: klog_inv_def klog_init_def klog_abs_def entry_ok_def zero_entry_def is_cstr_def)

theorem klog_refines_list_witness:
  "\<exists>k'. klog KLOG_INFO ''ready %u'' [VInt 7] empty_log = Inr k' \<and> length (klog_abs k') = 1"
proof -
  obtain t where t: "expand ''ready %u'' [VInt 7] = Some t" by simp
  have known: "known_fmt ''ready %u''" by (simp add: known_conv_def)
  have inv: "klog_inv empty_log" "klog_abs empty_log = []" unfolding empty_log_def by (rule klog_init_inv)+
  have more: "log_count empty_log \<noteq> - 1" by (simp add: empty_log_def klog_init_def)
  from klog_refines_list [OF inv(1) more known t, of KLOG_INFO] show ?thesis by (auto simp: inv(2))
qed

text \<open>A log with one message.\<close>

lemma one_message:
  obtains k where "klog KLOG_WARN ''up'' [] empty_log = Inr k" "klog_inv k" "length (klog_abs k) = 1"
    "concat (map log_line (klog_abs k)) = ''[WARN]  0 up'' @ [CHR 0x0A]"
proof -
  have inv: "klog_inv empty_log" "klog_abs empty_log = []" unfolding empty_log_def by (rule klog_init_inv)+
  have more: "log_count empty_log \<noteq> - 1" by (simp add: empty_log_def klog_init_def)
  have "klog_format ''up'' [] [] = Inr ''up''" by (simp add: put_def put_end_def)
  from klog_effect [OF inv(1) more this, of KLOG_WARN] obtain k e where
    k: "klog KLOG_WARN ''up'' [] empty_log = Inr k" "klog_inv k" "klog_abs k = [e]"
    and e: "level e = KLOG_WARN" "timestamp e = current_timestamp empty_log" "cstr (message e) = ''up''"
    by (auto simp: inv(2))
  have "utoa 0 10 = Some ''0''" by code_simp
  then have "log_line e = ''[WARN]  0 up'' @ [CHR 0x0A]" using e by (simp add: log_line_def empty_log_def klog_init_def)
  with k show thesis using that by simp
qed

theorem flush_text_bounded_witness:
  "\<exists>k. klog KLOG_WARN ''up'' [] empty_log = Inr k \<and> flush_text k = ''[WARN]  0 up'' @ [CHR 0x0A]"
proof -
  obtain k where k: "klog KLOG_WARN ''up'' [] empty_log = Inr k" "klog_inv k"
    "concat (map log_line (klog_abs k)) = ''[WARN]  0 up'' @ [CHR 0x0A]"
    by (rule one_message)
  from flush_text_bounded [OF k(2)] show ?thesis using k(1) unfolding k(3) Let_def by (intro exI [of _ k]) simp
qed

theorem klog_unknown_conversion_overruns_witness:
  "klog KLOG_ERROR (replicate 126 (CHR ''a'') @ ''%z'') [] empty_log = Inl (Overrun (replicate 126 (CHR ''a'') @ ''%z'') NUL) \<and>
   klog_format (replicate 125 (CHR ''a'') @ ''%z'') [] [] = Inr (replicate 125 (CHR ''a'') @ ''%z'')"
  using klog_unknown_conversion_overruns [of "CHR ''z''" "replicate 126 (CHR ''a'')" "[]" KLOG_ERROR empty_log]
    klog_unknown_conversion_overruns [of "CHR ''z''" "replicate 125 (CHR ''a'')" "[]" KLOG_ERROR empty_log]
  by (simp add: known_conv_def del: klog_format.simps)

end
