(* ===== verification/Timer.thy ===== *)
theory Timer
  imports Task_Entry
begin

text \<open>
  The system timer, \<^verbatim>\<open>timer.c\<close>: the tick counter, the interrupt handler that drives the scheduler, and the uptime text, which is
  written into a buffer of the caller.
\<close>

abbreviation TIMER_FREQUENCY :: u32 where "TIMER_FREQUENCY \<equiv> 100"

definition timer_handler :: "u32 \<Rightarrow> os \<Rightarrow> (u32 \<times> os) option" where
  "timer_handler timer_ticks s = map_option (Pair (timer_ticks + 1)) (schedule s)"

definition timer_init :: "handlers \<Rightarrow> u32 \<times> handlers" where
  "timer_init hs = (0, register_interrupt_handler 32 Timer_handler hs)"

definition get_timer_ticks :: "u32 \<Rightarrow> u32" where
  "get_timer_ticks timer_ticks = timer_ticks"

definition get_uptime_seconds :: "u32 \<Rightarrow> u32" where
  "get_uptime_seconds timer_ticks = timer_ticks div TIMER_FREQUENCY"

text \<open>\<^verbatim>\<open>uitoa(n, buf, 10)\<close>: the text and its terminator, at the start of the buffer.\<close>

definition uitoa_into :: "u32 \<Rightarrow> string \<Rightarrow> string option" where
  "uitoa_into n buf = do {
     t \<leftarrow> uitoa n 10;
     if length t < length buf then Some (t @ NUL # drop (Suc (length t)) buf) else None
   }"

text \<open>The two-part texts: a number and a unit, then a second number from the local \<^verbatim>\<open>temp\<close> and its unit.\<close>

definition two_parts :: "u32 \<Rightarrow> string \<Rightarrow> u32 \<Rightarrow> string \<Rightarrow> string \<Rightarrow> string option" where
  "two_parts a au b bu buffer = do {
     buffer \<leftarrow> uitoa_into a buffer;
     buffer \<leftarrow> strcat buffer (au @ [NUL]);
     temp \<leftarrow> uitoa_into b (replicate 16 NUL);
     buffer \<leftarrow> strcat buffer temp;
     strcat buffer (bu @ [NUL])
   }"

definition get_uptime_string :: "u32 \<Rightarrow> string \<Rightarrow> string option" where
  "get_uptime_string timer_ticks buffer =
     (let total_seconds = get_uptime_seconds timer_ticks
      in if total_seconds < 60 then do { buffer \<leftarrow> uitoa_into total_seconds buffer; strcat buffer (''s'' @ [NUL]) }
         else if total_seconds < 3600 then two_parts (total_seconds div 60) ''m '' (total_seconds mod 60) ''s'' buffer
         else two_parts (total_seconds div 3600) ''h '' (total_seconds mod 3600 div 60) ''m'' buffer)"

section \<open>The uptime text\<close>

text \<open>\<open>holds n x b\<close>: the buffer \<open>b\<close> of \<open>n\<close> characters holds the string \<open>x\<close>.\<close>

definition holds :: "nat \<Rightarrow> string \<Rightarrow> string \<Rightarrow> bool" where
  "holds n x b \<longleftrightarrow> length b = n \<and> is_cstr b \<and> cstr b = x"

lemma holdsI: "NUL \<notin> set x \<Longrightarrow> length x + length r = n - 1 \<Longrightarrow> 0 < n \<Longrightarrow> holds n x (x @ NUL # r)"
  by (auto simp: holds_def cstr_append_NUL)

lemma strcat_holds:
  assumes "holds n x b" "is_cstr src" "length x + length (cstr src) < n"
  shows "\<exists>b'. strcat b src = Some b' \<and> holds n (x @ cstr src) b'"
proof -
  have b: "length b = n" "is_cstr b" "cstr b = x" using assms(1) by (simp_all add: holds_def)
  have "strcat b src = Some ((x @ cstr src) @ NUL # drop (Suc (length x + length (cstr src))) b)"
    using strcat_eq [OF b(2) assms(2)] assms(3) b by simp
  moreover have "holds n (x @ cstr src) ((x @ cstr src) @ NUL # drop (Suc (length x + length (cstr src))) b)"
    using assms(3) b cstr_no_NUL [of b] cstr_no_NUL [of src] by (intro holdsI) auto
  ultimately show ?thesis by blast
qed

abbreviation dec :: "u32 \<Rightarrow> string" where
  "dec v \<equiv> the (uitoa v 10)"

lemma length_dec: "length (dec v) \<le> 10"
  by (rule uitoa10.length_print) simp_all

lemma uitoa_into_holds:
  assumes "10 < length buf"
  shows "\<exists>b. uitoa_into v buf = Some b \<and> holds (length buf) (dec v) b"
proof -
  obtain d where d: "uitoa v 10 = Some d" by (simp add: uitoa_digits)
  have l: "length d \<le> 10" "NUL \<notin> set d" using length_dec [of v] uitoa10.print_no_NUL [of v] d by simp_all
  then have "holds (length buf) d (d @ NUL # drop (Suc (length d)) buf)" using assms by (intro holdsI) auto
  then show ?thesis using l(1) assms by (simp add: uitoa_into_def d)
qed

lemma two_parts_holds:
  assumes "32 \<le> length buf" "length au \<le> 2" "length bu \<le> 2" "NUL \<notin> set au" "NUL \<notin> set bu"
  shows "\<exists>b'. two_parts a au b bu buf = Some b' \<and> holds (length buf) (dec a @ au @ dec b @ bu) b'"
proof -
  let ?n = "length buf"
  have c: "cstr (au @ [NUL]) = au" "cstr (bu @ [NUL]) = bu" using assms(4,5) by (simp_all add: cstr_append_NUL)
  obtain b1 where b1: "uitoa_into a buf = Some b1" "holds ?n (dec a) b1" using uitoa_into_holds [of buf a] assms(1) by auto
  obtain b2 where b2: "strcat b1 (au @ [NUL]) = Some b2" "holds ?n (dec a @ au) b2"
    using strcat_holds [OF b1(2), of "au @ [NUL]"] length_dec [of a] assms(1,2) c by auto
  obtain t where t: "uitoa_into b (replicate 16 NUL) = Some t" "holds 16 (dec b) t" using uitoa_into_holds [of "replicate 16 NUL" b] by auto
  then have ct: "is_cstr t" "cstr t = dec b" by (simp_all add: holds_def)
  obtain b3 where b3: "strcat b2 t = Some b3" "holds ?n ((dec a @ au) @ dec b) b3"
    using strcat_holds [OF b2(2) ct(1)] length_dec [of a] length_dec [of b] assms(1,2) ct(2) by auto
  obtain b4 where "strcat b3 (bu @ [NUL]) = Some b4" "holds ?n (((dec a @ au) @ dec b) @ bu) b4"
    using strcat_holds [OF b3(2), of "bu @ [NUL]"] length_dec [of a] length_dec [of b] assms(1-3) c by auto
  then show ?thesis using b1(1) b2(1) t(1) b3(1) by (simp add: two_parts_def)
qed

text \<open>(C33) \<^verbatim>\<open>get_uptime_string\<close> never writes past a buffer of 32 characters, for any tick count, and leaves the text its comment
  promises: seconds below a minute, minutes and seconds below an hour, hours and minutes above.\<close>

theorem get_uptime_string_fits:
  assumes "32 \<le> length buf"
  shows "\<exists>b. get_uptime_string t buf = Some b \<and> length b = length buf \<and> is_cstr b \<and>
    cstr b = (let s = get_uptime_seconds t
      in if s < 60 then dec s @ ''s''
         else if s < 3600 then dec (s div 60) @ ''m '' @ dec (s mod 60) @ ''s''
         else dec (s div 3600) @ ''h '' @ dec (s mod 3600 div 60) @ ''m'')"
proof -
  let ?s = "get_uptime_seconds t"
  consider "?s < 60" | "\<not> ?s < 60" "?s < 3600" | "\<not> ?s < 60" "\<not> ?s < 3600" by blast
  then show ?thesis
  proof cases
    case 1
    obtain b1 where b1: "uitoa_into ?s buf = Some b1" "holds (length buf) (dec ?s) b1" using uitoa_into_holds [of buf] assms by auto
    obtain b2 where "strcat b1 (''s'' @ [NUL]) = Some b2" "holds (length buf) (dec ?s @ ''s'') b2"
      using strcat_holds [OF b1(2), of "''s'' @ [NUL]"] length_dec [of ?s] assms by auto
    then show ?thesis using 1 b1 by (simp add: get_uptime_string_def holds_def)
  next
    case 2
    then show ?thesis using two_parts_holds [OF assms, of "''m ''" "''s''" "?s div 60" "?s mod 60"]
      by (auto simp: get_uptime_string_def holds_def Let_def)
  next
    case 3
    then show ?thesis using two_parts_holds [OF assms, of "''h ''" "''m''" "?s div 3600" "?s mod 3600 div 60"]
      by (auto simp: get_uptime_string_def holds_def Let_def)
  qed
qed

theorem get_uptime_string_fits_witness:
  "\<exists>b. get_uptime_string 4294967295 (replicate 32 CHR ''x'') = Some b \<and> cstr b = dec 11930 @ ''h '' @ dec 27 @ ''m''"
  using get_uptime_string_fits [of "replicate 32 CHR ''x''" 4294967295] by (simp add: get_uptime_seconds_def) blast

end
