(* ===== verification/Block_Dev.thy ===== *)
theory Block_Dev
  imports Paging_Props
begin

text \<open>
  The block device interface of \<^verbatim>\<open>fs/block.h\<close> and its implementation in memory,
  \<^verbatim>\<open>fs/ramdisk.c\<close>.  A \<^verbatim>\<open>block_device_t\<close> is a record of functions on the state of the device; a
  failing access (\<open>None\<close>) leaves the device as it was.  The locale \<open>block_device\<close> is the contract the file system
  relies on, and the RAM disk is its interpretation.
\<close>

section \<open>The interface\<close>

abbreviation BLOCK_SIZE :: u32 where "BLOCK_SIZE \<equiv> 512"

record 'd block_device_t =
  dev_read :: "u32 \<Rightarrow> 'd \<Rightarrow> u8 list option"
  dev_write :: "u32 \<Rightarrow> u8 list \<Rightarrow> 'd \<Rightarrow> 'd option"
  block_size :: u32
  total_blocks :: u32

section \<open>The RAM disk\<close>

text \<open>The globals of \<^verbatim>\<open>ramdisk.c\<close>, and the kernel's memory that holds the blocks.\<close>

record ramdisk =
  ramdisk_base :: u32
  ramdisk_size :: u32
  rd_vm :: vm

definition ramdisk_read :: "u32 \<Rightarrow> ramdisk \<Rightarrow> u8 list option" where
  "ramdisk_read block d =
     (if ramdisk_base d = 0 then None
      else let offset = block * BLOCK_SIZE
           in if offset + BLOCK_SIZE > ramdisk_size d then None
              else Some (map (\<lambda>i. mem (rd_vm d) (ramdisk_base d + offset + of_nat i)) [0..<unat BLOCK_SIZE]))"

definition ramdisk_write :: "u32 \<Rightarrow> u8 list \<Rightarrow> ramdisk \<Rightarrow> ramdisk option" where
  "ramdisk_write block buf d =
     (if ramdisk_base d = 0 then None
      else let offset = block * BLOCK_SIZE
           in if offset + BLOCK_SIZE > ramdisk_size d then None
              else Some (d\<lparr>rd_vm := rd_vm d\<lparr>mem :=
                     fold (\<lambda>i m. m(ramdisk_base d + offset + of_nat i := buf ! i)) [0..<unat BLOCK_SIZE]
                       (mem (rd_vm d))\<rparr>\<rparr>))"

definition ramdisk_dev :: "u32 \<Rightarrow> ramdisk block_device_t" where
  "ramdisk_dev n = \<lparr>dev_read = ramdisk_read, dev_write = ramdisk_write, block_size = BLOCK_SIZE, total_blocks = n\<rparr>"

definition ramdisk_init :: "u32 \<Rightarrow> ramdisk \<Rightarrow> ramdisk block_device_t option \<times> ramdisk" where
  "ramdisk_init size_kb d =
     (let size_bytes = size_kb * 1024;
          pages_needed = (size_bytes + PAGE_SIZE - 1) div PAGE_SIZE;
          (phys_addr, p) = alloc_pages pages_needed (frames (rd_vm d));
          d = d\<lparr>rd_vm := rd_vm d\<lparr>frames := p\<rparr>\<rparr>
      in if phys_addr = 0 then
           (None, d\<lparr>rd_vm := vm_print (''ERROR: ramdisk_init() - Failed to allocate '' @ num_str pages_needed @
                                      '' pages'' @ [CHR 0x0A]) (rd_vm d)\<rparr>)
         else
           let d = d\<lparr>ramdisk_base := phys_addr, ramdisk_size := pages_needed * PAGE_SIZE\<rparr>;
               d = d\<lparr>rd_vm := rd_vm d\<lparr>mem := memset phys_addr 0 (ramdisk_size d) (mem (rd_vm d))\<rparr>\<rparr>
           in (Some (ramdisk_dev (ramdisk_size d div BLOCK_SIZE)), d))"

section \<open>The contract\<close>

text \<open>The contents of a block, where the device can be read.\<close>

definition blk :: "'d block_device_t \<Rightarrow> 'd \<Rightarrow> nat \<Rightarrow> u8 list" where
  "blk dev d b = the (dev_read dev (of_nat b) d)"

locale block_device =
  fixes dev :: "'d block_device_t" and good :: "'d \<Rightarrow> bool"
  assumes read_returns: "good d \<Longrightarrow> b < total_blocks dev \<Longrightarrow> \<exists>x. dev_read dev b d = Some x \<and> length x = 512"
    and write_returns:
      "good d \<Longrightarrow> b < total_blocks dev \<Longrightarrow> length x = 512 \<Longrightarrow> \<exists>d'. dev_write dev b x d = Some d' \<and> good d'"
    and read_write:
      "good d \<Longrightarrow> b < total_blocks dev \<Longrightarrow> c < total_blocks dev \<Longrightarrow> length x = 512 \<Longrightarrow>
       dev_write dev b x d = Some d' \<Longrightarrow> dev_read dev c d' = (if c = b then Some x else dev_read dev c d)"
begin

abbreviation nblocks :: nat where
  "nblocks \<equiv> unat (total_blocks dev)"

lemma of_nat_block: "b < nblocks \<Longrightarrow> of_nat b < total_blocks dev \<and> unat (of_nat b :: u32) = b"
proof -
  assume b: "b < nblocks"
  then have "b < 4294967296" using unat_less_2p32 [of "total_blocks dev"] by linarith
  with b show ?thesis by (simp add: word_less_nat_alt unat_of_nat_u32)
qed

lemma read_blk:
  assumes "good d" "b < nblocks"
  shows "dev_read dev (of_nat b) d = Some (blk dev d b)" and "length (blk dev d b) = 512"
  using read_returns [OF assms(1) conjunct1 [OF of_nat_block [OF assms(2)]]] by (auto simp: blk_def)

lemma write_blk:
  assumes "good d" "b < nblocks" "length x = 512"
  obtains d' where "dev_write dev (of_nat b) x d = Some d'" "good d'"
    "\<And>c. c < nblocks \<Longrightarrow> blk dev d' c = (if c = b then x else blk dev d c)"
proof -
  note b = of_nat_block [OF assms(2)]
  from write_returns [OF assms(1) conjunct1 [OF b] assms(3)]
  obtain d' where d': "dev_write dev (of_nat b) x d = Some d'" "good d'" by blast
  have "blk dev d' c = (if c = b then x else blk dev d c)" if "c < nblocks" for c
  proof -
    note c = of_nat_block [OF that]
    have "(of_nat c :: u32) = of_nat b \<longleftrightarrow> c = b" using b c by metis
    then show ?thesis
      using read_write [OF assms(1) conjunct1 [OF b] conjunct1 [OF c] assms(3) d'(1)] by (simp add: blk_def)
  qed
  with d' show ?thesis by (rule that)
qed

end

section \<open>The RAM disk keeps the contract\<close>

definition ramdisk_good :: "u32 \<Rightarrow> ramdisk \<Rightarrow> bool" where
  "ramdisk_good n d \<longleftrightarrow>
     ramdisk_base d \<noteq> 0 \<and> unat (ramdisk_size d) = 512 * unat n \<and>
     unat (ramdisk_base d) + unat (ramdisk_size d) \<le> 4294967296"

lemma ramdisk_offset:
  assumes "ramdisk_good n d" "b < n"
  shows "unat (b * 512) = unat b * 512" and "\<not> b * 512 + 512 > ramdisk_size d"
proof -
  have "unat b < unat n" "512 * unat n < 4294967296"
    using assms unat_less_2p32 [of "ramdisk_size d"] by (simp_all add: ramdisk_good_def word_less_nat_alt)
  moreover from this show m: "unat (b * 512) = unat b * 512"
    by (intro unat_mult_lem [THEN iffD1, of b 512, simplified]) simp
  ultimately have "unat b * 512 + 512 \<le> 512 * unat n" by simp
  moreover from this have "unat (b * 512 + 512) = unat b * 512 + 512"
    using m \<open>512 * unat n < 4294967296\<close> unat_add_lem [THEN iffD1, of "b * 512" 512] by simp
  ultimately show "\<not> b * 512 + 512 > ramdisk_size d"
    using assms by (simp add: ramdisk_good_def word_less_nat_alt)
qed

lemma ramdisk_bytes_apart:
  assumes "ramdisk_good n d" "b < n" "c < n" "i < 512" "j < 512"
    "ramdisk_base d + b * 512 + of_nat i = ramdisk_base d + c * 512 + (of_nat j :: u32)"
  shows "b = c \<and> i = j"
proof -
  have lt: "unat x * 512 + k < 4294967296" if "x < n" "k < 512" for x k
  proof -
    have "unat x < unat n" "512 * unat n < 4294967296"
      using that assms(1) unat_less_2p32 [of "ramdisk_size d"] by (simp_all add: ramdisk_good_def word_less_nat_alt)
    then show ?thesis using that(2) by linarith
  qed
  have u: "unat (x * 512 + of_nat k :: u32) = unat x * 512 + k" if "x < n" "k < 512" for x k
    using lt [OF that] ramdisk_offset(1) [OF assms(1) that(1)] that(2)
    by (subst unat_add_lem [THEN iffD1]) (simp_all add: unat_of_nat_u32)
  have "b * 512 + of_nat i = c * 512 + (of_nat j :: u32)" using assms(6) by (simp add: add.assoc)
  then have e: "unat b * 512 + i = unat c * 512 + j" using u [OF assms(2,4)] u [OF assms(3,5)] by simp
  then have "(unat b * 512 + i) div 512 = (unat c * 512 + j) div 512" by (rule arg_cong)
  then have "unat b = unat c" using assms(4,5) by simp
  with e show ?thesis by (simp add: word_unat_eq_iff)
qed

lemma ramdisk_write_mem:
  assumes "ramdisk_good n d" "b < n"
  shows "ramdisk_write b x d = Some (d\<lparr>rd_vm := rd_vm d\<lparr>mem := \<lambda>a.
      if unat (a - (ramdisk_base d + b * 512)) < 512 then x ! unat (a - (ramdisk_base d + b * 512)) else mem (rd_vm d) a\<rparr>\<rparr>)"
  using assms(1) ramdisk_offset(2) [OF assms]
  by (simp add: ramdisk_write_def ramdisk_good_def fold_write_apply fun_eq_iff)

lemma ramdisk_read_mem:
  assumes "ramdisk_good n d" "b < n"
  shows "ramdisk_read b d = Some (map (\<lambda>i. mem (rd_vm d) (ramdisk_base d + b * 512 + of_nat i)) [0..<512])"
  using assms(1) ramdisk_offset(2) [OF assms] by (simp add: ramdisk_read_def ramdisk_good_def)

interpretation rd: block_device "ramdisk_dev n" "ramdisk_good n" for n
proof
  fix d b assume a: "ramdisk_good n d" "b < total_blocks (ramdisk_dev n)"
  then have b: "b < n" by (simp add: ramdisk_dev_def)
  show "\<exists>x. dev_read (ramdisk_dev n) b d = Some x \<and> length x = 512"
    using ramdisk_read_mem [OF a(1) b] by (simp add: ramdisk_dev_def)
  fix x :: "u8 list"
  show "\<exists>d'. dev_write (ramdisk_dev n) b x d = Some d' \<and> ramdisk_good n d'"
    using ramdisk_write_mem [OF a(1) b] a(1) by (simp add: ramdisk_dev_def ramdisk_good_def)
  fix c d' assume c: "c < total_blocks (ramdisk_dev n)" and x: "length x = 512"
    and d': "dev_write (ramdisk_dev n) b x d = Some d'"
  have c': "c < n" using c by (simp add: ramdisk_dev_def)
  have w: "d' = d\<lparr>rd_vm := rd_vm d\<lparr>mem := \<lambda>a.
      if unat (a - (ramdisk_base d + b * 512)) < 512 then x ! unat (a - (ramdisk_base d + b * 512)) else mem (rd_vm d) a\<rparr>\<rparr>"
    using d' ramdisk_write_mem [OF a(1) b, of x] by (simp add: ramdisk_dev_def)
  then have g: "ramdisk_good n d'" and base: "ramdisk_base d' = ramdisk_base d"
    using a(1) by (simp_all add: ramdisk_good_def)
  have "mem (rd_vm d') (ramdisk_base d + c * 512 + of_nat i) =
      (if c = b then x ! i else mem (rd_vm d) (ramdisk_base d + c * 512 + of_nat i))" if "i < 512" for i
  proof -
    let ?k = "unat (ramdisk_base d + c * 512 + of_nat i - (ramdisk_base d + b * 512))"
    have "ramdisk_base d + c * 512 + of_nat i = ramdisk_base d + b * 512 + of_nat ?k" by simp
    then have "c = b \<and> i = ?k" if "?k < 512"
      by (rule ramdisk_bytes_apart [OF a(1) c' b \<open>i < 512\<close> that])
    moreover have "?k = i" if "c = b" using that \<open>i < 512\<close> by (simp add: unat_of_nat_u32)
    ultimately show ?thesis using that by (auto simp: w)
  qed
  then show "dev_read (ramdisk_dev n) c d' = (if c = b then Some x else dev_read (ramdisk_dev n) c d)"
    using ramdisk_read_mem [OF g c'] ramdisk_read_mem [OF a(1) c'] x
    by (cases "c = b") (simp_all add: ramdisk_dev_def base list_eq_iff_nth_eq)
qed

lemma ramdisk_pages:
  assumes "unat size_kb \<le> 16384"
  shows "unat ((size_kb * 1024 + PAGE_SIZE - 1) div PAGE_SIZE) = (unat size_kb + 3) div 4"
proof -
  have kb: "unat (size_kb * 1024) = unat size_kb * 1024"
    using assms by (intro unat_mult_lem [THEN iffD1, of size_kb 1024, simplified]) simp
  have e: "size_kb * 1024 + PAGE_SIZE - 1 = size_kb * 1024 + 4095" by simp
  have "unat (size_kb * 1024 + PAGE_SIZE - 1) = unat size_kb * 1024 + 4095"
    unfolding e using assms kb unat_add_lem [THEN iffD1, of "size_kb * 1024" 4095] by simp
  then have "unat ((size_kb * 1024 + PAGE_SIZE - 1) div PAGE_SIZE) = (unat size_kb * 1024 + 4095) div 4096"
    by (simp add: unat_div_distrib)
  then show ?thesis by simp
qed

text \<open>A RAM disk that \<^verbatim>\<open>ramdisk_init\<close> returns keeps the contract and is zero; it is a run of frames that was free.\<close>

lemma ramdisk_init_good:
  assumes "pmm_inv (frames (rd_vm d))" "size_kb \<noteq> 0" "unat size_kb \<le> 16384" "ramdisk_init size_kb d = (Some dev, d')"
  obtains n where "dev = ramdisk_dev n" "ramdisk_good n d'" "unat n = 8 * ((unat size_kb + 3) div 4)"
    "pmm_inv (frames (rd_vm d'))" "\<And>b. b < n \<Longrightarrow> ramdisk_read b d' = Some (replicate 512 0)"
proof -
  define pages :: u32 where "pages = (size_kb * 1024 + PAGE_SIZE - 1) div PAGE_SIZE"
  obtain a p where ap: "alloc_pages pages (frames (rd_vm d)) = (a, p)" by fastforce
  note pages = ramdisk_pages [OF assms(3), folded pages_def]
  have "unat pages \<le> 4096" "0 < unat pages"
    using assms(2,3) pages by (auto simp: word_neq_0_conv word_less_nat_alt)
  then have size: "unat (pages * PAGE_SIZE) = 4096 * unat pages"
    using unat_mult_lem [THEN iffD1, of pages 4096] by simp
  have d': "a \<noteq> 0" "dev = ramdisk_dev (pages * PAGE_SIZE div 512)"
    "d' = d\<lparr>ramdisk_base := a, ramdisk_size := pages * PAGE_SIZE,
       rd_vm := rd_vm d\<lparr>frames := p, mem := memset a 0 (pages * PAGE_SIZE) (mem (rd_vm d))\<rparr>\<rparr>"
    using assms(4) [unfolded ramdisk_init_def Let_def, folded pages_def, unfolded ap prod.case]
    by (auto split: if_splits)
  let ?n = "pages * PAGE_SIZE div 512"
  have n: "unat ?n = 8 * unat pages" using size by (simp add: unat_div_distrib)
  have pnz: "pages \<noteq> 0" using \<open>0 < unat pages\<close> by auto
  note spec = alloc_pages_spec [OF assms(1) ap pnz]
  have run: "unat a mod 4096 = 0" "free_run (frames (rd_vm d)) (unat a div 4096) (unat pages)"
    using spec(2,3) d'(1) by blast+
  then have "unat a div 4096 + unat pages \<le> 4096" by (simp add: free_run_def)
  moreover have "unat a = 4096 * (unat a div 4096)" using run(1) by (metis mult_div_mod_eq add_0_right)
  ultimately have fits: "unat a + 4096 * unat pages \<le> 16777216" by linarith
  then have g: "ramdisk_good ?n d'" using d' n size by (simp add: ramdisk_good_def)
  have z: "ramdisk_read b d' = Some (replicate 512 0)" if "b < ?n" for b
  proof -
    have "mem (rd_vm d') (a + b * 512 + of_nat i) = 0" if "i < 512" for i
    proof -
      have "unat b < unat ?n" using \<open>b < ?n\<close> by (simp only: word_less_nat_alt)
      then have "unat b * 512 + i < 4096 * unat pages" using n that by linarith
      moreover have "unat (b * 512 + of_nat i) = unat b * 512 + i"
        using calculation \<open>unat pages \<le> 4096\<close> ramdisk_offset(1) [OF g \<open>b < ?n\<close>] that
        by (subst unat_add_lem [THEN iffD1]) (simp_all add: unat_of_nat_u32)
      ultimately show ?thesis using size by (simp add: d'(3) memset_apply add.assoc)
    qed
    then show ?thesis
      using ramdisk_read_mem [OF g \<open>b < ?n\<close>] d'(3) by (simp add: list_eq_iff_nth_eq)
  qed
  show ?thesis
    by (rule that [OF d'(2) g _ _ z]) (use n pages spec(1) d'(3) in simp_all)
qed

text \<open>The disk \<^verbatim>\<open>kernel_main\<close> would create right after boot.\<close>

definition boot_ramdisk :: ramdisk where
  "boot_ramdisk = \<lparr>ramdisk_base = 0, ramdisk_size = 0, rd_vm = boot_vm\<rparr>"

lemma boot_ramdisk_init:
  assumes "size_kb \<noteq> 0" "unat size_kb \<le> 13000"
  obtains n d where "ramdisk_init size_kb boot_ramdisk = (Some (ramdisk_dev n), d)" "ramdisk_good n d"
    "unat n = 8 * ((unat size_kb + 3) div 4)" "\<And>b. b < n \<Longrightarrow> ramdisk_read b d = Some (replicate 512 0)"
proof -
  define pages :: u32 where "pages = (size_kb * 1024 + PAGE_SIZE - 1) div PAGE_SIZE"
  have fr: "frames (rd_vm boot_ramdisk) = pmm_init" by (simp add: boot_ramdisk_def boot_vm_def)
  have "unat size_kb \<le> 16384" using assms(2) by simp
  note pg = ramdisk_pages [OF this, folded pages_def]
  have "0 < unat size_kb" using assms(1) by (simp add: word_neq_0_conv word_less_nat_alt)
  then have "0 < unat pages" "unat pages \<le> 3300" using pg assms(2) by auto
  then have run: "free_run pmm_init 513 (unat pages)" by (auto simp: free_run_def pmm_init_inv(2))
  obtain a p where ap: "alloc_pages pages pmm_init = (a, p)" by fastforce
  have "a \<noteq> 0"
  proof
    assume "a = 0"
    moreover have "pages \<noteq> 0" using \<open>0 < unat pages\<close> by auto
    ultimately have "free_run pmm_init 0 (unat pages)"
      using alloc_pages_spec(2) [OF pmm_init_inv(1) ap] run by auto
    then show False using \<open>0 < unat pages\<close> by (auto simp: free_run_def pmm_init_inv(2))
  qed
  then obtain dev d where i: "ramdisk_init size_kb boot_ramdisk = (Some dev, d)"
    unfolding ramdisk_init_def fr Let_def pages_def [symmetric] ap by simp
  have "unat size_kb \<le> 16384" using assms(2) by simp
  from ramdisk_init_good [OF _ assms(1) this i]
  show ?thesis using that i fr pmm_init_inv(1) by metis
qed

text \<open>(C38) The range check of the RAM disk wraps around: \<^verbatim>\<open>ramdisk_write\<close> of block 0x7FFFFF, far outside every disk,
  succeeds and overwrites the 512 bytes in front of the disk, and reading block 0x800000 reads block 0.\<close>

theorem ramdisk_range_check_wraps:
  assumes "ramdisk_good n d" "0 < n" "length x = 512"
  shows "(\<exists>d'. ramdisk_write 0x7FFFFF x d = Some d' \<and>
      (\<forall>i < 512. mem (rd_vm d') (ramdisk_base d - 512 + of_nat i) = x ! i)) \<and>
    ramdisk_read 0x800000 d = ramdisk_read 0 d"
proof
  have z: "(4294967296 :: u32) = 0" by simp
  have "unat (ramdisk_base d - 512 + of_nat i - (ramdisk_base d + 0xFFFFFE00)) = i" if "i < 512" for i
    using that by (simp add: unat_of_nat_u32 z)
  then show "\<exists>d'. ramdisk_write 0x7FFFFF x d = Some d' \<and>
      (\<forall>i < 512. mem (rd_vm d') (ramdisk_base d - 512 + of_nat i) = x ! i)"
    using assms(1) by (simp add: ramdisk_write_def ramdisk_good_def fold_write_apply z)
  have m: "(0x800000 :: u32) * 512 = 0 * 512" by simp
  show "ramdisk_read 0x800000 d = ramdisk_read 0 d" unfolding ramdisk_read_def m by (rule refl)
qed

theorem ramdisk_range_check_wraps_witness:
  "\<exists>n d d'. ramdisk_init 64 boot_ramdisk = (Some (ramdisk_dev n), d) \<and> n = 128 \<and>
     ramdisk_write 0x7FFFFF (replicate 512 7) d = Some d' \<and> mem (rd_vm d') (ramdisk_base d - 512) = 7"
proof -
  obtain n d where i: "ramdisk_init 64 boot_ramdisk = (Some (ramdisk_dev n), d)" and g: "ramdisk_good n d" "unat n = 128"
    by (rule boot_ramdisk_init [of 64]) simp_all
  have n: "n = 128" using g(2) by (simp add: word_unat_eq_iff)
  from ramdisk_range_check_wraps [OF g(1), of "replicate 512 7"] n
  obtain d' where d': "ramdisk_write 0x7FFFFF (replicate 512 7) d = Some d'"
    "\<forall>i < 512. mem (rd_vm d') (ramdisk_base d - 512 + of_nat i) = replicate 512 7 ! i"
    by auto
  have "mem (rd_vm d') (ramdisk_base d - 512) = 7" using d'(2) [rule_format, of 0] by simp
  with i n d'(1) show ?thesis by blast
qed

end
