(* ===== verification/Simplefs.thy ===== *)
theory Simplefs
  imports Block_Dev "HOL-Library.Monad_Syntax"
begin

text \<open>
  The file system of \<^verbatim>\<open>fs/simplefs.c\<close>: a superblock in block 0, a directory of 32 entries in blocks 1 and 2,
  and contiguous files from block 3 on.  The packed structures of \<^verbatim>\<open>simplefs.h\<close> are records with their
  byte images; the state is the mounted device with its contents, and the cached superblock.  The scratch buffer
  \<^verbatim>\<open>block_buf\<close> is filled before each use and is not part of the state.  Pointers that only receive a result are
  return values; a name or data pointer may be \<^verbatim>\<open>NULL\<close> (\<open>None\<close>).  An \<^verbatim>\<open>int\<close> result is 0 or -1.
\<close>

section \<open>Layout\<close>

abbreviation FS_MAGIC :: u32 where "FS_MAGIC \<equiv> 0x41504653"
abbreviation FS_VERSION :: u32 where "FS_VERSION \<equiv> 1"
abbreviation FS_NAME_MAX :: nat where "FS_NAME_MAX \<equiv> 23"
abbreviation FS_DIR_BLOCKS :: u32 where "FS_DIR_BLOCKS \<equiv> 2"
abbreviation FS_ENTRIES_PER_BLOCK :: nat where "FS_ENTRIES_PER_BLOCK \<equiv> 16"
abbreviation FS_MAX_ENTRIES :: nat where "FS_MAX_ENTRIES \<equiv> 32"
abbreviation FS_TYPE_FREE :: u8 where "FS_TYPE_FREE \<equiv> 0"
abbreviation FS_TYPE_FILE :: u8 where "FS_TYPE_FILE \<equiv> 1"
abbreviation FS_TYPE_DIR :: u8 where "FS_TYPE_DIR \<equiv> 2"

record fs_superblock_t =
  sb_magic :: u32
  sb_version :: u32
  sb_total_blocks :: u32
  sb_free_blocks :: u32
  sb_dir_start_block :: u32
  sb_dir_block_count :: u32
  sb_data_start_block :: u32
  sb_first_free_block :: u32
  sb_reserved :: "u8 list"

record fs_entry_t =
  e_name :: string
  e_type :: u8
  e_reserved :: u8
  e_start_block :: u16
  e_size :: u32

text \<open>The little-endian byte images of the packed structures.\<close>

definition u32_bytes :: "u32 \<Rightarrow> u8 list" where
  "u32_bytes v = [ucast v, ucast (drop_bit 8 v), ucast (drop_bit 16 v), ucast (drop_bit 24 v)]"

definition u16_bytes :: "u16 \<Rightarrow> u8 list" where
  "u16_bytes v = [ucast v, ucast (drop_bit 8 v)]"

definition u32_at :: "nat \<Rightarrow> u8 list \<Rightarrow> u32" where
  "u32_at i bs = ucast (bs ! i) OR push_bit 8 (ucast (bs ! (i + 1))) OR
     push_bit 16 (ucast (bs ! (i + 2))) OR push_bit 24 (ucast (bs ! (i + 3)))"

definition u16_at :: "nat \<Rightarrow> u8 list \<Rightarrow> u16" where
  "u16_at i bs = ucast (bs ! i) OR push_bit 8 (ucast (bs ! (i + 1)))"

definition bytes_of_superblock :: "fs_superblock_t \<Rightarrow> u8 list" where
  "bytes_of_superblock sb =
     concat (map u32_bytes [sb_magic sb, sb_version sb, sb_total_blocks sb, sb_free_blocks sb, sb_dir_start_block sb,
       sb_dir_block_count sb, sb_data_start_block sb, sb_first_free_block sb]) @ sb_reserved sb"

definition superblock_of_bytes :: "u8 list \<Rightarrow> fs_superblock_t" where
  "superblock_of_bytes bs =
     \<lparr>sb_magic = u32_at 0 bs, sb_version = u32_at 4 bs, sb_total_blocks = u32_at 8 bs, sb_free_blocks = u32_at 12 bs,
      sb_dir_start_block = u32_at 16 bs, sb_dir_block_count = u32_at 20 bs, sb_data_start_block = u32_at 24 bs,
      sb_first_free_block = u32_at 28 bs, sb_reserved = drop 32 bs\<rparr>"

definition bytes_of_entry :: "fs_entry_t \<Rightarrow> u8 list" where
  "bytes_of_entry e =
     map of_char (e_name e) @ [e_type e, e_reserved e] @ u16_bytes (e_start_block e) @ u32_bytes (e_size e)"

definition entry_of_bytes :: "u8 list \<Rightarrow> fs_entry_t" where
  "entry_of_bytes bs =
     \<lparr>e_name = map (\<lambda>b. char_of (unat b)) (take 24 bs), e_type = bs ! 24, e_reserved = bs ! 25,
      e_start_block = u16_at 26 bs, e_size = u32_at 28 bs\<rparr>"

section \<open>State and internal helpers\<close>

record 'd fs =
  fs_dev :: "'d block_device_t option"
  superblock :: fs_superblock_t
  disk :: 'd

text \<open>The helpers run with the device mounted; they take it, the cached superblock and the contents.\<close>

definition fs_flush_superblock :: "'d block_device_t \<Rightarrow> fs_superblock_t \<Rightarrow> 'd \<Rightarrow> 'd option" where
  "fs_flush_superblock dev sb d = dev_write dev 0 (bytes_of_superblock sb) d"

definition fs_read_entry :: "'d block_device_t \<Rightarrow> fs_superblock_t \<Rightarrow> nat \<Rightarrow> 'd \<Rightarrow> fs_entry_t option" where
  "fs_read_entry dev sb index d =
     (if index \<ge> FS_MAX_ENTRIES then None
      else let block = sb_dir_start_block sb + of_nat (index div FS_ENTRIES_PER_BLOCK);
               offset = (index mod FS_ENTRIES_PER_BLOCK) * 32
           in map_option (\<lambda>buf. entry_of_bytes (take 32 (drop offset buf))) (dev_read dev block d))"

definition fs_write_entry :: "'d block_device_t \<Rightarrow> fs_superblock_t \<Rightarrow> nat \<Rightarrow> fs_entry_t \<Rightarrow> 'd \<Rightarrow> 'd option" where
  "fs_write_entry dev sb index e d =
     (if index \<ge> FS_MAX_ENTRIES then None
      else let block = sb_dir_start_block sb + of_nat (index div FS_ENTRIES_PER_BLOCK);
               offset = (index mod FS_ENTRIES_PER_BLOCK) * 32
           in dev_read dev block d \<bind>
              (\<lambda>buf. dev_write dev block (take offset buf @ bytes_of_entry e @ drop (offset + 32) buf) d))"

definition fs_find_entry :: "'d block_device_t \<Rightarrow> fs_superblock_t \<Rightarrow> string \<Rightarrow> 'd \<Rightarrow> (fs_entry_t \<times> nat) option" where
  "fs_find_entry dev sb name d =
     first_some (\<lambda>i. case fs_read_entry dev sb i d of
         None \<Rightarrow> None
       | Some e \<Rightarrow> if e_type e \<noteq> FS_TYPE_FREE \<and> strcmp (e_name e) name = Some 0 then Some (e, i) else None)
       [0..<FS_MAX_ENTRIES]"

definition fs_find_free_slot :: "'d block_device_t \<Rightarrow> fs_superblock_t \<Rightarrow> 'd \<Rightarrow> nat" where
  "fs_find_free_slot dev sb d =
     (case first_some (\<lambda>i. case fs_read_entry dev sb i d of
          None \<Rightarrow> None
        | Some e \<Rightarrow> if e_type e = FS_TYPE_FREE then Some i else None) [0..<FS_MAX_ENTRIES]
      of Some i \<Rightarrow> i | None \<Rightarrow> FS_MAX_ENTRIES)"

text \<open>The number of blocks of a file, \<^verbatim>\<open>(size + BLOCK_SIZE - 1) / BLOCK_SIZE\<close>.\<close>

definition blocks_for :: "u32 \<Rightarrow> u32" where
  "blocks_for sz = (sz + BLOCK_SIZE - 1) div BLOCK_SIZE"

text \<open>The 128 bytes of \<^verbatim>\<open>used\<close> are 1024 flags, one per data block.\<close>

definition mark_file :: "u32 \<Rightarrow> fs_entry_t \<Rightarrow> bool list \<Rightarrow> bool list" where
  "mark_file data_blocks e marks =
     fold (\<lambda>b marks. let blk = ucast (e_start_block e) + of_nat b :: u32
                    in if unat blk div 8 < 128 then marks[unat blk := True] else marks)
       (takeWhile (\<lambda>b. ucast (e_start_block e) + of_nat b < data_blocks) [0..<unat (blocks_for (e_size e))]) marks"

definition used_map :: "'d block_device_t \<Rightarrow> fs_superblock_t \<Rightarrow> u32 \<Rightarrow> 'd \<Rightarrow> bool list" where
  "used_map dev sb data_blocks d =
     fold (\<lambda>i marks. case fs_read_entry dev sb i d of
         None \<Rightarrow> marks
       | Some e \<Rightarrow> if e_type e = FS_TYPE_FREE then marks
                   else if e_type e = FS_TYPE_DIR then marks
                   else mark_file data_blocks e marks)
       [0..<FS_MAX_ENTRIES] (replicate 1024 False)"

fun find_gap :: "bool list \<Rightarrow> u32 \<Rightarrow> nat list \<Rightarrow> u32 \<Rightarrow> u32 \<Rightarrow> u32" where
  "find_gap marks count [] start consecutive = 0xFFFFFFFF"
| "find_gap marks count (b # bs) start consecutive =
     (if \<not> marks ! b then
        let start = (if consecutive = 0 then of_nat b else start);
            consecutive = consecutive + 1
        in if consecutive = count then start else find_gap marks count bs start consecutive
      else find_gap marks count bs start 0)"

definition fs_alloc_blocks :: "'d block_device_t \<Rightarrow> fs_superblock_t \<Rightarrow> u32 \<Rightarrow> 'd \<Rightarrow> u32" where
  "fs_alloc_blocks dev sb count d =
     (if count = 0 then 0xFFFFFFFF
      else if count > sb_free_blocks sb then 0xFFFFFFFF
      else let data_blocks = sb_total_blocks sb - sb_data_start_block sb;
               marks = used_map dev sb data_blocks d
           in find_gap marks count (takeWhile (\<lambda>b. b div 8 < 128) [0..<unat data_blocks]) 0 0)"

text \<open>The result is the status of \<^verbatim>\<open>fs_format\<close>, and the state after it on every path.\<close>

definition fs_format :: "'d block_device_t \<Rightarrow> 'd fs \<Rightarrow> int \<times> 'd fs" where
  "fs_format dev s =
     (let total = total_blocks dev;
          sb = \<lparr>sb_magic = FS_MAGIC, sb_version = FS_VERSION, sb_total_blocks = total,
                sb_free_blocks = total - (1 + FS_DIR_BLOCKS), sb_dir_start_block = 1, sb_dir_block_count = FS_DIR_BLOCKS,
                sb_data_start_block = 1 + FS_DIR_BLOCKS, sb_first_free_block = 0, sb_reserved = replicate 480 0\<rparr>;
          s = s\<lparr>superblock := sb\<rparr>
      in case fs_flush_superblock dev sb (disk s) of
           None \<Rightarrow> (-1, s)
         | Some d \<Rightarrow>
             case dev_write dev (sb_dir_start_block sb) (replicate 512 0) d of
               None \<Rightarrow> (-1, s\<lparr>disk := d\<rparr>)
             | Some d \<Rightarrow>
                 case dev_write dev (sb_dir_start_block sb + 1) (replicate 512 0) d of
                   None \<Rightarrow> (-1, s\<lparr>disk := d\<rparr>)
                 | Some d \<Rightarrow> (0, s\<lparr>disk := d\<rparr>))"

section \<open>Public operations\<close>

definition fs_init :: "'d block_device_t option \<Rightarrow> 'd fs \<Rightarrow> int \<times> 'd fs" where
  "fs_init dev s =
     (case dev of
        None \<Rightarrow> (-1, s)
      | Some dv \<Rightarrow>
          let s = s\<lparr>fs_dev := Some dv\<rparr>
          in case dev_read dv 0 (disk s) of
               None \<Rightarrow> fs_format dv s
             | Some buf \<Rightarrow>
                 let s = s\<lparr>superblock := superblock_of_bytes buf\<rparr>
                 in if sb_magic (superblock s) \<noteq> FS_MAGIC then fs_format dv s else (0, s))"

definition free_entry :: fs_entry_t where
  "free_entry = \<lparr>e_name = replicate 24 NUL, e_type = FS_TYPE_FREE, e_reserved = 0, e_start_block = 0, e_size = 0\<rparr>"

definition new_entry :: "string \<Rightarrow> u8 \<Rightarrow> fs_entry_t option" where
  "new_entry name type =
     map_option (\<lambda>n. free_entry\<lparr>e_name := n[FS_NAME_MAX := NUL], e_type := type\<rparr>)
       (strncpy (e_name free_entry) name FS_NAME_MAX)"

text \<open>The outer \<open>None\<close> is a name that is not a C string.\<close>

definition fs_create :: "string option \<Rightarrow> u8 \<Rightarrow> 'd fs \<Rightarrow> (int \<times> 'd fs) option" where
  "fs_create name type s =
     (case (fs_dev s, name) of
        (Some dev, Some name) \<Rightarrow> do {
          len \<leftarrow> strlen name;
          if len = 0 \<or> unat len > FS_NAME_MAX then Some (-1, s)
          else if type \<noteq> FS_TYPE_FILE \<and> type \<noteq> FS_TYPE_DIR then Some (-1, s)
          else if fs_find_entry dev (superblock s) name (disk s) \<noteq> None then Some (-1, s)
          else let slot = fs_find_free_slot dev (superblock s) (disk s)
               in if slot \<ge> FS_MAX_ENTRIES then Some (-1, s)
                  else do {
                    e \<leftarrow> new_entry name type;
                    Some (case fs_write_entry dev (superblock s) slot e (disk s) of
                            None \<Rightarrow> (-1, s)
                          | Some d \<Rightarrow> (0, s\<lparr>disk := d\<rparr>))
                  }
        }
      | _ \<Rightarrow> Some (-1, s))"

text \<open>The loop that writes the data blocks: whether all writes succeeded, and the device.\<close>

fun write_blocks :: "'d block_device_t \<Rightarrow> u32 \<Rightarrow> nat \<Rightarrow> u8 list \<Rightarrow> u32 \<Rightarrow> 'd \<Rightarrow> bool \<times> 'd" where
  "write_blocks dev abs_block 0 src remaining d = (True, d)"
| "write_blocks dev abs_block (Suc k) src remaining d =
     (let chunk = (if remaining > BLOCK_SIZE then BLOCK_SIZE else remaining);
          buf = (if chunk < BLOCK_SIZE then take (unat chunk) src @ replicate (512 - unat chunk) 0 else take 512 src)
      in case dev_write dev abs_block buf d of
           None \<Rightarrow> (False, d)
         | Some d \<Rightarrow> write_blocks dev (abs_block + 1) k (drop (unat chunk) src) (remaining - chunk) d)"

definition total_used :: "'d block_device_t \<Rightarrow> fs_superblock_t \<Rightarrow> 'd \<Rightarrow> u32" where
  "total_used dev sb d =
     fold (\<lambda>i n. case fs_read_entry dev sb i d of
         None \<Rightarrow> n
       | Some e \<Rightarrow> if e_type e = FS_TYPE_FILE \<and> e_size e > 0 then n + blocks_for (e_size e) else n)
       [0..<FS_MAX_ENTRIES] 0"

text \<open>\<^verbatim>\<open>fs_flush_superblock();\<close> with its status ignored.\<close>

definition flush_ignored :: "'d block_device_t \<Rightarrow> 'd fs \<Rightarrow> 'd fs" where
  "flush_ignored dev s =
     (case fs_flush_superblock dev (superblock s) (disk s) of Some d \<Rightarrow> s\<lparr>disk := d\<rparr> | None \<Rightarrow> s)"

definition fs_write_file :: "string option \<Rightarrow> u8 list option \<Rightarrow> u32 \<Rightarrow> 'd fs \<Rightarrow> int \<times> 'd fs" where
  "fs_write_file name data sz s =
     (case (fs_dev s, name, data) of
        (Some dev, Some name, Some src) \<Rightarrow>
          (let sb = superblock s
           in case fs_find_entry dev sb name (disk s) of
                None \<Rightarrow> (-1, s)
              | Some (e, index) \<Rightarrow>
                  if e_type e \<noteq> FS_TYPE_FILE then (-1, s)
                  else
                    let blocks_needed = blocks_for sz;
                        start_block = (if blocks_needed > 0 then fs_alloc_blocks dev sb blocks_needed (disk s) else 0)
                    in if start_block = 0xFFFFFFFF then (-1, s)
                       else
                         case write_blocks dev (sb_data_start_block sb + start_block) (unat blocks_needed) src sz (disk s) of
                           (False, d) \<Rightarrow> (-1, s\<lparr>disk := d\<rparr>)
                         | (True, d) \<Rightarrow>
                             case fs_write_entry dev sb index (e\<lparr>e_start_block := ucast start_block, e_size := sz\<rparr>) d of
                               None \<Rightarrow> (-1, s\<lparr>disk := d\<rparr>)
                             | Some d \<Rightarrow>
                                 let total_used = total_used dev sb d;
                                     data_total = sb_total_blocks sb - sb_data_start_block sb;
                                     free = (if data_total > total_used then data_total - total_used else 0)
                                 in (0, flush_ignored dev (s\<lparr>superblock := sb\<lparr>sb_free_blocks := free\<rparr>, disk := d\<rparr>)))
      | _ \<Rightarrow> (-1, s))"

text \<open>The read loop: whether all reads succeeded, and the bytes stored in the buffer.\<close>

fun read_blocks :: "'d block_device_t \<Rightarrow> u32 \<Rightarrow> nat \<Rightarrow> u32 \<Rightarrow> 'd \<Rightarrow> bool \<times> u8 list" where
  "read_blocks dev abs_block 0 remaining d = (True, [])"
| "read_blocks dev abs_block (Suc k) remaining d =
     (case dev_read dev abs_block d of
        None \<Rightarrow> (False, [])
      | Some buf \<Rightarrow>
          let chunk = (if remaining > BLOCK_SIZE then BLOCK_SIZE else remaining);
              (ok, rest) = read_blocks dev (abs_block + 1) k (remaining - chunk) d
          in (ok, take (unat chunk) buf @ rest))"

definition fs_read_file :: "string option \<Rightarrow> u32 \<Rightarrow> 'd fs \<Rightarrow> int \<times> u8 list" where
  "fs_read_file name max_size s =
     (case (fs_dev s, name) of
        (Some dev, Some name) \<Rightarrow>
          (case fs_find_entry dev (superblock s) name (disk s) of
             None \<Rightarrow> (-1, [])
           | Some (e, _) \<Rightarrow>
               if e_type e \<noteq> FS_TYPE_FILE then (-1, [])
               else
                 let to_read = (if e_size e > max_size then max_size else e_size e);
                     (ok, bytes) = read_blocks dev (sb_data_start_block (superblock s) + ucast (e_start_block e))
                                     (unat (blocks_for to_read)) to_read (disk s)
                 in (if ok then sint to_read else -1, bytes))
      | _ \<Rightarrow> (-1, []))"

text \<open>One slot of the loop of \<^verbatim>\<open>fs_delete\<close> over a directory's children; the status of its write is ignored.\<close>

definition is_child :: "string \<Rightarrow> nat \<Rightarrow> fs_entry_t \<Rightarrow> bool" where
  "is_child name prefix_len child \<longleftrightarrow>
     strncmp (e_name child) name prefix_len = Some 0 \<and> e_name child ! prefix_len = CHR ''/''"

definition file_blocks :: "fs_entry_t \<Rightarrow> u32" where
  "file_blocks e = (if e_type e = FS_TYPE_FILE \<and> e_size e > 0 then blocks_for (e_size e) else 0)"

definition delete_child ::
  "'d block_device_t \<Rightarrow> fs_superblock_t \<Rightarrow> string \<Rightarrow> nat \<Rightarrow> nat \<Rightarrow> u32 \<times> 'd \<Rightarrow> u32 \<times> 'd" where
  "delete_child dev sb name prefix_len i = (\<lambda>(freed, d).
     case fs_read_entry dev sb i d of
       None \<Rightarrow> (freed, d)
     | Some child \<Rightarrow>
         if e_type child = FS_TYPE_FREE then (freed, d)
         else if is_child name prefix_len child then
           (freed + file_blocks child, case fs_write_entry dev sb i free_entry d of Some d \<Rightarrow> d | None \<Rightarrow> d)
         else (freed, d))"

definition fs_delete :: "string option \<Rightarrow> 'd fs \<Rightarrow> (int \<times> 'd fs) option" where
  "fs_delete name s =
     (case (fs_dev s, name) of
        (Some dev, Some name) \<Rightarrow>
          (let sb = superblock s
           in case fs_find_entry dev sb name (disk s) of
                None \<Rightarrow> Some (-1, s)
              | Some (e, index) \<Rightarrow> do {
                  (freed, d) \<leftarrow>
                    if e_type e = FS_TYPE_DIR then do {
                      prefix_len \<leftarrow> strlen name;
                      Some (fold (delete_child dev sb name (unat prefix_len)) [0..<FS_MAX_ENTRIES] (file_blocks e, disk s))
                    }
                    else Some (file_blocks e, disk s);
                  Some (case fs_write_entry dev sb index free_entry d of
                          None \<Rightarrow> (-1, s\<lparr>disk := d\<rparr>)
                        | Some d \<Rightarrow> (0, flush_ignored dev (s\<lparr>superblock := sb\<lparr>sb_free_blocks := sb_free_blocks sb + freed\<rparr>,
                                                       disk := d\<rparr>)))
                })
      | _ \<Rightarrow> Some (-1, s))"

definition fs_list :: "u32 \<Rightarrow> 'd fs \<Rightarrow> fs_entry_t list" where
  "fs_list mx s =
     (case fs_dev s of
        None \<Rightarrow> []
      | Some dev \<Rightarrow>
          take (unat mx) (filter (\<lambda>e. e_type e \<noteq> FS_TYPE_FREE)
            (List.map_filter (\<lambda>i. fs_read_entry dev (superblock s) i (disk s)) [0..<FS_MAX_ENTRIES])))"

definition fs_stat :: "string option \<Rightarrow> 'd fs \<Rightarrow> fs_entry_t option" where
  "fs_stat name s =
     (case (fs_dev s, name) of
        (Some dev, Some name) \<Rightarrow> map_option fst (fs_find_entry dev (superblock s) name (disk s))
      | _ \<Rightarrow> None)"

end
