(* ===== verification/Fs_Layout.thy ===== *)
theory Fs_Layout
  imports Simplefs
begin

text \<open>
  The on-disk layout of the file system: the byte images of superblock and entries decode to what was encoded,
  and reading and writing directory entries on a device is reading and updating a list of 32 entries.
\<close>

section \<open>Byte images\<close>

lemma u32_at_eqI:
  assumes "bs ! i = ucast v" "bs ! (i + 1) = ucast (drop_bit 8 v)" "bs ! (i + 2) = ucast (drop_bit 16 v)"
    "bs ! (i + 3) = ucast (drop_bit 24 v)"
  shows "u32_at i bs = v"
proof (rule bit_word_eqI)
  fix n assume "n < LENGTH(32)"
  then consider "n < 8" | "8 \<le> n" "n < 16" | "16 \<le> n" "n < 24" | "24 \<le> n" "n < 32" by fastforce
  then show "bit (u32_at i bs) n = bit v n"
    unfolding u32_at_def assms by cases (auto simp: bit_simps)
qed

lemma u16_at_eqI:
  assumes "bs ! i = ucast v" "bs ! (i + 1) = ucast (drop_bit 8 v)"
  shows "u16_at i bs = v"
proof (rule bit_word_eqI)
  fix n assume "n < LENGTH(16)"
  then consider "n < 8" | "8 \<le> n" "n < 16" by fastforce
  then show "bit (u16_at i bs) n = bit v n"
    unfolding u16_at_def assms by cases (auto simp: bit_simps)
qed

lemma char_byte [simp]: "char_of (unat (of_char c :: u8)) = c"
proof -
  have "(of_char c :: u8) = of_nat (of_char c)" by (cases c) (simp add: of_char_def)
  moreover have "unat (of_nat (of_char c) :: u8) = of_char c"
    using nat_of_char_less_256 [of c] by (simp add: unat_of_nat)
  ultimately show ?thesis by simp
qed

lemma length_superblock: "length (sb_reserved sb) = 480 \<Longrightarrow> length (bytes_of_superblock sb) = 512"
  by (simp add: bytes_of_superblock_def u32_bytes_def)

lemma superblock_roundtrip: "superblock_of_bytes (bytes_of_superblock sb) = sb"
  by (simp add: superblock_of_bytes_def bytes_of_superblock_def u32_bytes_def u32_at_eqI)

lemma length_entry: "length (e_name e) = 24 \<Longrightarrow> length (bytes_of_entry e) = 32"
  by (simp add: bytes_of_entry_def u32_bytes_def u16_bytes_def)

lemma entry_roundtrip:
  assumes "length (e_name e) = 24"
  shows "entry_of_bytes (bytes_of_entry e) = e"
proof -
  have "bytes_of_entry e ! (24 + k) = ([e_type e, e_reserved e] @ u16_bytes (e_start_block e) @ u32_bytes (e_size e)) ! k" for k
    using assms by (simp add: bytes_of_entry_def nth_append)
  from this [of 0] this [of 1] this [of 2] this [of 3] this [of 4] this [of 5] this [of 6] this [of 7]
  have "bytes_of_entry e ! 24 = e_type e" "bytes_of_entry e ! 25 = e_reserved e"
    "u16_at 26 (bytes_of_entry e) = e_start_block e" "u32_at 28 (bytes_of_entry e) = e_size e"
    by (simp_all add: u16_bytes_def u32_bytes_def u32_at_eqI u16_at_eqI)
  moreover have "take 24 (bytes_of_entry e) = map of_char (e_name e)"
    using assms by (simp add: bytes_of_entry_def)
  ultimately show ?thesis by (simp add: entry_of_bytes_def comp_def)
qed

section \<open>The directory\<close>

definition slot :: "u8 list \<Rightarrow> nat \<Rightarrow> u8 list" where
  "slot buf k = take 32 (drop (k * 32) buf)"

definition dir :: "'d block_device_t \<Rightarrow> 'd \<Rightarrow> fs_entry_t list" where
  "dir dev d = map (\<lambda>i. entry_of_bytes (slot (blk dev d (1 + i div 16)) (i mod 16))) [0..<32]"

lemma length_dir [simp]: "length (dir dev d) = 32"
  by (simp add: dir_def)

lemma nth_dir: "i < 32 \<Longrightarrow> dir dev d ! i = entry_of_bytes (slot (blk dev d (1 + i div 16)) (i mod 16))"
  by (simp add: dir_def)

lemma dir_cong: "blk dev d 1 = blk dev d' 1 \<Longrightarrow> blk dev d 2 = blk dev d' 2 \<Longrightarrow> dir dev d = dir dev d'"
proof -
  assume a: "blk dev d 1 = blk dev d' 1" "blk dev d 2 = blk dev d' 2"
  have "blk dev d (1 + i div 16) = blk dev d' (1 + i div 16)" if "i < 32" for i
  proof -
    have "i div 16 = 0 \<or> i div 16 = 1" using that by linarith
    then show ?thesis using a by (auto simp: numeral_2_eq_2)
  qed
  then show "dir dev d = dir dev d'" by (simp add: dir_def)
qed

text \<open>Overwriting one slot of a block leaves the other slots as they are.\<close>

lemma slot_splice:
  assumes "length buf = 512" "length x = 32" "j < 16" "k < 16"
  shows "slot (take (j * 32) buf @ x @ drop (j * 32 + 32) buf) k = (if k = j then x else slot buf k)"
proof (cases k j rule: linorder_cases)
  case less
  then have "k * 32 + 32 \<le> j * 32" by simp
  then show ?thesis using assms less
    by (auto simp: slot_def list_eq_iff_nth_eq nth_append)
next
  case equal
  then show ?thesis using assms by (auto simp: slot_def)
next
  case greater
  then have "j * 32 + 32 \<le> k * 32" by simp
  then show ?thesis using assms greater
    by (auto simp: slot_def list_eq_iff_nth_eq nth_append)
qed

context block_device
begin

lemma read_entry:
  assumes "good d" "3 \<le> nblocks" "sb_dir_start_block sb = 1" "i < 32"
  shows "fs_read_entry dev sb i d = Some (dir dev d ! i)"
proof -
  have "sb_dir_start_block sb + of_nat (i div 16) = of_nat (1 + i div 16)" using assms(3) by simp
  moreover have "1 + i div 16 < nblocks" using assms(2,4) by linarith
  ultimately show ?thesis
    using read_blk(1) [OF assms(1)] assms(4) by (simp add: fs_read_entry_def nth_dir slot_def del: of_nat_Suc)
qed

lemma write_entry:
  assumes "good d" "3 \<le> nblocks" "sb_dir_start_block sb = 1" "i < 32" "length (e_name e) = 24"
  obtains d' where "fs_write_entry dev sb i e d = Some d'" "good d'" "dir dev d' = (dir dev d)[i := e]"
    "\<And>c. c < nblocks \<Longrightarrow> c \<noteq> 1 \<Longrightarrow> c \<noteq> 2 \<Longrightarrow> blk dev d' c = blk dev d c"
proof -
  let ?b = "1 + i div 16" and ?o = "i mod 16 * 32"
  have b: "sb_dir_start_block sb + of_nat (i div 16) = of_nat ?b" "?b < nblocks" "i div 16 < 2"
    using assms by simp_all
  let ?x = "take ?o (blk dev d ?b) @ bytes_of_entry e @ drop (?o + 32) (blk dev d ?b)"
  have len: "length (blk dev d ?b) = 512" by (rule read_blk(2) [OF assms(1) b(2)])
  have "i mod 16 < 16" by simp
  then have "length ?x = 512" using len length_entry [OF assms(5)] by simp
  from write_blk [OF assms(1) b(2) this] obtain d' where
    d': "dev_write dev (of_nat ?b) ?x d = Some d'" "good d'" "\<And>c. c < nblocks \<Longrightarrow> blk dev d' c = (if c = ?b then ?x else blk dev d c)"
    by blast
  show ?thesis
  proof (rule that [OF _ d'(2)])
    show "fs_write_entry dev sb i e d = Some d'"
      using assms(4) read_blk(1) [OF assms(1) b(2)] d'(1) b(1) by (simp add: fs_write_entry_def del: of_nat_Suc)
    show "blk dev d' c = blk dev d c" if "c < nblocks" "c \<noteq> 1" "c \<noteq> 2" for c
    proof -
      have "i div 16 = 0 \<or> i div 16 = 1" using b(3) by linarith
      with that d'(3) show ?thesis by auto
    qed
    show "dir dev d' = (dir dev d)[i := e]"
    proof (rule nth_equalityI)
      fix j assume "j < length (dir dev d')"
      then have j: "j < 32" by simp
      then have jb: "1 + j div 16 < nblocks" using assms(2) by linarith
      show "dir dev d' ! j = (dir dev d)[i := e] ! j"
      proof (cases "j div 16 = i div 16")
        case True
        then have "j mod 16 = i mod 16 \<longleftrightarrow> j = i" by (metis div_mult_mod_eq)
        then show ?thesis
          using True j assms(4,5) d'(3) [OF jb] slot_splice [OF len length_entry [OF assms(5)], of "i mod 16" "j mod 16"]
          by (auto simp: nth_dir nth_list_update entry_roundtrip)
      next
        case False
        then show ?thesis using j assms(4) d'(3) [OF jb] by (auto simp: nth_dir nth_list_update)
      qed
    qed simp
  qed
qed

end

end
