(* ===== verification/Fs_Alloc.thy ===== *)
theory Fs_Alloc
  imports Fs_Layout
begin

text \<open>
  Block allocation and the transfer of file contents: \<^verbatim>\<open>fs_alloc_blocks\<close> is first fit over the data blocks that no
  file occupies, and the write and read loops store and fetch exactly the bytes of a file.
\<close>

section \<open>Files as ranges of blocks\<close>

definition fblocks :: "u32 \<Rightarrow> nat" where
  "fblocks sz = (unat sz + 511) div 512"

definition region :: "fs_entry_t \<Rightarrow> nat set" where
  "region e = {unat (e_start_block e)..<unat (e_start_block e) + fblocks (e_size e)}"

definition is_file :: "fs_entry_t \<Rightarrow> bool" where
  "is_file e \<longleftrightarrow> e_type e = FS_TYPE_FILE"

definition taken :: "fs_entry_t list \<Rightarrow> nat set" where
  "taken es = (\<Union>e \<in> {e \<in> set es. is_file e}. region e)"

text \<open>The data blocks the allocator can hand out: at most the 1024 that its map covers.\<close>

definition pool :: "u32 \<Rightarrow> nat" where
  "pool data_blocks = min (unat data_blocks) 1024"

definition placed :: "u32 \<Rightarrow> fs_entry_t \<Rightarrow> bool" where
  "placed data_blocks e \<longleftrightarrow>
     e_type e \<in> {FS_TYPE_FREE, FS_TYPE_FILE, FS_TYPE_DIR} \<and> (is_file e \<longrightarrow> region e \<subseteq> {..<pool data_blocks} \<and> fblocks (e_size e) \<le> 1024)"

lemma unat_ucast_u16 [simp]: "unat (ucast (w :: u16) :: u32) = unat w"
proof -
  have "unat w < 65536" using unsigned_less [of w, where 'a = nat] by simp
  then show ?thesis by (simp add: unsigned_ucast_eq take_bit_nat_eq_self)
qed

lemma unat_blocks_for:
  assumes "fblocks sz \<le> 1024"
  shows "unat (blocks_for sz) = fblocks sz"
proof -
  have "unat sz \<le> 1024 * 512" using assms unfolding fblocks_def by linarith
  moreover have e: "sz + BLOCK_SIZE - 1 = sz + 511" by simp
  ultimately have "unat (sz + BLOCK_SIZE - 1) = unat sz + 511"
    unfolding e using unat_add_lem [THEN iffD1, of sz 511] by simp
  then show ?thesis by (simp add: blocks_for_def fblocks_def unat_div_distrib)
qed

lemma fold_mark:
  "s + n \<le> length xs \<Longrightarrow> fold (\<lambda>b xs. xs[s + b := True]) [0..<n] xs =
     map (\<lambda>b. xs ! b \<or> b \<in> {s..<s + n}) [0..<length xs]"
proof (induction n)
  case 0
  then show ?case by (simp add: map_nth)
next
  case (Suc n)
  then have "fold (\<lambda>b xs. xs[s + b := True]) [0..<Suc n] xs =
      (map (\<lambda>b. xs ! b \<or> b \<in> {s..<s + n}) [0..<length xs])[s + n := True]" by simp
  also have "\<dots> = map (\<lambda>b. xs ! b \<or> b \<in> {s..<s + Suc n}) [0..<length xs]"
    using Suc.prems by (intro nth_equalityI) (auto simp: nth_list_update)
  finally show ?case .
qed

lemma mark_file:
  assumes "placed db e" "is_file e" "length xs = 1024"
  shows "mark_file db e xs = map (\<lambda>b. xs ! b \<or> b \<in> region e) [0..<1024]"
proof -
  let ?s = "unat (e_start_block e)" and ?n = "fblocks (e_size e)"
  have n: "?n \<le> 1024" using assms by (simp add: placed_def)
  have s: "?s + b < pool db" if "b < ?n" for b
  proof -
    have "?s + b \<in> region e" using that by (simp add: region_def)
    with assms(1,2) show ?thesis by (auto simp: placed_def)
  qed
  have u: "unat (ucast (e_start_block e) + of_nat b :: u32) = ?s + b" if "b < ?n" for b
  proof -
    have "unat (of_nat b :: u32) = b" using that n by (simp add: unat_of_nat_u32)
    moreover have "?s + b < 4294967296" using s [OF that] by (simp add: pool_def)
    ultimately show ?thesis using unat_add_lem [THEN iffD1, of "ucast (e_start_block e) :: u32" "of_nat b"] by simp
  qed
  have "takeWhile (\<lambda>b. ucast (e_start_block e) + of_nat b < db) [0..<?n] = [0..<?n]"
    using s u by (auto simp: takeWhile_eq_all_conv word_less_nat_alt pool_def)
  then have "mark_file db e xs = fold (\<lambda>b marks. let blk = ucast (e_start_block e) + of_nat b :: u32
                    in if unat blk div 8 < 128 then marks[unat blk := True] else marks) [0..<?n] xs"
    unfolding mark_file_def unat_blocks_for [OF n] by (rule arg_cong)
  also have "\<dots> = fold (\<lambda>b xs. xs[?s + b := True]) [0..<?n] xs"
  proof (rule fold_cong)
    fix b assume "b \<in> set [0..<?n]"
    then have "b < ?n" by simp
    moreover have "(?s + b) div 8 < 128" using s [OF calculation] by (simp add: pool_def less_mult_imp_div_less)
    ultimately show "(\<lambda>marks. let blk = ucast (e_start_block e) + of_nat b :: u32
        in if unat blk div 8 < 128 then marks[unat blk := True] else marks) = (\<lambda>xs. xs[?s + b := True])"
      using u by (simp add: Let_def)
  qed simp_all
  also have "\<dots> = map (\<lambda>b. xs ! b \<or> b \<in> {?s..<?s + ?n}) [0..<length xs]"
  proof (cases "?n = 0")
    case True
    then show ?thesis by (simp add: map_nth)
  next
    case False
    then have "?n - 1 < ?n" by simp
    from s [OF this] have "?s + (?n - 1) < 1024" unfolding pool_def by (rule less_le_trans) simp
    then have "?s + ?n \<le> 1024" using False by linarith
    then show ?thesis using fold_mark assms(3) by simp
  qed
  finally show ?thesis using assms(3) by (simp add: region_def)
qed

lemma fold_mark_files:
  assumes "\<forall>e \<in> set es. placed db e" "length xs = 1024"
  shows "fold (\<lambda>e marks. if e_type e = FS_TYPE_FREE then marks else if e_type e = FS_TYPE_DIR then marks
           else mark_file db e marks) es xs = map (\<lambda>b. xs ! b \<or> b \<in> taken es) [0..<1024]"
  using assms
proof (induction es arbitrary: xs)
  case Nil
  then show ?case using map_nth [of xs] by (simp add: taken_def)
next
  case (Cons e es)
  have t: "taken (e # es) = (if is_file e then region e else {}) \<union> taken es"
    by (auto simp: taken_def)
  show ?case
  proof (cases "is_file e")
    case True
    then have "mark_file db e xs = map (\<lambda>b. xs ! b \<or> b \<in> region e) [0..<1024]"
      using Cons.prems by (intro mark_file) simp_all
    then show ?thesis using Cons True t by (auto simp: is_file_def)
  next
    case False
    then have "e_type e = FS_TYPE_FREE \<or> e_type e = FS_TYPE_DIR"
      using Cons.prems by (auto simp: placed_def is_file_def)
    then show ?thesis using Cons False t by auto
  qed
qed

section \<open>First fit\<close>

definition gap :: "nat set \<Rightarrow> nat \<Rightarrow> nat \<Rightarrow> nat \<Rightarrow> bool" where
  "gap T n c s \<longleftrightarrow> s + c \<le> n \<and> {s..<s + c} \<inter> T = {}"

lemma find_gap_spec:
  assumes "\<And>b. b < n \<Longrightarrow> marks ! b \<longleftrightarrow> b \<in> T" "n \<le> 1024" "count \<noteq> 0"
    "k \<le> n" "unat cons \<le> k" "unat cons < unat count" "cons \<noteq> 0 \<Longrightarrow> start = of_nat (k - unat cons)"
    "{k - unat cons..<k} \<inter> T = {}" "unat cons < k \<Longrightarrow> k - unat cons - 1 \<in> T"
    "\<And>s. s + unat count \<le> k \<Longrightarrow> \<not> gap T n (unat count) s"
  shows "(\<exists>s. gap T n (unat count) s \<and> (\<forall>s' < s. \<not> gap T n (unat count) s') \<and> find_gap marks count [k..<n] start cons = of_nat s) \<or>
     (\<nexists>s. gap T n (unat count) s) \<and> find_gap marks count [k..<n] start cons = 0xFFFFFFFF"
  using assms(4-)
proof (induction "n - k" arbitrary: k start cons)
  case 0
  then have "k = n" by simp
  moreover from this have "\<not> gap T n (unat count) s" for s
    using "0.prems"(7) [of s] by (auto simp: gap_def)
  ultimately show ?case by simp
next
  case (Suc m)
  then have k: "k < n" by simp
  then have l: "[k..<n] = k # [Suc k..<n]" by (rule upt_conv_Cons)
  have c1: "unat (cons + 1) = unat cons + 1"
    using Suc.prems(2) k assms(2) unat_add_lem [THEN iffD1, of cons 1] by simp
  show ?case
  proof (cases "k \<in> T")
    case True
    have no: "\<not> gap T n (unat count) s" if "s + unat count \<le> Suc k" for s
    proof (cases "s + unat count \<le> k")
      case False
      then have "k \<in> {s..<s + unat count}" using that Suc.prems(3) by simp
      with True show ?thesis by (auto simp: gap_def)
    qed (rule Suc.prems(7))
    have "m = n - Suc k" using Suc.hyps(2) by simp
    from Suc.hyps(1) [OF this, of 0 start] have "(\<exists>s. gap T n (unat count) s \<and> (\<forall>s' < s. \<not> gap T n (unat count) s') \<and>
        find_gap marks count [Suc k..<n] start 0 = of_nat s) \<or>
       (\<nexists>s. gap T n (unat count) s) \<and> find_gap marks count [Suc k..<n] start 0 = 0xFFFFFFFF"
      using k True no Suc.prems(3) by simp
    then show ?thesis using True k assms(1) by (simp add: l)
  next
    case False
    define st where "st = (if cons = 0 then of_nat k else start)"
    have st: "st = of_nat (k - unat cons)" using Suc.prems(4) by (auto simp: st_def)
    have free: "{k - unat cons..<Suc k} \<inter> T = {}"
      using Suc.prems(5) False Suc.prems(2) by (auto simp: less_Suc_eq)
    have step: "find_gap marks count [k..<n] start cons =
        (if cons + 1 = count then st else find_gap marks count [Suc k..<n] st (cons + 1))"
      using False k assms(1) by (simp add: l st_def Let_def)
    show ?thesis
    proof (cases "cons + 1 = count")
      case True
      then have cnt: "unat count = unat cons + 1" using c1 by simp
      have "gap T n (unat count) (k - unat cons)"
        using free cnt Suc.prems(2) k by (auto simp: gap_def)
      moreover have "\<not> gap T n (unat count) s'" if "s' < k - unat cons" for s'
        using Suc.prems(7) [of s'] that cnt by simp
      ultimately show ?thesis using True step st by auto
    next
      case ne: False
      then have lt: "unat (cons + 1) < unat count"
        using c1 Suc.prems(3) by (metis Suc_eq_plus1 Suc_leI le_neq_implies_less word_unat_eq_iff)
      have no: "\<not> gap T n (unat count) s" if "s + unat count \<le> Suc k" for s
      proof (cases "s + unat count \<le> k")
        case False
        then have s: "s + unat count = Suc k" using that by simp
        then have "unat cons < k" "s \<le> k - unat cons - 1" "k - unat cons - 1 < s + unat count"
          using lt c1 by linarith+
        then show ?thesis using Suc.prems(6) by (auto simp: gap_def)
      qed (rule Suc.prems(7))
      have "m = n - Suc k" using Suc.hyps(2) by simp
      from Suc.hyps(1) [OF this, of "cons + 1" st] have "(\<exists>s. gap T n (unat count) s \<and> (\<forall>s' < s. \<not> gap T n (unat count) s') \<and>
          find_gap marks count [Suc k..<n] st (cons + 1) = of_nat s) \<or>
         (\<nexists>s. gap T n (unat count) s) \<and> find_gap marks count [Suc k..<n] st (cons + 1) = 0xFFFFFFFF"
        using k lt c1 st free no Suc.prems(2,6) by simp
      then show ?thesis using ne step by simp
    qed
  qed
qed

lemma takeWhile_map_bits: "takeWhile (\<lambda>b. b div 8 < 128) [0..<n] = [0..<min n 1024]"
proof -
  have "takeWhile (\<lambda>b. b div 8 < 128) [0..<m] = (if m \<le> 1024 then [0..<m] else [0..<1024])" for m :: nat
  proof (induction m)
    case (Suc m)
    show ?case
    proof (cases "m < 1024")
      case True
      then have "takeWhile (\<lambda>b. b div 8 < 128) [0..<Suc m] = [0..<Suc m]"
        by (subst takeWhile_eq_all_conv) auto
      then show ?thesis using True by (simp del: upt_Suc)
    next
      case False
      then have "\<not> m div 8 < 128" by linarith
      then have "takeWhile (\<lambda>b. b div 8 < 128) [0..<Suc m] = takeWhile (\<lambda>b. b div 8 < 128) [0..<m]"
        by (simp add: takeWhile_tail)
      also have "\<dots> = [0..<1024]" unfolding Suc.IH using False by (auto simp: not_less)
      finally show ?thesis using False by (simp del: upt_Suc)
    qed
  qed simp
  from this [of n] show ?thesis by (simp add: min_def)
qed

context block_device
begin

lemma used_map:
  assumes "good d" "3 \<le> nblocks" "sb_dir_start_block sb = 1" "\<forall>e \<in> set (dir dev d). placed db e"
  shows "used_map dev sb db d = map (\<lambda>b. b \<in> taken (dir dev d)) [0..<1024]"
proof -
  let ?f = "\<lambda>e marks. if e_type e = FS_TYPE_FREE then marks else if e_type e = FS_TYPE_DIR then marks
           else mark_file db e marks"
  have "used_map dev sb db d = fold (\<lambda>i. ?f (dir dev d ! i)) [0..<32] (replicate 1024 False)"
    unfolding used_map_def using read_entry [OF assms(1-3)] by (intro fold_cong) auto
  also have "\<dots> = fold ?f (map ((!) (dir dev d)) [0..<32]) (replicate 1024 False)"
    by (simp add: fold_map comp_def)
  also have "map ((!) (dir dev d)) [0..<32] = dir dev d" using map_nth [of "dir dev d"] by simp
  finally show ?thesis using fold_mark_files [OF assms(4), of "replicate 1024 False"] by simp
qed

text \<open>\<^verbatim>\<open>fs_alloc_blocks\<close> is first fit over the blocks no file occupies, within the free count.\<close>

lemma alloc_blocks:
  assumes "good d" "3 \<le> nblocks" "sb_dir_start_block sb = 1"
    "db = sb_total_blocks sb - sb_data_start_block sb" "\<forall>e \<in> set (dir dev d). placed db e" "count \<noteq> 0"
  shows "(\<exists>s. gap (taken (dir dev d)) (pool db) (unat count) s \<and> (\<forall>s' < s. \<not> gap (taken (dir dev d)) (pool db) (unat count) s') \<and>
         count \<le> sb_free_blocks sb \<and> fs_alloc_blocks dev sb count d = of_nat s) \<or>
     (sb_free_blocks sb < count \<or> (\<nexists>s. gap (taken (dir dev d)) (pool db) (unat count) s)) \<and>
       fs_alloc_blocks dev sb count d = 0xFFFFFFFF"
proof (cases "sb_free_blocks sb < count")
  case True
  then show ?thesis using assms(6) by (simp add: fs_alloc_blocks_def)
next
  case False
  let ?T = "taken (dir dev d)" and ?m = "map (\<lambda>b. b \<in> taken (dir dev d)) [0..<1024]"
  have "fs_alloc_blocks dev sb count d = find_gap ?m count [0..<pool db] 0 0"
    using False assms(6) used_map [OF assms(1-3,5)]
    by (simp add: fs_alloc_blocks_def assms(4) [symmetric] takeWhile_map_bits pool_def)
  moreover have "(\<exists>s. gap ?T (pool db) (unat count) s \<and> (\<forall>s' < s. \<not> gap ?T (pool db) (unat count) s') \<and>
        find_gap ?m count [0..<pool db] 0 0 = of_nat s) \<or>
     (\<nexists>s. gap ?T (pool db) (unat count) s) \<and> find_gap ?m count [0..<pool db] 0 0 = 0xFFFFFFFF"
    by (rule find_gap_spec) (use assms(6) in \<open>auto simp: pool_def word_neq_0_conv word_less_nat_alt\<close>)
  ultimately show ?thesis using False by (auto simp: not_less)
qed

section \<open>File contents\<close>

lemma write_blocks_spec:
  assumes "good d" "a + k \<le> nblocks" "k = fblocks rem" "unat rem \<le> length src"
  obtains d' where "write_blocks dev (of_nat a) k src rem d = (True, d')" "good d'"
    "\<And>c. c < nblocks \<Longrightarrow> c \<notin> {a..<a + k} \<Longrightarrow> blk dev d' c = blk dev d c"
    "take (unat rem) (concat (map (blk dev d') [a..<a + k])) = take (unat rem) src"
  using assms
proof (induction k arbitrary: a src rem d thesis)
  case 0
  then have "unat rem = 0" by (simp add: fblocks_def)
  with 0 show ?case by simp
next
  case (Suc k)
  define chunk where "chunk = (if rem > 512 then 512 else rem)"
  define buf where "buf = (if chunk < 512 then take (unat chunk) src @ replicate (512 - unat chunk) 0 else take 512 src)"
  have c: "unat chunk = min 512 (unat rem)" by (auto simp: chunk_def word_less_nat_alt)
  then have "chunk \<le> rem" by (simp add: word_le_nat_alt)
  then have r: "unat (rem - chunk) = unat rem - unat chunk" by (simp add: unat_sub)
  have k: "k = fblocks (rem - chunk)" using Suc.prems(4) by (auto simp: fblocks_def r c)
  have len: "length buf = 512" and pre: "take (unat chunk) buf = take (unat chunk) src"
    using Suc.prems(5) c by (auto simp: buf_def word_less_nat_alt)
  have ab: "a < nblocks" using Suc.prems(3) by simp
  from write_blk [OF Suc.prems(2) ab len] obtain d1 where
    d1: "dev_write dev (of_nat a) buf d = Some d1" "good d1" "\<And>c. c < nblocks \<Longrightarrow> blk dev d1 c = (if c = a then buf else blk dev d c)"
    by blast
  have "Suc a + k \<le> nblocks" "unat (rem - chunk) \<le> length (drop (unat chunk) src)"
    using Suc.prems(3,5) r by simp_all
  from Suc.IH [OF _ d1(2) this(1) k this(2)] obtain d' where
    d': "write_blocks dev (of_nat (Suc a)) k (drop (unat chunk) src) (rem - chunk) d1 = (True, d')" "good d'"
      "\<And>c. c < nblocks \<Longrightarrow> c \<notin> {Suc a..<Suc a + k} \<Longrightarrow> blk dev d' c = blk dev d1 c"
      "take (unat (rem - chunk)) (concat (map (blk dev d') [Suc a..<Suc a + k])) = take (unat (rem - chunk)) (drop (unat chunk) src)"
    by blast
  have l: "[a..<a + Suc k] = a # [Suc a..<Suc a + k]" by (simp add: upt_conv_Cons)
  have a: "blk dev d' a = buf" using d'(3) [OF ab] d1(3) [OF ab] by simp
  have "take (unat rem) (concat (map (blk dev d') [a..<a + Suc k])) = take (unat rem) src"
  proof (cases "unat rem \<le> 512")
    case True
    then show ?thesis unfolding l list.map concat.simps a using c pre len by simp
  next
    case False
    then have ch: "unat chunk = 512" using c by simp
    have "take (unat rem) (concat (map (blk dev d') [a..<a + Suc k])) =
        buf @ take (unat rem - 512) (concat (map (blk dev d') [Suc a..<Suc a + k]))"
      unfolding l list.map concat.simps a using False len by simp
    also have "\<dots> = take 512 src @ take (unat rem - 512) (drop 512 src)"
      using d'(4) r ch pre len by simp
    also have "\<dots> = take (unat rem) src" using False by (simp add: take_add [symmetric])
    finally show ?thesis .
  qed
  moreover have "write_blocks dev (of_nat a) (Suc k) src rem d = (True, d')"
    using d1(1) d'(1) by (simp add: chunk_def [symmetric] buf_def [symmetric] Let_def add.commute)
  moreover have "blk dev d' c = blk dev d c" if "c < nblocks" "c \<notin> {a..<a + Suc k}" for c
    using d'(3) [OF that(1)] d1(3) [OF that(1)] that(2) by auto
  ultimately show ?case using Suc.prems(1) d'(2) by blast
qed

lemma read_blocks_spec:
  assumes "good d" "a + k \<le> nblocks" "k = fblocks rem"
  shows "read_blocks dev (of_nat a) k rem d = (True, take (unat rem) (concat (map (blk dev d) [a..<a + k])))"
  using assms
proof (induction k arbitrary: a rem)
  case 0
  then show ?case by simp
next
  case (Suc k)
  define chunk where "chunk = (if rem > 512 then 512 else rem)"
  have c: "unat chunk = min 512 (unat rem)" by (auto simp: chunk_def word_less_nat_alt)
  then have "chunk \<le> rem" by (simp add: word_le_nat_alt)
  then have r: "unat (rem - chunk) = unat rem - unat chunk" by (simp add: unat_sub)
  have k: "k = fblocks (rem - chunk)" using Suc.prems(3) by (auto simp: fblocks_def r c)
  have ab: "a < nblocks" "Suc a + k \<le> nblocks" using Suc.prems(2) by simp_all
  have l: "[a..<a + Suc k] = a # [Suc a..<Suc a + k]" by (simp add: upt_conv_Cons)
  show ?case
    unfolding l list.map concat.simps
    using read_blk [OF Suc.prems(1) ab(1)] Suc.IH [OF Suc.prems(1) ab(2) k] c r
    by (simp add: chunk_def [symmetric] Let_def add.commute min_def)
qed

end

end
