(* ===== verification/Simplefs_Props.thy ===== *)
theory Simplefs_Props
  imports Fs_Alloc "HOL-Library.Sublist"
begin

text \<open>
  The file system implements a finite map from names to files and directories.  \<open>fs_abs\<close> reads the map off the
  device, \<open>fs_inv\<close> is the invariant of a mounted file system, and every public operation is an operation on the map.
  The lemmas hold for every block device that keeps the contract; the theorems state them for the RAM disk.
\<close>

lemma first_some_cong: "(\<And>x. x \<in> set xs \<Longrightarrow> f x = g x) \<Longrightarrow> first_some f xs = first_some g xs"
  by (induction xs) (auto split: option.splits)

section \<open>Directories as maps\<close>

definition live :: "fs_entry_t \<Rightarrow> bool" where
  "live e \<longleftrightarrow> e_type e \<noteq> FS_TYPE_FREE"

definition name_of :: "fs_entry_t \<Rightarrow> string" where
  "name_of e = cstr (e_name e)"

definition lookup :: "fs_entry_t list \<Rightarrow> string \<Rightarrow> fs_entry_t option" where
  "lookup es n = List.find (\<lambda>e. live e \<and> name_of e = n) es"

definition unique :: "fs_entry_t list \<Rightarrow> bool" where
  "unique es \<longleftrightarrow> (\<forall>i < length es. \<forall>j < length es. live (es ! i) \<longrightarrow> live (es ! j) \<longrightarrow> name_of (es ! i) = name_of (es ! j) \<longrightarrow> i = j)"

definition apart :: "fs_entry_t list \<Rightarrow> bool" where
  "apart es \<longleftrightarrow> (\<forall>i < length es. \<forall>j < length es. is_file (es ! i) \<longrightarrow> is_file (es ! j) \<longrightarrow> i \<noteq> j \<longrightarrow>
     region (es ! i) \<inter> region (es ! j) = {})"

definition entry_ok :: "u32 \<Rightarrow> fs_entry_t \<Rightarrow> bool" where
  "entry_ok db e \<longleftrightarrow> length (e_name e) = 24 \<and> is_cstr (e_name e) \<and> placed db e"

definition fsdir_ok :: "u32 \<Rightarrow> fs_entry_t list \<Rightarrow> bool" where
  "fsdir_ok db es \<longleftrightarrow> (\<forall>e \<in> set es. entry_ok db e) \<and> unique es \<and> apart es"

definition entry_blocks :: "fs_entry_t \<Rightarrow> nat" where
  "entry_blocks e = (if is_file e then fblocks (e_size e) else 0)"

definition blocks_sum :: "fs_entry_t list \<Rightarrow> nat" where
  "blocks_sum es = sum_list (map entry_blocks es)"

lemma is_file_live: "is_file e \<Longrightarrow> live e"
  by (simp add: is_file_def live_def)

lemma lookup_iff:
  assumes "unique es"
  shows "lookup es n = Some e \<longleftrightarrow> (\<exists>i < length es. es ! i = e \<and> live e \<and> name_of e = n)"
proof
  assume "lookup es n = Some e"
  then show "\<exists>i < length es. es ! i = e \<and> live e \<and> name_of e = n"
    by (auto simp: lookup_def find_Some_iff)
next
  assume "\<exists>i < length es. es ! i = e \<and> live e \<and> name_of e = n"
  then obtain i where i: "i < length es" "es ! i = e" "live e" "name_of e = n" by blast
  have "\<not> (live (es ! j) \<and> name_of (es ! j) = n)" if "j < i" for j
    using assms i that unfolding unique_def by (metis nat_neq_iff order.strict_trans)
  with i show "lookup es n = Some e" unfolding lookup_def find_Some_iff by blast
qed

lemma lookup_None: "lookup es n = None \<longleftrightarrow> (\<forall>i < length es. live (es ! i) \<longrightarrow> name_of (es ! i) \<noteq> n)"
  by (auto simp: lookup_def find_None_iff in_set_conv_nth)

text \<open>Replacing an entry by one whose name no other entry has.\<close>

lemma unique_update:
  assumes "unique es" "i < length es" "\<forall>j < length es. j \<noteq> i \<longrightarrow> live (es ! j) \<longrightarrow> name_of (es ! j) \<noteq> name_of e"
  shows "unique (es[i := e])"
  using assms unfolding unique_def by (auto simp: nth_list_update)

lemma lookup_update:
  assumes "unique es" "i < length es" "\<forall>j < length es. j \<noteq> i \<longrightarrow> live (es ! j) \<longrightarrow> name_of (es ! j) \<noteq> name_of e"
    "live (es ! i) \<Longrightarrow> name_of (es ! i) = name_of e" "live e"
  shows "lookup (es[i := e]) = (lookup es)(name_of e \<mapsto> e)"
proof (rule ext)
  fix m
  note l = lookup_iff [OF unique_update [OF assms(1-3)]] and l0 = lookup_iff [OF assms(1)]
  show "lookup (es[i := e]) m = ((lookup es)(name_of e \<mapsto> e)) m"
  proof (cases "m = name_of e")
    case True
    have "lookup (es[i := e]) m = Some e" unfolding l using True assms(2,5) by (intro exI [of _ i]) simp
    then show ?thesis using True by simp
  next
    case False
    have "lookup (es[i := e]) m = Some x \<longleftrightarrow> lookup es m = Some x" for x
      unfolding l l0 length_list_update using False assms(4) by (metis nth_list_update_eq nth_list_update_neq)
    then show ?thesis using False by (metis fun_upd_other option.exhaust_sel option.distinct(1))
  qed
qed

lemma apart_update:
  assumes "apart es" "i < length es" "is_file e \<Longrightarrow> \<forall>j < length es. j \<noteq> i \<longrightarrow> is_file (es ! j) \<longrightarrow> region e \<inter> region (es ! j) = {}"
  shows "apart (es[i := e])"
  using assms unfolding apart_def by (auto simp: nth_list_update)

lemma fsdir_ok_update:
  assumes "fsdir_ok db es" "i < length es" "entry_ok db e"
    "\<forall>j < length es. j \<noteq> i \<longrightarrow> live (es ! j) \<longrightarrow> name_of (es ! j) \<noteq> name_of e"
    "is_file e \<Longrightarrow> \<forall>j < length es. j \<noteq> i \<longrightarrow> is_file (es ! j) \<longrightarrow> region e \<inter> region (es ! j) = {}"
  shows "fsdir_ok db (es[i := e])"
  using assms set_update_subset_insert [of es i e] unique_update [OF _ assms(2,4)] apart_update [OF _ assms(2,5)]
  by (auto simp: fsdir_ok_def)

lemma blocks_sum_update:
  assumes "i < length es"
  shows "blocks_sum (es[i := e]) + entry_blocks (es ! i) = blocks_sum es + entry_blocks e"
proof -
  have "entry_blocks (es ! i) \<le> blocks_sum es"
    unfolding blocks_sum_def using assms by (intro member_le_sum_list) simp_all
  then show ?thesis using assms by (simp add: blocks_sum_def map_update sum_list_update)
qed

text \<open>Disjoint ranges inside the pool: the files together occupy at most the pool.\<close>

lemma blocks_sum_le:
  assumes "apart es" "\<forall>e \<in> set es. placed db e"
  shows "blocks_sum es \<le> pool db"
proof -
  let ?I = "{i. i < length es \<and> is_file (es ! i)}"
  have "blocks_sum es = (\<Sum>i < length es. entry_blocks (es ! i))"
    by (simp add: blocks_sum_def sum_list_sum_nth atLeast0LessThan)
  also have "\<dots> = (\<Sum>i \<in> ?I. card (region (es ! i)))"
    by (rule sum.mono_neutral_cong_right) (auto simp: entry_blocks_def region_def)
  also have "\<dots> = card (\<Union>i \<in> ?I. region (es ! i))"
    using assms(1) by (intro card_UN_disjoint [symmetric]) (auto simp: apart_def region_def)
  also have "\<dots> \<le> card {..<pool db}"
    using assms(2) nth_mem [of _ es] by (intro card_mono) (fastforce simp: placed_def)+
  finally show ?thesis by simp
qed

text \<open>Freeing entries.\<close>

definition clear_where :: "(fs_entry_t \<Rightarrow> bool) \<Rightarrow> fs_entry_t list \<Rightarrow> fs_entry_t list" where
  "clear_where P es = map (\<lambda>e. if P e then free_entry else e) es"

lemma free_entry_simps [simp]:
  "\<not> live free_entry" "\<not> is_file free_entry" "entry_ok db free_entry" "entry_blocks free_entry = 0" "length (e_name free_entry) = 24"
  by (simp_all add: live_def is_file_def free_entry_def entry_ok_def placed_def entry_blocks_def is_cstr_def)

lemma fsdir_ok_clear: "fsdir_ok db es \<Longrightarrow> fsdir_ok db (clear_where P es)"
  unfolding fsdir_ok_def unique_def apart_def clear_where_def by auto

lemma lookup_clear:
  assumes "unique es" "\<And>e. live e \<Longrightarrow> P e \<longleftrightarrow> name_of e \<in> N"
  shows "lookup (clear_where P es) = (\<lambda>m. if m \<in> N then None else lookup es m)"
proof (rule ext)
  fix m
  have u: "unique (clear_where P es)" using assms(1) unfolding unique_def clear_where_def by auto
  have "lookup (clear_where P es) m = Some x \<longleftrightarrow> (if m \<in> N then None else lookup es m) = Some x" for x
    using assms(2) unfolding lookup_iff [OF u]
    by (auto simp: lookup_iff [OF assms(1)] clear_where_def split: if_splits)
  then show "lookup (clear_where P es) m = (if m \<in> N then None else lookup es m)"
    by (metis option.exhaust_sel option.distinct(1))
qed

lemma blocks_sum_clear:
  "blocks_sum (clear_where P es) + sum_list (map entry_blocks (filter P es)) = blocks_sum es"
  by (induction es) (auto simp: blocks_sum_def clear_where_def)

section \<open>The invariant and the abstraction\<close>

datatype node = File "u8 list" | Dir

definition content :: "'d block_device_t \<Rightarrow> 'd \<Rightarrow> fs_entry_t \<Rightarrow> u8 list" where
  "content dev d e =
     take (unat (e_size e)) (concat (map (blk dev d)
       [3 + unat (e_start_block e)..<3 + unat (e_start_block e) + fblocks (e_size e)]))"

definition node_of :: "'d block_device_t \<Rightarrow> 'd \<Rightarrow> fs_entry_t \<Rightarrow> node" where
  "node_of dev d e = (if is_file e then File (content dev d e) else Dir)"

definition fs_abs :: "'d block_device_t \<Rightarrow> 'd fs \<Rightarrow> string \<rightharpoonup> node" where
  "fs_abs dev s n = map_option (node_of dev (disk s)) (lookup (dir dev (disk s)) n)"

text \<open>The number of data blocks.\<close>

definition ndata :: "'d block_device_t \<Rightarrow> u32" where
  "ndata dev = total_blocks dev - 3"

definition sb_ok :: "'d block_device_t \<Rightarrow> fs_superblock_t \<Rightarrow> bool" where
  "sb_ok dev sb \<longleftrightarrow> sb_magic sb = FS_MAGIC \<and> sb_total_blocks sb = total_blocks dev \<and> sb_dir_start_block sb = 1 \<and>
     sb_data_start_block sb = 3 \<and> length (sb_reserved sb) = 480"

definition disk_ok :: "'d block_device_t \<Rightarrow> ('d \<Rightarrow> bool) \<Rightarrow> 'd \<Rightarrow> bool" where
  "disk_ok dev good d \<longleftrightarrow> good d \<and> 3 \<le> unat (total_blocks dev) \<and> fsdir_ok (ndata dev) (dir dev d)"

definition fs_inv :: "'d block_device_t \<Rightarrow> ('d \<Rightarrow> bool) \<Rightarrow> 'd fs \<Rightarrow> bool" where
  "fs_inv dev good s \<longleftrightarrow>
     fs_dev s = Some dev \<and> disk_ok dev good (disk s) \<and> sb_ok dev (superblock s) \<and>
     blk dev (disk s) 0 = bytes_of_superblock (superblock s) \<and>
     blocks_sum (dir dev (disk s)) + unat (sb_free_blocks (superblock s)) = unat (ndata dev)"

lemma content_cong:
  "(\<And>b. b \<in> region e \<Longrightarrow> blk dev d' (3 + b) = blk dev d (3 + b)) \<Longrightarrow> content dev d' e = content dev d e"
proof -
  assume a: "\<And>b. b \<in> region e \<Longrightarrow> blk dev d' (3 + b) = blk dev d (3 + b)"
  have "blk dev d' c = blk dev d c"
    if "c \<in> set [3 + unat (e_start_block e)..<3 + unat (e_start_block e) + fblocks (e_size e)]" for c
  proof -
    have "c - 3 \<in> region e" "3 + (c - 3) = c" using that by (auto simp: region_def)
    with a show ?thesis by metis
  qed
  then have "map (blk dev d') [3 + unat (e_start_block e)..<3 + unat (e_start_block e) + fblocks (e_size e)] =
      map (blk dev d) [3 + unat (e_start_block e)..<3 + unat (e_start_block e) + fblocks (e_size e)]"
    by (rule map_cong [OF refl])
  then show "content dev d' e = content dev d e" by (simp only: content_def)
qed

lemma region_taken: "e \<in> set es \<Longrightarrow> is_file e \<Longrightarrow> region e \<subseteq> taken es"
  by (auto simp: taken_def)

lemma lookup_set: "lookup es n = Some e \<Longrightarrow> e \<in> set es \<and> live e \<and> name_of e = n"
  by (auto simp: lookup_def find_Some_iff)

lemma taken_pool: "fsdir_ok db es \<Longrightarrow> taken es \<subseteq> {..<pool db}"
  by (auto simp: fsdir_ok_def entry_ok_def placed_def taken_def)

lemma fsdir_okD:
  assumes "fsdir_ok db es"
  shows "\<forall>e \<in> set es. placed db e" "unique es" "apart es" "e \<in> set es \<Longrightarrow> is_cstr (e_name e) \<and> length (e_name e) = 24"
  using assms by (auto simp: fsdir_ok_def entry_ok_def)

text \<open>Nodes whose blocks were not touched keep their contents.\<close>

lemma fs_abs_same:
  assumes "dir dev (disk s') = dir dev (disk s)" "\<And>b. b \<in> taken (dir dev (disk s)) \<Longrightarrow> blk dev (disk s') (3 + b) = blk dev (disk s) (3 + b)"
  shows "fs_abs dev s' = fs_abs dev s"
proof (rule ext)
  fix n
  have "node_of dev (disk s') e = node_of dev (disk s) e" if "lookup (dir dev (disk s)) n = Some e" for e
  proof -
    have "content dev (disk s') e = content dev (disk s) e" if "is_file e"
      using lookup_set [OF \<open>lookup _ n = Some e\<close>] region_taken [of e "dir dev (disk s)"] that assms(2)
      by (intro content_cong) auto
    then show ?thesis by (simp add: node_of_def)
  qed
  then show "fs_abs dev s' n = fs_abs dev s n"
    using assms(1) by (cases "lookup (dir dev (disk s)) n") (simp_all add: fs_abs_def)
qed

context block_device
begin

lemma find_entry_cases:
  assumes "disk_ok dev good d" "sb_ok dev sb" "is_cstr name"
  obtains (absent) "fs_find_entry dev sb name d = None" "lookup (dir dev d) (cstr name) = None"
  | (found) e i where "fs_find_entry dev sb name d = Some (e, i)" "i < 32" "dir dev d ! i = e" "live e"
      "name_of e = cstr name" "lookup (dir dev d) (cstr name) = Some e" "e \<in> set (dir dev d)"
proof -
  let ?es = "dir dev d"
  have ok: "good d" "3 \<le> nblocks" "sb_dir_start_block sb = 1" "fsdir_ok (ndata dev) ?es"
    using assms by (simp_all add: disk_ok_def sb_ok_def)
  define f where "f = (\<lambda>i. if live (?es ! i) \<and> name_of (?es ! i) = cstr name then Some (?es ! i, i) else None)"
  have "fs_find_entry dev sb name d = first_some f [0..<32]"
  proof -
    have "(case fs_read_entry dev sb i d of None \<Rightarrow> None
       | Some e \<Rightarrow> if e_type e \<noteq> FS_TYPE_FREE \<and> strcmp (e_name e) name = Some 0 then Some (e, i) else None) = f i"
      if "i \<in> set [0..<32]" for i
    proof -
      have "is_cstr (e_name (?es ! i))" using that fsdir_okD(4) [OF ok(4)] by simp
      then show ?thesis using read_entry [OF ok(1-3)] that assms(3) strcmp_eq_0_iff
        by (simp add: f_def live_def name_of_def)
    qed
    then show ?thesis unfolding fs_find_entry_def by (rule first_some_cong)
  qed
  moreover have "lookup ?es (cstr name) = None" if "first_some f [0..<32] = None"
    using that unfolding first_some_None_iff lookup_None by (auto simp: f_def split: if_splits)
  moreover have "i < 32 \<and> ?es ! i = e \<and> live e \<and> name_of e = cstr name \<and> lookup ?es (cstr name) = Some e \<and> e \<in> set ?es"
    if "first_some f [0..<32] = Some (e, i)" for e i
  proof -
    from that obtain j where j: "j < 32" "f j = Some (e, i)" by (rule first_some_upt_SomeD)
    then have "j = i" "?es ! i = e" "live e" "name_of e = cstr name" by (auto simp: f_def split: if_splits)
    then show ?thesis using j(1) lookup_iff [OF fsdir_okD(2) [OF ok(4)]] nth_mem [of i ?es] by auto
  qed
  ultimately show ?thesis using absent found by (cases "first_some f [0..<32]") force+
qed

end

end
