(* ===== verification/Simplefs_Ops.thy ===== *)
theory Simplefs_Ops
  imports Simplefs_Props
begin

text \<open>
  The public operations of the file system as operations on the map from names to nodes.
\<close>

section \<open>Shared facts\<close>

lemma of_nat_unat_u16: "(of_nat (unat (w :: u16)) :: u32) = ucast w"
  by (simp add: word_unat_eq_iff unat_of_nat)

lemma sint_small: "unat (w :: u32) < 2147483648 \<Longrightarrow> sint w = int (unat w)"
proof -
  assume a: "unat w < 2147483648"
  then have "int (unat w) < 2147483648" by linarith
  then have "- (2 ^ 31) \<le> uint w" "uint w < 2 ^ 31" using order_trans [OF _ uint_ge_0 [of w]] by simp_all
  then have "signed_take_bit 31 (uint w) = uint w" by (rule signed_take_bit_int_eq_self)
  then show ?thesis by (simp add: sint_uint)
qed

lemma length_blocks:
  "(\<And>c. c < a + k \<Longrightarrow> length (f c) = 512) \<Longrightarrow> length (concat (map f [a..<a + k])) = 512 * k"
  by (induction k) simp_all

lemma take_blocks:
  assumes "\<And>c. c < a + k \<Longrightarrow> length (f c) = 512" "j \<le> k" "m \<le> 512 * j"
  shows "take m (concat (map f [a..<a + j])) = take m (concat (map f [a..<a + k]))"
proof -
  have "length (concat (map f [a..<a + j])) = 512 * j"
    using assms(1,2) by (intro length_blocks) simp
  moreover have "[a..<a + k] = [a..<a + j] @ [a + j..<a + k]"
    using assms(2) by (metis le_Suc_ex add.assoc le_add1 upt_add_eq_append)
  ultimately show ?thesis using assms(2,3) by simp
qed

lemma unat_blocks_for_size:
  assumes "unat sz + 511 < 4294967296"
  shows "unat (blocks_for sz) = fblocks sz"
proof -
  have e: "sz + BLOCK_SIZE - 1 = sz + 511" by simp
  have "unat (sz + BLOCK_SIZE - 1) = unat sz + 511"
    unfolding e using assms unat_add_lem [THEN iffD1, of sz 511] by simp
  then show ?thesis by (simp add: blocks_for_def fblocks_def unat_div_distrib)
qed

lemma card_dom_lookup:
  assumes "unique es"
  shows "card (dom (lookup es)) = card {i. i < length es \<and> live (es ! i)}"
proof -
  have "dom (lookup es) = (\<lambda>i. name_of (es ! i)) ` {i. i < length es \<and> live (es ! i)}"
    by (auto simp: dom_def lookup_iff [OF assms])
  moreover have "inj_on (\<lambda>i. name_of (es ! i)) {i. i < length es \<and> live (es ! i)}"
    using assms by (auto simp: inj_on_def unique_def)
  ultimately show ?thesis by (simp add: card_image)
qed

lemma dom_fs_abs: "dom (fs_abs dev s) = dom (lookup (dir dev (disk s)))"
  by (auto simp: fs_abs_def dom_def)

text \<open>One entry replaced, no block of a file touched.\<close>

lemma fs_abs_update:
  assumes "unique (dir dev (disk s))" "i < 32"
    "\<forall>j < 32. j \<noteq> i \<longrightarrow> live (dir dev (disk s) ! j) \<longrightarrow> name_of (dir dev (disk s) ! j) \<noteq> name_of e"
    "live (dir dev (disk s) ! i) \<Longrightarrow> name_of (dir dev (disk s) ! i) = name_of e" "live e"
    "dir dev (disk s') = (dir dev (disk s))[i := e]"
    "\<And>b. b \<in> taken (dir dev (disk s)) \<Longrightarrow> blk dev (disk s') (3 + b) = blk dev (disk s) (3 + b)"
  shows "fs_abs dev s' = (fs_abs dev s)(name_of e \<mapsto> node_of dev (disk s') e)"
proof (rule ext)
  fix n
  let ?es = "dir dev (disk s)"
  have l: "lookup (dir dev (disk s')) = (lookup ?es)(name_of e \<mapsto> e)"
    unfolding assms(6) by (rule lookup_update) (use assms in auto)
  have "node_of dev (disk s') x = node_of dev (disk s) x" if "lookup ?es n = Some x" for x
  proof -
    have "content dev (disk s') x = content dev (disk s) x" if "is_file x"
      using lookup_set [OF \<open>lookup ?es n = Some x\<close>] region_taken [of x ?es] that assms(7) by (intro content_cong) auto
    then show ?thesis by (simp add: node_of_def)
  qed
  then show "fs_abs dev s' n = ((fs_abs dev s)(name_of e \<mapsto> node_of dev (disk s') e)) n"
    by (cases "lookup ?es n") (simp_all add: fs_abs_def l)
qed

lemma ndata_unat: "3 \<le> unat (total_blocks dev) \<Longrightarrow> unat (ndata dev) = unat (total_blocks dev) - 3"
  unfolding ndata_def by (simp add: unat_sub word_le_nat_alt)

lemma taken_block:
  assumes "disk_ok dev good d" "b \<in> taken (dir dev d)"
  shows "3 + b < unat (total_blocks dev)"
proof -
  have "b < pool (ndata dev)" using taken_pool assms by (auto simp: disk_ok_def)
  then have "b < unat (ndata dev)" by (simp add: pool_def)
  moreover have "unat (ndata dev) = unat (total_blocks dev) - 3" "3 \<le> unat (total_blocks dev)"
    using assms(1) by (simp_all add: disk_ok_def ndata_unat)
  ultimately show ?thesis by linarith
qed

context block_device
begin

lemma free_slot_cases:
  assumes "disk_ok dev good d" "sb_ok dev sb"
  obtains (full) "fs_find_free_slot dev sb d = 32" "\<forall>i < 32. live (dir dev d ! i)"
  | (slot) i where "fs_find_free_slot dev sb d = i" "i < 32" "\<not> live (dir dev d ! i)"
proof -
  have ok: "good d" "3 \<le> nblocks" "sb_dir_start_block sb = 1" using assms by (simp_all add: disk_ok_def sb_ok_def)
  define f where "f = (\<lambda>i. if live (dir dev d ! i) then None else Some i)"
  have "first_some (\<lambda>i. case fs_read_entry dev sb i d of None \<Rightarrow> None
        | Some e \<Rightarrow> if e_type e = FS_TYPE_FREE then Some i else None) [0..<32] = first_some f [0..<32]"
    by (rule first_some_cong) (use read_entry [OF ok] in \<open>simp add: f_def live_def\<close>)
  then have s: "fs_find_free_slot dev sb d = (case first_some f [0..<32] of Some i \<Rightarrow> i | None \<Rightarrow> 32)"
    by (simp add: fs_find_free_slot_def)
  show ?thesis
  proof (cases "first_some f [0..<32]")
    case None
    then have "fs_find_free_slot dev sb d = 32" using s by simp
    moreover have "\<forall>i < 32. live (dir dev d ! i)"
      using None by (auto simp: first_some_None_iff f_def split: if_splits)
    ultimately show ?thesis by (rule full)
  next
    case (Some i)
    then obtain j where "j < 32" "f j = Some i" by (rule first_some_upt_SomeD)
    then show ?thesis using slot s Some by (auto simp: f_def split: if_splits)
  qed
qed

text \<open>Writing back the superblock at the end of an operation.\<close>

lemma flush_commits:
  assumes "disk_ok dev good (disk s)" "sb_ok dev (superblock s)" "fs_dev s = Some dev"
    "blocks_sum (dir dev (disk s)) + unat (sb_free_blocks (superblock s)) = unat (ndata dev)"
  shows "fs_inv dev good (flush_ignored dev s)" and "fs_abs dev (flush_ignored dev s) = fs_abs dev s"
proof -
  let ?x = "bytes_of_superblock (superblock s)"
  have ok: "good (disk s)" "3 \<le> nblocks" "length ?x = 512" "0 < nblocks"
    using assms length_superblock by (auto simp: disk_ok_def sb_ok_def)
  obtain d where
    d: "dev_write dev (of_nat 0) ?x (disk s) = Some d" "good d" "\<And>c. c < nblocks \<Longrightarrow> blk dev d c = (if c = 0 then ?x else blk dev (disk s) c)"
    by (rule write_blk [OF ok(1) ok(4) ok(3)]) (rule that)
  then have s': "flush_ignored dev s = s\<lparr>disk := d\<rparr>"
    by (simp add: flush_ignored_def fs_flush_superblock_def)
  have dir: "dir dev d = dir dev (disk s)" by (rule dir_cong) (use d(3) ok(2) in simp_all)
  have ok': "disk_ok dev good d" using assms(1) d(2) dir by (simp add: disk_ok_def)
  show "fs_inv dev good (flush_ignored dev s)"
    using assms ok' d(3) [OF ok(4)] by (simp add: s' fs_inv_def dir)
  show "fs_abs dev (flush_ignored dev s) = fs_abs dev s"
    by (rule fs_abs_same) (use dir d(3) taken_block [OF assms(1)] in \<open>simp_all add: s'\<close>)
qed

section \<open>Reading\<close>

text \<open>The blocks of a file are on the device and hold its bytes.\<close>

lemma file_on_disk:
  assumes "disk_ok dev good d" "e \<in> set (dir dev d)" "is_file e"
  shows "fblocks (e_size e) \<le> 1024" and "unat (e_size e) \<le> 524288"
    and "j \<le> fblocks (e_size e) \<Longrightarrow> j \<noteq> 0 \<Longrightarrow> 3 + unat (e_start_block e) + j \<le> nblocks"
    and "length (content dev d e) = unat (e_size e)"
proof -
  let ?a = "3 + unat (e_start_block e)" and ?k = "fblocks (e_size e)"
  have d: "good d" and reg: "region e \<subseteq> {..<pool (ndata dev)}" and k: "?k \<le> 1024"
    using assms by (auto simp: disk_ok_def fsdir_ok_def entry_ok_def placed_def)
  show "?k \<le> 1024" by (rule k)
  have "unat (e_size e) \<le> 512 * ?k" unfolding fblocks_def by linarith
  then show "unat (e_size e) \<le> 524288" using k by linarith
  have blocks: "?a + j \<le> nblocks" if "j \<le> ?k" "j \<noteq> 0" for j
  proof -
    have "unat (e_start_block e) + (j - 1) \<in> region e" using that by (auto simp: region_def)
    then have "unat (e_start_block e) + (j - 1) < unat (ndata dev)" using reg by (auto simp: pool_def)
    moreover have "unat (ndata dev) = nblocks - 3" using assms(1) by (simp add: disk_ok_def ndata_unat)
    ultimately show ?thesis using that(2) by linarith
  qed
  then show "j \<le> ?k \<Longrightarrow> j \<noteq> 0 \<Longrightarrow> ?a + j \<le> nblocks" .
  show "length (content dev d e) = unat (e_size e)"
  proof (cases "?k = 0")
    case True
    then show ?thesis using \<open>unat (e_size e) \<le> 512 * ?k\<close> by (simp add: content_def)
  next
    case False
    have "length (concat (map (blk dev d) [?a..<?a + ?k])) = 512 * ?k"
      by (rule length_blocks, rule read_blk(2) [OF d]) (use blocks [OF order_refl False] in simp)
    then show ?thesis using \<open>unat (e_size e) \<le> 512 * ?k\<close> by (simp add: content_def)
  qed
qed

lemma read_file_spec:
  assumes "fs_inv dev good s" "is_cstr name" "fs_abs dev s (cstr name) = Some (File c)"
  shows "fs_read_file (Some name) mx s = (int (length (take (unat mx) c)), take (unat mx) c)"
proof -
  have ok: "disk_ok dev good (disk s)" "sb_ok dev (superblock s)" "fs_dev s = Some dev"
    using assms(1) by (simp_all add: fs_inv_def)
  from ok(1,2) assms(2) show ?thesis
  proof (cases rule: find_entry_cases)
    case absent
    then show ?thesis using assms(3) by (simp add: fs_abs_def)
  next
    case (found e i)
    then have fl: "is_file e" and c: "c = content dev (disk s) e"
      using assms(3) by (simp_all add: fs_abs_def node_of_def split: if_splits)
    let ?a = "3 + unat (e_start_block e)" and ?k = "fblocks (e_size e)"
    note fd = file_on_disk [OF ok(1) found(7) fl]
    have reg: "?k \<le> 1024" and blocks: "\<And>j. j \<le> ?k \<Longrightarrow> j \<noteq> 0 \<Longrightarrow> ?a + j \<le> nblocks" by (rule fd(1), rule fd(3))
    define r where "r = (if e_size e > mx then mx else e_size e)"
    have ur: "unat r = min (unat mx) (unat (e_size e))" by (auto simp: r_def word_less_nat_alt)
    then have kr: "fblocks r \<le> ?k" unfolding fblocks_def by (intro div_le_mono) simp
    have d: "good (disk s)" using ok(1) by (simp add: disk_ok_def)
    have "read_blocks dev (of_nat ?a) (fblocks r) r (disk s) = (True, take (unat r) (concat (map (blk dev (disk s)) [?a..<?a + fblocks r])))"
      using read_blocks_spec [OF d blocks [OF kr] refl] by (cases "fblocks r = 0") simp_all
    also have "take (unat r) (concat (map (blk dev (disk s)) [?a..<?a + fblocks r])) = take (unat mx) c"
    proof (cases "?k = 0")
      case True
      then show ?thesis using kr by (simp add: c content_def)
    next
      case False
      have "take (unat r) (concat (map (blk dev (disk s)) [?a..<?a + fblocks r])) =
          take (unat r) (concat (map (blk dev (disk s)) [?a..<?a + ?k]))"
      proof (rule take_blocks [OF _ kr])
        show "length (blk dev (disk s) c) = 512" if "c < ?a + ?k" for c
          using that blocks [OF order_refl False] by (intro read_blk(2) [OF d]) simp
        show "unat r \<le> 512 * fblocks r" unfolding fblocks_def by linarith
      qed
      then show ?thesis using ur by (simp add: c content_def)
    qed
    finally have rb: "read_blocks dev (of_nat ?a) (fblocks r) r (disk s) = (True, take (unat mx) c)" .
    have "sb_data_start_block (superblock s) + ucast (e_start_block e) = of_nat ?a"
      using ok(2) by (simp add: sb_ok_def of_nat_unat_u16)
    moreover have "unat (blocks_for r) = fblocks r" using kr reg by (intro unat_blocks_for) simp
    moreover have "length c = unat (e_size e)" using fd(4) c by simp
    moreover have "sint r = int (unat r)" by (rule sint_small) (use fd(2) ur in linarith)
    ultimately show ?thesis
      using found(1) fl ok(3) rb ur by (simp add: fs_read_file_def is_file_def r_def [symmetric] Let_def)
  qed
qed

section \<open>Creating\<close>

lemma new_entry_name:
  assumes "is_cstr name" "length (cstr name) \<le> 23"
  obtains e where "new_entry name ty = Some e" "length (e_name e) = 24" "is_cstr (e_name e)" "name_of e = cstr name"
    "e_type e = ty" "e_size e = 0"
proof -
  let ?n = "cstr name" and ?k = "23 - length (cstr name)"
  have "strncpy (replicate 24 NUL) name 23 = Some (?n @ replicate ?k NUL @ [NUL])"
    using strncpy_eq [of name 23 "replicate 24 NUL"] assms by simp
  moreover have "(?n @ replicate ?k NUL @ [NUL])[23 := NUL] = ?n @ replicate ?k NUL @ [NUL]"
    using assms(2) by (simp add: list_update_append)
  ultimately have e: "new_entry name ty = Some (free_entry\<lparr>e_name := ?n @ replicate ?k NUL @ [NUL], e_type := ty\<rparr>)"
    by (simp add: new_entry_def free_entry_def)
  have "replicate ?k NUL @ [NUL] = NUL # replicate ?k NUL" by (simp add: replicate_append_same)
  then have "cstr (?n @ replicate ?k NUL @ [NUL]) = ?n"
    using cstr_append_NUL [OF cstr_no_NUL, of name] by simp
  then show ?thesis using assms(2) by (intro that [OF e]) (simp_all add: name_of_def free_entry_def)
qed

lemma create_in_slot:
  assumes inv: "fs_inv dev good s" and i: "i < 32" "\<not> live (dir dev (disk s) ! i)"
    and e: "entry_ok (ndata dev) e" "live e" "e_size e = 0" "lookup (dir dev (disk s)) (name_of e) = None"
    and d: "good d" "dir dev d = (dir dev (disk s))[i := e]"
      "\<And>c. c < nblocks \<Longrightarrow> c \<noteq> 1 \<Longrightarrow> c \<noteq> 2 \<Longrightarrow> blk dev d c = blk dev (disk s) c"
  shows "fs_inv dev good (s\<lparr>disk := d\<rparr>)"
    and "fs_abs dev (s\<lparr>disk := d\<rparr>) = (fs_abs dev s)(name_of e \<mapsto> (if is_file e then File [] else Dir))"
    and "card (dom (fs_abs dev s)) < 32"
proof -
  let ?es = "dir dev (disk s)"
  have ok: "disk_ok dev good (disk s)" "fsdir_ok (ndata dev) ?es" "3 \<le> nblocks"
    using inv by (simp_all add: fs_inv_def disk_ok_def)
  have names: "\<forall>j < 32. j \<noteq> i \<longrightarrow> live (?es ! j) \<longrightarrow> name_of (?es ! j) \<noteq> name_of e"
    using e(4) by (simp add: lookup_None)
  have empty: "region e = {}" "entry_blocks e = 0" "content dev d e = []"
    using e(3) by (simp_all add: region_def entry_blocks_def fblocks_def content_def)
  have dir: "fsdir_ok (ndata dev) (dir dev d)"
    unfolding d(2) using ok(2) i(1) e(1) names empty(1) by (intro fsdir_ok_update) simp_all
  have "\<not> is_file (?es ! i)" using i(2) is_file_live by blast
  then have "blocks_sum (dir dev d) = blocks_sum ?es"
    using blocks_sum_update [of i ?es e] i(1) empty(2) d(2) by (simp add: entry_blocks_def)
  then show "fs_inv dev good (s\<lparr>disk := d\<rparr>)"
    using inv dir d(1) d(3) [of 0] by (simp add: fs_inv_def disk_ok_def)
  have "fs_abs dev (s\<lparr>disk := d\<rparr>) = (fs_abs dev s)(name_of e \<mapsto> node_of dev (disk (s\<lparr>disk := d\<rparr>)) e)"
    by (rule fs_abs_update)
      (use fsdir_okD(2) [OF ok(2)] i e(2) names d(2,3) taken_block [OF ok(1)] in simp_all)
  then show "fs_abs dev (s\<lparr>disk := d\<rparr>) = (fs_abs dev s)(name_of e \<mapsto> (if is_file e then File [] else Dir))"
    using empty(3) by (simp add: node_of_def)
  have "{j. j < 32 \<and> live (?es ! j)} \<subset> {..<32}" using i by auto
  then have "card {j. j < 32 \<and> live (?es ! j)} < card {..<32 :: nat}" by (intro psubset_card_mono) simp_all
  then show "card (dom (fs_abs dev s)) < 32"
    using card_dom_lookup [OF fsdir_okD(2) [OF ok(2)]] by (simp add: dom_fs_abs)
qed

end

lemma taken_empty_update:
  assumes "\<not> is_file (es ! i)" "e_size e = 0"
  shows "taken (es[i := e]) = taken es"
proof -
  let ?r = "\<lambda>xs j. if is_file (xs ! j) then region (xs ! j) else {}"
  have t: "taken xs = (\<Union>j < length xs. ?r xs j)" for xs
    unfolding taken_def by (fastforce simp: in_set_conv_nth split: if_splits)
  have "region e = {}" using assms(2) by (simp add: region_def fblocks_def)
  then have "?r (es[i := e]) j = ?r es j" if "j < length es" for j
    using assms(1) that by (cases "i = j") simp_all
  then show ?thesis unfolding t by (intro SUP_cong) simp_all
qed

definition may_create :: "'d block_device_t \<Rightarrow> string \<Rightarrow> u8 \<Rightarrow> 'd fs \<Rightarrow> bool" where
  "may_create dev n ty s \<longleftrightarrow> n \<noteq> [] \<and> length n \<le> 23 \<and> ty \<in> {FS_TYPE_FILE, FS_TYPE_DIR} \<and>
     fs_abs dev s n = None \<and> card (dom (fs_abs dev s)) < 32"

context block_device
begin

lemma create_effect:
  assumes "fs_inv dev good s" "is_cstr name" "length (cstr name) < 4294967296"
  shows "\<exists>r s'. fs_create (Some name) ty s = Some (r, s') \<and> fs_inv dev good s' \<and>
     (if may_create dev (cstr name) ty s
      then r = 0 \<and> fs_abs dev s' = (fs_abs dev s)(cstr name \<mapsto> (if ty = FS_TYPE_FILE then File [] else Dir)) \<and>
        superblock s' = superblock s \<and> taken (dir dev (disk s')) = taken (dir dev (disk s))
      else r = -1 \<and> s' = s)"
proof -
  let ?n = "cstr name" and ?es = "dir dev (disk s)" and ?sb = "superblock s"
  have ok: "disk_ok dev good (disk s)" "sb_ok dev ?sb" "fs_dev s = Some dev"
    using assms(1) by (simp_all add: fs_inv_def)
  have es: "fsdir_ok (ndata dev) ?es" "good (disk s)" "3 \<le> nblocks" "sb_dir_start_block ?sb = 1"
    using ok by (simp_all add: disk_ok_def sb_ok_def)
  have len: "strlen name = Some (of_nat (length ?n))" "unat (of_nat (length ?n) :: u32) = length ?n"
    using strlen_cstr [OF assms(2)] assms(3) by (simp_all add: unat_of_nat_u32)
  have z: "(of_nat (length ?n) :: u32) = 0 \<longleftrightarrow> ?n = []" using len(2) by auto
  have fail: ?thesis if "fs_create (Some name) ty s = Some (-1, s)" "\<not> may_create dev ?n ty s"
    using that assms(1) by simp
  show ?thesis
  proof (cases "?n \<noteq> [] \<and> length ?n \<le> 23 \<and> ty \<in> {FS_TYPE_FILE, FS_TYPE_DIR}")
    case False
    then have "fs_create (Some name) ty s = Some (-1, s)"
      using len z ok(3) by (auto simp: fs_create_def)
    then show ?thesis using False by (intro fail) (auto simp: may_create_def)
  next
    case pre: True
    from ok(1,2) assms(2) show ?thesis
    proof (cases rule: find_entry_cases)
      case (found e i)
      then have "fs_create (Some name) ty s = Some (-1, s)" using len z ok(3) pre by (simp add: fs_create_def)
      then show ?thesis using found by (intro fail) (auto simp: may_create_def fs_abs_def)
    next
      case absent
      from ok(1,2) show ?thesis
      proof (cases rule: free_slot_cases)
        case full
        then have "fs_create (Some name) ty s = Some (-1, s)"
          using absent len z ok(3) pre by (simp add: fs_create_def)
        moreover have "{i. i < 32 \<and> live (?es ! i)} = {..<32}" using full by auto
        then have "card (dom (fs_abs dev s)) = 32"
          using card_dom_lookup [OF fsdir_okD(2) [OF es(1)]] by (simp add: dom_fs_abs)
        ultimately show ?thesis by (intro fail) (auto simp: may_create_def)
      next
        case (slot i)
        obtain e where e: "new_entry name ty = Some e" "length (e_name e) = 24" "is_cstr (e_name e)" "name_of e = ?n"
          "e_type e = ty" "e_size e = 0"
          by (rule new_entry_name [OF assms(2)]) (use pre in simp_all)
        obtain d where d: "fs_write_entry dev ?sb i e (disk s) = Some d" "good d" "dir dev d = ?es[i := e]"
          "\<And>c. c < nblocks \<Longrightarrow> c \<noteq> 1 \<Longrightarrow> c \<noteq> 2 \<Longrightarrow> blk dev d c = blk dev (disk s) c"
          by (rule write_entry [OF es(2-4) slot(2) e(2)]) (rule that)
        have c: "fs_create (Some name) ty s = Some (0, s\<lparr>disk := d\<rparr>)"
          using absent slot len z ok(3) pre e(1) d(1) by (simp add: fs_create_def)
        have ok_e: "entry_ok (ndata dev) e" "live e" "is_file e \<longleftrightarrow> ty = FS_TYPE_FILE"
          using e pre by (auto simp: entry_ok_def placed_def region_def fblocks_def live_def is_file_def)
        have "lookup ?es (name_of e) = None" using absent(2) e(4) by simp
        note cs = create_in_slot [OF assms(1) slot(2,3) ok_e(1,2) e(6) this d(2-4)]
        have "fs_abs dev s ?n = None" using absent(2) by (simp add: fs_abs_def)
        then have "may_create dev ?n ty s" using pre cs(3) by (simp add: may_create_def)
        moreover have "taken (dir dev d) = taken ?es"
          unfolding d(3) by (rule taken_empty_update) (use slot(3) e(6) in \<open>auto dest: is_file_live\<close>)
        ultimately show ?thesis using c cs(1,2) e(4) ok_e(3) by auto
      qed
    qed
  qed
qed

lemma create_spec:
  assumes "fs_inv dev good s" "is_cstr name" "length (cstr name) < 4294967296"
  shows "\<exists>r s'. fs_create (Some name) ty s = Some (r, s') \<and> fs_inv dev good s' \<and>
     (if may_create dev (cstr name) ty s
      then r = 0 \<and> fs_abs dev s' = (fs_abs dev s)(cstr name \<mapsto> (if ty = FS_TYPE_FILE then File [] else Dir))
      else r = -1 \<and> s' = s)"
  using create_effect [OF assms, of ty] by (auto split: if_splits)

section \<open>Writing\<close>

lemma file_blocks_eq:
  assumes "disk_ok dev good d" "e \<in> set (dir dev d)"
  shows "file_blocks e = of_nat (entry_blocks e)"
proof (cases "is_file e")
  case True
  then have "unat (blocks_for (e_size e)) = fblocks (e_size e)"
    using file_on_disk(1) [OF assms] by (intro unat_blocks_for)
  then have "blocks_for (e_size e) = of_nat (fblocks (e_size e))" by (metis of_nat_unat ucast_id)
  moreover have "fblocks 0 = 0" by (simp add: fblocks_def)
  ultimately show ?thesis
    using True by (cases "e_size e = 0") (auto simp: is_file_def entry_blocks_def file_blocks_def word_neq_0_conv)
qed (simp add: is_file_def entry_blocks_def file_blocks_def)

lemma total_used_sum:
  assumes "disk_ok dev good d" "sb_ok dev sb"
  shows "total_used dev sb d = of_nat (blocks_sum (dir dev d))"
proof -
  have ok: "good d" "3 \<le> nblocks" "sb_dir_start_block sb = 1" "fsdir_ok (ndata dev) (dir dev d)"
    using assms by (simp_all add: disk_ok_def sb_ok_def)
  have step: "fold (\<lambda>e n. n + file_blocks e) es n = n + of_nat (blocks_sum es)" if "set es \<subseteq> set (dir dev d)" for es n
    using that by (induction es arbitrary: n) (simp_all add: blocks_sum_def file_blocks_eq [OF assms(1)])
  have "total_used dev sb d = fold (\<lambda>i n. n + file_blocks (dir dev d ! i)) [0..<32] 0"
    unfolding total_used_def using read_entry [OF ok(1-3)] by (intro fold_cong) (auto simp: file_blocks_def)
  also have "\<dots> = fold (\<lambda>e n. n + file_blocks e) (map ((!) (dir dev d)) [0..<32]) 0" by (simp add: fold_map comp_def)
  also have "map ((!) (dir dev d)) [0..<32] = dir dev d" using map_nth [of "dir dev d"] by simp
  finally show ?thesis using step [of "dir dev d" 0] by simp
qed

text \<open>The data written to free blocks and the entry switched over to them.\<close>

lemma write_at_spec:
  assumes inv: "fs_inv dev good s" and e: "i < 32" "dir dev (disk s) ! i = e" "is_file e"
    and st: "st + fblocks sz \<le> pool (ndata dev)" "{st..<st + fblocks sz} \<inter> taken (dir dev (disk s)) = {}"
    and src: "unat sz \<le> length src"
  obtains d1 d2 where "write_blocks dev (3 + of_nat st) (fblocks sz) src sz (disk s) = (True, d1)"
    "fs_write_entry dev (superblock s) i (e\<lparr>e_start_block := ucast (of_nat st :: u32), e_size := sz\<rparr>) d1 = Some d2"
    "disk_ok dev good d2" "fs_abs dev (s\<lparr>disk := d2\<rparr>) = (fs_abs dev s)(name_of e \<mapsto> File (take (unat sz) src))"
proof -
  let ?es = "dir dev (disk s)" and ?k = "fblocks sz"
  let ?e = "e\<lparr>e_start_block := ucast (of_nat st :: u32), e_size := sz\<rparr>"
  have ok: "disk_ok dev good (disk s)" "fsdir_ok (ndata dev) ?es" "3 \<le> nblocks" "good (disk s)"
    "sb_dir_start_block (superblock s) = 1"
    using inv by (simp_all add: fs_inv_def disk_ok_def sb_ok_def)
  have "unat (ndata dev) = nblocks - 3" using ok(3) by (rule ndata_unat)
  moreover have "st + ?k \<le> unat (ndata dev)" "st + ?k \<le> 1024" using st(1) by (simp_all add: pool_def)
  ultimately have fit: "3 + st + ?k \<le> nblocks" "?k \<le> 1024" "st \<le> 1024" using ok(3) by linarith+
  obtain d1 where d1: "write_blocks dev (of_nat (3 + st)) ?k src sz (disk s) = (True, d1)" "good d1"
    "\<And>c. c < nblocks \<Longrightarrow> c \<notin> {3 + st..<3 + st + ?k} \<Longrightarrow> blk dev d1 c = blk dev (disk s) c"
    "take (unat sz) (concat (map (blk dev d1) [3 + st..<3 + st + ?k])) = take (unat sz) src"
    by (rule write_blocks_spec [OF ok(4) fit(1) refl src]) (rule that)
  have dir1: "dir dev d1 = ?es" by (rule dir_cong) (use d1(3) ok(3) in simp_all)
  have mem: "e \<in> set ?es" using e(1,2) nth_mem [of i ?es] by auto
  then have e24: "length (e_name ?e) = 24" "is_cstr (e_name ?e)" using fsdir_okD(4) [OF ok(2)] by simp_all
  obtain d2 where d2: "fs_write_entry dev (superblock s) i ?e d1 = Some d2" "good d2" "dir dev d2 = ?es[i := ?e]"
    "\<And>c. c < nblocks \<Longrightarrow> c \<noteq> 1 \<Longrightarrow> c \<noteq> 2 \<Longrightarrow> blk dev d2 c = blk dev d1 c"
    by (rule write_entry [OF d1(2) ok(3,5) e(1) e24(1), unfolded dir1]) (rule that)
  have u: "unat (ucast (of_nat st :: u32) :: u16) = st"
    using fit(3) by (simp add: unsigned_ucast_eq unat_of_nat_u32 take_bit_nat_eq_self)
  have reg: "region ?e = {st..<st + ?k}" by (simp add: region_def u)
  have type: "is_file ?e" "name_of ?e = name_of e" using e(3) by (simp_all add: is_file_def name_of_def)
  have names: "\<forall>j < 32. j \<noteq> i \<longrightarrow> live (?es ! j) \<longrightarrow> name_of (?es ! j) \<noteq> name_of ?e"
    using fsdir_okD(2) [OF ok(2)] e is_file_live [OF e(3)] type(2) by (auto simp: unique_def)
  have "entry_ok (ndata dev) ?e"
    using e24 e(3) fit(2) st(1) by (auto simp: entry_ok_def placed_def reg is_file_def)
  moreover have "region ?e \<inter> region (?es ! j) = {}" if "j < 32" "is_file (?es ! j)" for j
    using that st(2) region_taken [of "?es ! j" ?es] by (auto simp: reg)
  ultimately have "fsdir_ok (ndata dev) (dir dev d2)"
    unfolding d2(3) using ok(2) e(1) names by (intro fsdir_ok_update) auto
  then have d2_ok: "disk_ok dev good d2" using d2(2) ok(3) by (simp add: disk_ok_def)
  have keep: "blk dev d2 (3 + b) = blk dev (disk s) (3 + b)" if "b \<in> taken ?es" for b
  proof -
    have "b \<notin> {st..<st + ?k}" using st(2) that by blast
    then show ?thesis using d2(4) [of "3 + b"] d1(3) [of "3 + b"] taken_block [OF ok(1) that] by auto
  qed
  have "content dev d2 ?e = take (unat sz) (concat (map (blk dev d2) [3 + st..<3 + st + ?k]))"
    by (simp add: content_def u)
  also have "map (blk dev d2) [3 + st..<3 + st + ?k] = map (blk dev d1) [3 + st..<3 + st + ?k]"
    by (rule map_cong [OF refl], rule d2(4)) (use fit(1) in simp_all)
  finally have "content dev d2 ?e = take (unat sz) src" using d1(4) by simp
  moreover have "fs_abs dev (s\<lparr>disk := d2\<rparr>) = (fs_abs dev s)(name_of ?e \<mapsto> node_of dev (disk (s\<lparr>disk := d2\<rparr>)) ?e)"
    by (rule fs_abs_update)
      (use fsdir_okD(2) [OF ok(2)] e names d2(3) keep is_file_live [OF type(1)] type(2) in simp_all)
  ultimately have "fs_abs dev (s\<lparr>disk := d2\<rparr>) = (fs_abs dev s)(name_of e \<mapsto> File (take (unat sz) src))"
    using type by (simp add: node_of_def)
  moreover have "write_blocks dev (3 + of_nat st) ?k src sz (disk s) = (True, d1)" using d1(1) by simp
  ultimately show ?thesis using that d2(1) d2_ok by blast
qed

end

text \<open>
  Whether \<^verbatim>\<open>fs_write_file\<close> finds room: contiguous free blocks, beside those the file occupies already, among the first 1024 data
  blocks, which is what the allocation map covers (\<open>pool\<close>).
\<close>

definition room :: "'d block_device_t \<Rightarrow> 'd fs \<Rightarrow> u32 \<Rightarrow> bool" where
  "room dev s sz \<longleftrightarrow> fblocks sz = 0 \<or>
     fblocks sz \<le> unat (sb_free_blocks (superblock s)) \<and>
     (\<exists>st. gap (taken (dir dev (disk s))) (pool (ndata dev)) (fblocks sz) st)"

context block_device
begin

text \<open>The free count \<^verbatim>\<open>fs_write_file\<close> recomputes, and the state it leaves.\<close>

lemma recount_commits:
  assumes "disk_ok dev good d" "sb_ok dev (superblock s)" "fs_dev s = Some dev"
    "sb = (superblock s)\<lparr>sb_free_blocks := (if ndata dev > total_used dev (superblock s) d
       then ndata dev - total_used dev (superblock s) d else 0)\<rparr>"
  shows "fs_inv dev good (flush_ignored dev (s\<lparr>superblock := sb, disk := d\<rparr>))"
    and "fs_abs dev (flush_ignored dev (s\<lparr>superblock := sb, disk := d\<rparr>)) = fs_abs dev (s\<lparr>disk := d\<rparr>)"
proof -
  have "blocks_sum (dir dev d) \<le> pool (ndata dev)"
    using assms(1) fsdir_okD by (intro blocks_sum_le) (auto simp: disk_ok_def)
  then have le: "blocks_sum (dir dev d) \<le> unat (ndata dev)" by (simp add: pool_def)
  then have "blocks_sum (dir dev d) < 4294967296" using unat_less_2p32 [of "ndata dev"] by linarith
  then have u: "unat (total_used dev (superblock s) d) = blocks_sum (dir dev d)"
    using total_used_sum [OF assms(1,2)] by (simp add: unat_of_nat_u32)
  then have "blocks_sum (dir dev d) + unat (sb_free_blocks sb) = unat (ndata dev)"
    using le by (auto simp: assms(4) unat_sub word_less_nat_alt word_le_nat_alt)
  moreover have "sb_ok dev sb" using assms(2,4) by (simp add: sb_ok_def)
  ultimately have "fs_inv dev good (flush_ignored dev (s\<lparr>superblock := sb, disk := d\<rparr>))"
    "fs_abs dev (flush_ignored dev (s\<lparr>superblock := sb, disk := d\<rparr>)) = fs_abs dev (s\<lparr>superblock := sb, disk := d\<rparr>)"
    using assms(1,3) by (intro flush_commits; simp)+
  then show "fs_inv dev good (flush_ignored dev (s\<lparr>superblock := sb, disk := d\<rparr>))"
    "fs_abs dev (flush_ignored dev (s\<lparr>superblock := sb, disk := d\<rparr>)) = fs_abs dev (s\<lparr>disk := d\<rparr>)"
    by (simp_all add: fs_abs_def fun_eq_iff)
qed

lemma write_file_spec:
  assumes inv: "fs_inv dev good s" and name: "is_cstr name" and sz: "unat sz \<le> length src" "unat sz + 511 < 4294967296"
  shows "\<exists>r s'. fs_write_file (Some name) (Some src) sz s = (r, s') \<and> fs_inv dev good s' \<and>
     (if (\<exists>c. fs_abs dev s (cstr name) = Some (File c)) \<and> room dev s sz
      then r = 0 \<and> fs_abs dev s' = (fs_abs dev s)(cstr name \<mapsto> File (take (unat sz) src))
      else r = -1 \<and> s' = s)"
proof -
  let ?n = "cstr name" and ?es = "dir dev (disk s)" and ?sb = "superblock s" and ?k = "fblocks sz"
  have ok: "disk_ok dev good (disk s)" "sb_ok dev ?sb" "fs_dev s = Some dev"
    using inv by (simp_all add: fs_inv_def)
  have es: "fsdir_ok (ndata dev) ?es" "good (disk s)" "3 \<le> nblocks" "sb_dir_start_block ?sb = 1" "sb_data_start_block ?sb = 3"
    "ndata dev = sb_total_blocks ?sb - sb_data_start_block ?sb"
    using ok by (simp_all add: disk_ok_def sb_ok_def ndata_def)
  have k: "unat (blocks_for sz) = ?k" "blocks_for sz > 0 \<longleftrightarrow> ?k \<noteq> 0" "blocks_for sz = 0 \<longleftrightarrow> ?k = 0"
    using unat_blocks_for_size [OF sz(2)] by (simp_all add: word_less_nat_alt word_unat_eq_iff [of _ 0])
  have fail: ?thesis if "fs_write_file (Some name) (Some src) sz s = (-1, s)"
    "\<not> ((\<exists>c. fs_abs dev s ?n = Some (File c)) \<and> room dev s sz)"
    using that inv by auto
  from ok(1,2) name show ?thesis
  proof (cases rule: find_entry_cases)
    case absent
    then have "fs_write_file (Some name) (Some src) sz s = (-1, s)" using ok(3) by (simp add: fs_write_file_def)
    then show ?thesis using absent by (intro fail) (auto simp: fs_abs_def)
  next
    case (found e i)
    show ?thesis
    proof (cases "is_file e")
      case False
      then have "fs_write_file (Some name) (Some src) sz s = (-1, s)"
        using found ok(3) by (simp add: fs_write_file_def is_file_def)
      then show ?thesis using found False by (intro fail) (auto simp: fs_abs_def node_of_def)
    next
      case fl: True
      define start where "start = (if blocks_for sz > 0 then fs_alloc_blocks dev ?sb (blocks_for sz) (disk s) else 0)"
      have "(\<exists>st. start = of_nat st \<and> st + ?k \<le> pool (ndata dev) \<and> {st..<st + ?k} \<inter> taken ?es = {}) \<and> room dev s sz \<or>
          start = 0xFFFFFFFF \<and> \<not> room dev s sz"
      proof (cases "?k = 0")
        case True
        then have "start = of_nat 0" using k by (simp add: start_def)
        then show ?thesis using True by (intro disjI1 conjI exI [of _ 0]) (simp_all add: room_def)
      next
        case False
        then have "blocks_for sz \<noteq> 0" using k(3) by simp
        from alloc_blocks [OF es(2-4) es(6) fsdir_okD(1) [OF es(1)] this] False k show ?thesis
          by (auto simp: start_def room_def gap_def word_le_nat_alt word_less_nat_alt)
      qed
      then consider (full) "start = 0xFFFFFFFF" "\<not> room dev s sz"
        | (fits) st where "start = of_nat st" "st + ?k \<le> pool (ndata dev)" "{st..<st + ?k} \<inter> taken ?es = {}" "room dev s sz"
        by blast
      then show ?thesis
      proof cases
        case full
        then have "fs_write_file (Some name) (Some src) sz s = (-1, s)"
          using found fl ok(3) by (simp add: fs_write_file_def is_file_def start_def [symmetric])
        then show ?thesis using full by (intro fail) auto
      next
        case fits
        have "st \<le> 1024" using fits(2) by (simp add: pool_def)
        then have "unat start < unat (0xFFFFFFFF :: u32)" using fits(1) by (simp add: unat_of_nat_u32)
        then have ne: "start \<noteq> 0xFFFFFFFF" by auto
        obtain d1 d2 where w: "write_blocks dev (3 + of_nat st) ?k src sz (disk s) = (True, d1)"
          "fs_write_entry dev ?sb i (e\<lparr>e_start_block := ucast (of_nat st :: u32), e_size := sz\<rparr>) d1 = Some d2"
          "disk_ok dev good d2" "fs_abs dev (s\<lparr>disk := d2\<rparr>) = (fs_abs dev s)(name_of e \<mapsto> File (take (unat sz) src))"
          by (rule write_at_spec [OF inv found(2,3) fl fits(2,3) sz(1)]) (rule that)
        let ?u = "total_used dev ?sb d2"
        let ?s = "s\<lparr>superblock := ?sb\<lparr>sb_free_blocks := if ndata dev > ?u then ndata dev - ?u else 0\<rparr>, disk := d2\<rparr>"
        have "fs_write_file (Some name) (Some src) sz s = (0, flush_ignored dev ?s)"
          using found(1) fl ok(3) ne w(1,2) fits(1) k(1)
          by (simp add: fs_write_file_def is_file_def start_def [symmetric] es(5) ndata_def sb_ok_def [THEN iffD1, OF ok(2)] Let_def)
        moreover have "\<exists>c. fs_abs dev s ?n = Some (File c)" using found(6) fl by (simp add: fs_abs_def node_of_def)
        ultimately show ?thesis
          using recount_commits [OF w(3) ok(2,3) refl] w(4) fits(4) found(5) by auto
      qed
    qed
  qed
qed

end

end
