(* ===== verification/Simplefs_Delete.thy ===== *)
theory Simplefs_Delete
  imports Simplefs_Ops
begin

text \<open>
  Deletion, formatting and mounting, and the theorems on the file system for the RAM disk.
\<close>

section \<open>Deleting\<close>

lemma cstr_nth: "i < length (cstr b) \<Longrightarrow> b ! i = cstr b ! i"
  by (simp add: cstr_def takeWhile_nth)

lemma cstr_end: "is_cstr b \<Longrightarrow> b ! length (cstr b) = NUL"
  by (induction b) auto

lemma is_child_iff:
  assumes "is_cstr (e_name e)" "is_cstr name"
  shows "is_child name (length (cstr name)) e \<longleftrightarrow> prefix (cstr name @ ''/'') (name_of e)"
proof -
  let ?p = "length (cstr name)" and ?c = "cstr (e_name e)"
  have cmp: "strncmp (e_name e) name ?p = Some 0 \<longleftrightarrow> take ?p ?c = cstr name"
    using strncmp_eq_0_iff [OF assms, of ?p] by simp
  have at: "e_name e ! ?p = CHR ''/'' \<longleftrightarrow> ?p < length ?c \<and> ?c ! ?p = CHR ''/''" if "take ?p ?c = cstr name"
  proof -
    have "?p \<le> length ?c" using arg_cong [OF that, of length] by simp
    then consider "?p < length ?c" | "?p = length ?c" by linarith
    then show ?thesis using cstr_nth [of ?p "e_name e"] cstr_end [OF assms(1)] by cases auto
  qed
  have "prefix (cstr name @ ''/'') ?c \<longleftrightarrow> take ?p ?c = cstr name \<and> ?p < length ?c \<and> ?c ! ?p = CHR ''/''"
  proof
    assume "prefix (cstr name @ ''/'') ?c"
    then obtain r where "?c = cstr name @ CHR ''/'' # r" by (auto elim: prefixE)
    then show "take ?p ?c = cstr name \<and> ?p < length ?c \<and> ?c ! ?p = CHR ''/''" by (metis append_eq_conv_conj length_append length_Cons less_add_same_cancel1 nth_append_length zero_less_Suc)
  next
    assume "take ?p ?c = cstr name \<and> ?p < length ?c \<and> ?c ! ?p = CHR ''/''"
    then have "take (Suc ?p) ?c = cstr name @ ''/''" by (simp add: take_Suc_conv_app_nth)
    then show "prefix (cstr name @ ''/'') ?c" by (metis take_is_prefix)
  qed
  then show ?thesis using cmp at by (auto simp: is_child_def name_of_def)
qed

context block_device
begin

lemma delete_children:
  assumes "disk_ok dev good d" "sb_ok dev sb" "k \<le> 32" "P = (\<lambda>e. live e \<and> is_child name p e)"
  shows "\<exists>d'. fold (delete_child dev sb name p) [0..<k] (f, d) =
      (f + of_nat (sum_list (map entry_blocks (filter P (take k (dir dev d))))), d') \<and> good d' \<and>
      dir dev d' = clear_where P (take k (dir dev d)) @ drop k (dir dev d) \<and>
      (\<forall>c < nblocks. c \<noteq> 1 \<longrightarrow> c \<noteq> 2 \<longrightarrow> blk dev d' c = blk dev d c)"
  using assms(3)
proof (induction k)
  case 0
  then show ?case using assms(1) by (simp add: clear_where_def disk_ok_def)
next
  case (Suc k)
  let ?es = "dir dev d"
  have k: "k < 32" "k \<le> 32" using Suc.prems by simp_all
  from Suc.IH [OF k(2)] obtain d' where
    d': "fold (delete_child dev sb name p) [0..<k] (f, d) = (f + of_nat (sum_list (map entry_blocks (filter P (take k ?es)))), d')"
      "good d'" "dir dev d' = clear_where P (take k ?es) @ drop k ?es"
      "\<And>c. c < nblocks \<Longrightarrow> c \<noteq> 1 \<Longrightarrow> c \<noteq> 2 \<Longrightarrow> blk dev d' c = blk dev d c"
    by blast
  have len: "length (clear_where P (take k ?es)) = k" using k by (simp add: clear_where_def)
  have drop: "drop k ?es = ?es ! k # drop (Suc k) ?es" using k by (simp add: Cons_nth_drop_Suc)
  have take: "take (Suc k) ?es = take k ?es @ [?es ! k]" using k by (simp add: take_Suc_conv_app_nth)
  have sb: "sb_dir_start_block sb = 1" "3 \<le> nblocks" using assms(1,2) by (simp_all add: disk_ok_def sb_ok_def)
  have "dir dev d' ! k = ?es ! k" unfolding d'(3) drop using len by (simp add: nth_append)
  then have read: "fs_read_entry dev sb k d' = Some (?es ! k)" using read_entry [OF d'(2) sb(2,1) k(1)] by simp
  show ?case
  proof (cases "P (?es ! k)")
    case False
    then have "delete_child dev sb name p k (f', d') = (f', d')" for f'
      using read by (auto simp: delete_child_def assms(4) live_def)
    then show ?thesis
      using d' False by (intro exI [of _ d']) (auto simp: take clear_where_def drop)
  next
    case True
    obtain d2 where d2: "fs_write_entry dev sb k free_entry d' = Some d2" "good d2" "dir dev d2 = (dir dev d')[k := free_entry]"
      "\<And>c. c < nblocks \<Longrightarrow> c \<noteq> 1 \<Longrightarrow> c \<noteq> 2 \<Longrightarrow> blk dev d2 c = blk dev d' c"
      by (rule write_entry [OF d'(2) sb(2,1) k(1) free_entry_simps(5)]) (rule that)
    have "file_blocks (?es ! k) = of_nat (entry_blocks (?es ! k))"
      using k(1) by (intro file_blocks_eq [OF assms(1)]) simp
    then have "delete_child dev sb name p k (f', d') = (f' + of_nat (entry_blocks (?es ! k)), d2)" for f'
      using read True d2(1) by (auto simp: delete_child_def assms(4) live_def)
    moreover have "dir dev d2 = clear_where P (take (Suc k) ?es) @ drop (Suc k) ?es"
      unfolding d2(3) d'(3) drop using len True by (simp add: list_update_append take clear_where_def)
    ultimately show ?thesis
      using d' True d2(2,4) by (intro exI [of _ d2]) (auto simp: take add.assoc)
  qed
qed

text \<open>The part of \<^verbatim>\<open>fs_delete\<close> before the entry itself is cleared.\<close>

lemma delete_sweep:
  assumes "disk_ok dev good d" "sb_ok dev sb" "is_cstr name" "length (cstr name) < 4294967296" "e \<in> set (dir dev d)"
    "P = (\<lambda>x. e_type e = FS_TYPE_DIR \<and> live x \<and> prefix (cstr name @ ''/'') (name_of x))"
  shows "\<exists>d'. (if e_type e = FS_TYPE_DIR
       then strlen name \<bind> (\<lambda>p. Some (fold (delete_child dev sb name (unat p)) [0..<FS_MAX_ENTRIES] (file_blocks e, d)))
       else Some (file_blocks e, d)) =
      Some (of_nat (entry_blocks e + sum_list (map entry_blocks (filter P (dir dev d)))), d') \<and>
    good d' \<and> dir dev d' = clear_where P (dir dev d) \<and> (\<forall>c < nblocks. c \<noteq> 1 \<longrightarrow> c \<noteq> 2 \<longrightarrow> blk dev d' c = blk dev d c)"
proof (cases "e_type e = FS_TYPE_DIR")
  case False
  then have "P = (\<lambda>_. False)" by (simp add: assms(6))
  then show ?thesis
    using False assms(1) file_blocks_eq [OF assms(1,5)] by (simp add: clear_where_def disk_ok_def)
next
  case True
  define P' where "P' = (\<lambda>x. live x \<and> is_child name (length (cstr name)) x)"
  have eq: "P' x \<longleftrightarrow> P x" if "x \<in> set (dir dev d)" for x
    using is_child_iff [OF _ assms(3)] fsdir_okD(4) that assms(1) True by (auto simp: P'_def assms(6) disk_ok_def)
  then have "clear_where P' (dir dev d) = clear_where P (dir dev d)" "filter P' (dir dev d) = filter P (dir dev d)"
    by (auto simp: clear_where_def intro: filter_cong)
  moreover have "strlen name = Some (of_nat (length (cstr name)))" "unat (of_nat (length (cstr name)) :: u32) = length (cstr name)"
    using strlen_cstr [OF assms(3)] assms(4) by (simp_all add: unat_of_nat_u32)
  ultimately show ?thesis
    using True delete_children [OF assms(1,2) order_refl P'_def, of "file_blocks e"] file_blocks_eq [OF assms(1,5)] by simp
qed

end

text \<open>What deleting \<open>n\<close> removes: \<open>n\<close>, and below a directory every path that starts with its name and a slash.\<close>

definition doomed :: "(string \<rightharpoonup> node) \<Rightarrow> string \<Rightarrow> string \<Rightarrow> bool" where
  "doomed M n m \<longleftrightarrow> m = n \<or> M n = Some Dir \<and> prefix (n @ ''/'') m"

lemma clear_then_self:
  assumes "unique es" "i < length es" "live (es ! i)" "\<not> P (es ! i)" "\<And>x. P x \<Longrightarrow> live x"
  shows "(clear_where P es)[i := free_entry] = clear_where (\<lambda>x. live x \<and> (name_of x = name_of (es ! i) \<or> P x)) es"
proof (rule nth_equalityI)
  fix j assume "j < length ((clear_where P es)[i := free_entry])"
  then have j: "j < length es" by (simp add: clear_where_def)
  show "(clear_where P es)[i := free_entry] ! j = clear_where (\<lambda>x. live x \<and> (name_of x = name_of (es ! i) \<or> P x)) es ! j"
  proof (cases "j = i")
    case True
    then show ?thesis using j assms(3) by (simp add: clear_where_def)
  next
    case False
    then have "\<not> (live (es ! j) \<and> name_of (es ! j) = name_of (es ! i))" using assms(1-3) j by (auto simp: unique_def)
    then show ?thesis using False j assms(5) by (auto simp: clear_where_def)
  qed
qed (simp add: clear_where_def)

context block_device
begin

lemma cleared_abs:
  assumes "disk_ok dev good (disk s)" "dir dev d = clear_where P (dir dev (disk s))"
    "\<And>x. live x \<Longrightarrow> P x \<longleftrightarrow> name_of x \<in> N" "\<And>c. c < nblocks \<Longrightarrow> c \<noteq> 1 \<Longrightarrow> c \<noteq> 2 \<Longrightarrow> blk dev d c = blk dev (disk s) c"
  shows "fs_abs dev (s\<lparr>disk := d\<rparr>) = (\<lambda>m. if m \<in> N then None else fs_abs dev s m)"
proof (rule ext)
  fix m
  let ?es = "dir dev (disk s)"
  have u: "unique ?es" using assms(1) fsdir_okD(2) by (auto simp: disk_ok_def)
  have "node_of dev d x = node_of dev (disk s) x" if "lookup ?es m = Some x" for x
  proof -
    have "blk dev d (3 + b) = blk dev (disk s) (3 + b)" if "b \<in> region x" "is_file x" for b
      using assms(4) taken_block [OF assms(1)] region_taken [of x ?es] lookup_set [OF \<open>lookup ?es m = Some x\<close>] that by auto
    then have "content dev d x = content dev (disk s) x" if "is_file x" using that by (intro content_cong) blast
    then show ?thesis by (simp add: node_of_def)
  qed
  then show "fs_abs dev (s\<lparr>disk := d\<rparr>) m = (if m \<in> N then None else fs_abs dev s m)"
    using lookup_clear [OF u assms(3)] assms(2)
    by (cases "lookup ?es m") (simp_all add: fs_abs_def)
qed

lemma delete_spec:
  assumes inv: "fs_inv dev good s" and name: "is_cstr name" "length (cstr name) < 4294967296"
  shows "\<exists>r s'. fs_delete (Some name) s = Some (r, s') \<and> fs_inv dev good s' \<and>
     (if fs_abs dev s (cstr name) = None then r = -1 \<and> s' = s
      else r = 0 \<and> fs_abs dev s' = (\<lambda>m. if doomed (fs_abs dev s) (cstr name) m then None else fs_abs dev s m))"
proof -
  let ?n = "cstr name" and ?es = "dir dev (disk s)" and ?sb = "superblock s"
  have ok: "disk_ok dev good (disk s)" "sb_ok dev ?sb" "fs_dev s = Some dev"
    using inv by (simp_all add: fs_inv_def)
  have es: "fsdir_ok (ndata dev) ?es" "3 \<le> nblocks" "sb_dir_start_block ?sb = 1"
    using ok by (simp_all add: disk_ok_def sb_ok_def)
  from ok(1,2) name(1) show ?thesis
  proof (cases rule: find_entry_cases)
    case absent
    then show ?thesis using ok(3) inv by (simp add: fs_delete_def fs_abs_def)
  next
    case (found e i)
    define P where "P = (\<lambda>x. e_type e = FS_TYPE_DIR \<and> live x \<and> prefix (?n @ ''/'') (name_of x))"
    define freed where "freed = entry_blocks e + sum_list (map entry_blocks (filter P ?es))"
    obtain d1 where d1: "(if e_type e = FS_TYPE_DIR
         then strlen name \<bind> (\<lambda>p. Some (fold (delete_child dev ?sb name (unat p)) [0..<FS_MAX_ENTRIES] (file_blocks e, disk s)))
         else Some (file_blocks e, disk s)) = Some (of_nat freed, d1)"
      "good d1" "dir dev d1 = clear_where P ?es" "\<And>c. c < nblocks \<Longrightarrow> c \<noteq> 1 \<Longrightarrow> c \<noteq> 2 \<Longrightarrow> blk dev d1 c = blk dev (disk s) c"
      using delete_sweep [OF ok(1,2) name found(7) P_def] unfolding freed_def by blast
    obtain d2 where d2: "fs_write_entry dev ?sb i free_entry d1 = Some d2" "good d2" "dir dev d2 = (clear_where P ?es)[i := free_entry]"
      "\<And>c. c < nblocks \<Longrightarrow> c \<noteq> 1 \<Longrightarrow> c \<noteq> 2 \<Longrightarrow> blk dev d2 c = blk dev d1 c"
      by (rule write_entry [OF d1(2) es(2,3) found(2) free_entry_simps(5), unfolded d1(3)]) (rule that)
    have Pe: "\<not> P e" using found(5) by (auto simp: P_def prefix_def)
    let ?Q = "\<lambda>x. live x \<and> (name_of x = ?n \<or> P x)"
    have dir2: "dir dev d2 = clear_where ?Q ?es"
    proof -
      have "live (?es ! i)" "\<not> P (?es ! i)" "name_of (?es ! i) = ?n" using found(3-5) Pe by simp_all
      moreover have "live x" if "P x" for x using that by (simp add: P_def)
      ultimately show ?thesis
        unfolding d2(3) using clear_then_self [OF fsdir_okD(2) [OF es(1)], of i P] found(2) by simp
    qed
    let ?s = "s\<lparr>superblock := ?sb\<lparr>sb_free_blocks := sb_free_blocks ?sb + of_nat freed\<rparr>, disk := d2\<rparr>"
    have del: "fs_delete (Some name) s = Some (0, flush_ignored dev ?s)"
      using found(1) ok(3) d1(1) d2(1) by (simp add: fs_delete_def Let_def)
    have "blocks_sum (dir dev d2) + freed = blocks_sum ?es"
      using blocks_sum_update [of i "clear_where P ?es" free_entry] blocks_sum_clear [of P ?es] found(2,3) Pe
      unfolding d2(3) freed_def by (simp add: clear_where_def)
    moreover have sum: "blocks_sum ?es + unat (sb_free_blocks ?sb) = unat (ndata dev)" using inv by (simp add: fs_inv_def)
    ultimately have le: "unat (sb_free_blocks ?sb) + freed < 4294967296" "freed < 4294967296"
      using unat_less_2p32 [of "ndata dev"] by linarith+
    then have "unat (sb_free_blocks ?sb + of_nat freed) = unat (sb_free_blocks ?sb) + freed"
      using unat_add_lem [THEN iffD1, of "sb_free_blocks ?sb" "of_nat freed"] by (simp add: unat_of_nat_u32)
    then have "blocks_sum (dir dev (disk ?s)) + unat (sb_free_blocks (superblock ?s)) = unat (ndata dev)"
      using sum \<open>blocks_sum (dir dev d2) + freed = blocks_sum ?es\<close> by simp
    moreover have "disk_ok dev good (disk ?s)" "sb_ok dev (superblock ?s)"
      using d2(2) dir2 fsdir_ok_clear [OF es(1)] es(2) ok(2) by (simp_all add: disk_ok_def sb_ok_def)
    ultimately have com: "fs_inv dev good (flush_ignored dev ?s)" "fs_abs dev (flush_ignored dev ?s) = fs_abs dev ?s"
      using ok(3) by (intro flush_commits; simp)+
    have n: "fs_abs dev s ?n = Some (node_of dev (disk s) e)" using found(6) by (simp add: fs_abs_def)
    have "placed (ndata dev) e" using fsdir_okD(1) [OF es(1)] found(7) by blast
    then have "fs_abs dev s ?n = Some Dir \<longleftrightarrow> e_type e = FS_TYPE_DIR"
      using n found(4) by (auto simp: node_of_def is_file_def placed_def live_def)
    then have "fs_abs dev (s\<lparr>disk := d2\<rparr>) = (\<lambda>m. if m \<in> {m. doomed (fs_abs dev s) ?n m} then None else fs_abs dev s m)"
      by (intro cleared_abs [OF ok(1) dir2]) (use d1(4) d2(4) in \<open>auto simp: doomed_def P_def\<close>)
    moreover have "fs_abs dev ?s = fs_abs dev (s\<lparr>disk := d2\<rparr>)" by (simp add: fs_abs_def fun_eq_iff)
    ultimately show ?thesis using del com n by simp
  qed
qed

section \<open>Mounting\<close>

lemma mount_spec:
  assumes "fs_inv dev good s"
  shows "fs_init (Some dev) (s\<lparr>fs_dev := x, superblock := y\<rparr>) = (0, s)"
proof -
  have ok: "good (disk s)" "0 < nblocks" "fs_dev s = Some dev" "sb_magic (superblock s) = FS_MAGIC"
    "blk dev (disk s) 0 = bytes_of_superblock (superblock s)"
    using assms by (auto simp: fs_inv_def disk_ok_def sb_ok_def)
  from read_blk(1) [OF ok(1,2)] have "dev_read dev 0 (disk s) = Some (bytes_of_superblock (superblock s))"
    by (simp add: ok(5))
  then show ?thesis using ok(3,4) by (simp add: fs_init_def superblock_roundtrip)
qed

lemma zero_slot: "k < 16 \<Longrightarrow> entry_of_bytes (slot (replicate 512 0) k) = free_entry"
proof -
  assume "k < 16"
  then have "slot (replicate 512 0) k = replicate 32 0" by (simp add: slot_def min_def)
  moreover have "char_of (0 :: nat) = NUL" by (simp add: char_of_def)
  ultimately show ?thesis by (simp add: entry_of_bytes_def free_entry_def u32_at_def u16_at_def)
qed

lemma format_spec:
  assumes "good (disk s)" "3 \<le> nblocks" "fs_dev s = Some dev"
  shows "\<exists>s'. fs_format dev s = (0, s') \<and> fs_inv dev good s' \<and> fs_abs dev s' = Map.empty"
proof -
  define sb where "sb = \<lparr>sb_magic = FS_MAGIC, sb_version = FS_VERSION, sb_total_blocks = total_blocks dev,
      sb_free_blocks = total_blocks dev - 3, sb_dir_start_block = 1, sb_dir_block_count = 2,
      sb_data_start_block = 3, sb_first_free_block = 0, sb_reserved = replicate 480 0\<rparr>"
  have len: "length (bytes_of_superblock sb) = 512" by (rule length_superblock) (simp add: sb_def)
  have b: "0 < nblocks" "1 < nblocks" "2 < nblocks" using assms(2) by simp_all
  obtain d0 where d0: "dev_write dev (of_nat 0) (bytes_of_superblock sb) (disk s) = Some d0" "good d0"
    "\<And>c. c < nblocks \<Longrightarrow> blk dev d0 c = (if c = 0 then bytes_of_superblock sb else blk dev (disk s) c)"
    by (rule write_blk [OF assms(1) b(1) len]) (rule that)
  have z: "length (replicate 512 (0 :: u8)) = 512" by simp
  obtain d1 where d1: "dev_write dev (of_nat 1) (replicate 512 0) d0 = Some d1" "good d1"
    "\<And>c. c < nblocks \<Longrightarrow> blk dev d1 c = (if c = 1 then replicate 512 0 else blk dev d0 c)"
    by (rule write_blk [OF d0(2) b(2) z]) (rule that)
  obtain d2 where d2: "dev_write dev (of_nat 2) (replicate 512 0) d1 = Some d2" "good d2"
    "\<And>c. c < nblocks \<Longrightarrow> blk dev d2 c = (if c = 2 then replicate 512 0 else blk dev d1 c)"
    by (rule write_blk [OF d1(2) b(3) z]) (rule that)
  let ?s = "s\<lparr>superblock := sb, disk := d2\<rparr>"
  have f: "fs_format dev s = (0, ?s)"
    using d0(1) d1(1) d2(1) by (simp add: fs_format_def fs_flush_superblock_def sb_def Let_def)
  have blocks: "blk dev d2 0 = bytes_of_superblock sb" "blk dev d2 1 = replicate 512 0" "blk dev d2 2 = replicate 512 0"
    using d0(3) d1(3) d2(3) b by simp_all
  have "dir dev d2 ! i = free_entry" if "i < 32" for i
  proof -
    have "i div 16 = 0 \<or> i div 16 = 1" using that by linarith
    then have "blk dev d2 (1 + i div 16) = replicate 512 0" using blocks by (auto simp: numeral_2_eq_2)
    then show ?thesis using that zero_slot [of "i mod 16"] by (simp add: nth_dir)
  qed
  then have dir: "dir dev d2 = replicate 32 free_entry" by (simp add: list_eq_iff_nth_eq)
  have "fsdir_ok (ndata dev) (dir dev d2)" by (simp add: dir fsdir_ok_def unique_def apart_def)
  moreover have "blocks_sum (dir dev d2) = 0" by (simp add: dir blocks_sum_def sum_list_replicate)
  ultimately have "fs_inv dev good ?s"
    using d2(2) assms(2,3) blocks(1) by (simp add: fs_inv_def disk_ok_def sb_ok_def ndata_def sb_def)
  moreover have "fs_abs dev ?s = Map.empty"
    by (rule ext) (simp add: fs_abs_def dir lookup_None)
  ultimately show ?thesis using f by blast
qed

lemma init_spec:
  assumes "good (disk s)" "3 \<le> nblocks" "sb_magic (superblock_of_bytes (blk dev (disk s) 0)) \<noteq> FS_MAGIC"
  shows "\<exists>s'. fs_init (Some dev) s = (0, s') \<and> fs_inv dev good s' \<and> fs_abs dev s' = Map.empty"
proof -
  have "0 < nblocks" using assms(2) by simp
  from read_blk(1) [OF assms(1) this] have "dev_read dev 0 (disk s) = Some (blk dev (disk s) 0)" by simp
  then have "fs_init (Some dev) s = fs_format dev (s\<lparr>fs_dev := Some dev, superblock := superblock_of_bytes (blk dev (disk s) 0)\<rparr>)"
    using assms(3) by (simp add: fs_init_def)
  then show ?thesis using format_spec assms(1,2) by simp
qed

end

end
