(* ===== verification/Filesystem.thy ===== *)
theory Filesystem
  imports Simplefs_Delete Klog_Props
begin

text \<open>
  The theorems on the file system of \<^verbatim>\<open>fs/simplefs.c\<close> over the RAM disk of \<^verbatim>\<open>fs/ramdisk.c\<close>, and the part of
  \<^verbatim>\<open>klog_flush_to_file\<close> that stores the log in a file.
\<close>

section \<open>The file system on the RAM disk\<close>

abbreviation rfs_inv :: "u32 \<Rightarrow> ramdisk fs \<Rightarrow> bool" where
  "rfs_inv n \<equiv> fs_inv (ramdisk_dev n) (ramdisk_good n)"

abbreviation rfs_abs :: "u32 \<Rightarrow> ramdisk fs \<Rightarrow> string \<rightharpoonup> node" where
  "rfs_abs n \<equiv> fs_abs (ramdisk_dev n)"

text \<open>The log file: \<^verbatim>\<open>klog_flush_to_file\<close> after its text is built.\<close>

definition klog_flush_to_file :: "string option \<Rightarrow> klog_t \<Rightarrow> 'd fs \<Rightarrow> (int \<times> 'd fs) option" where
  "klog_flush_to_file filename k s =
     (if filename = None then Some (-1, s)
      else if snd (klog_get_stats k) = 0 then Some (0, s)
      else do {
        let data = map of_char (flush_text k);
        (r, s) \<leftarrow> (if fs_stat filename s = None then fs_create filename FS_TYPE_FILE s else Some (0, s));
        if r \<noteq> 0 then Some (-1, s)
        else let (r, s) = fs_write_file filename (Some (data @ [0])) (of_nat (length data)) s
             in Some (if r \<noteq> 0 then -1 else 0, s)
      })"

section \<open>A file system right after boot\<close>

definition boot_fs :: "ramdisk fs" where
  "boot_fs = snd (fs_init (Some (ramdisk_dev 128))
     \<lparr>fs_dev = None, superblock = superblock_of_bytes (replicate 512 0), disk = snd (ramdisk_init 64 boot_ramdisk)\<rparr>)"

lemma boot_fs: "rfs_inv 128 boot_fs" "rfs_abs 128 boot_fs = Map.empty"
proof -
  obtain n d where i: "ramdisk_init 64 boot_ramdisk = (Some (ramdisk_dev n), d)" and g: "ramdisk_good n d" "unat n = 128"
    and z: "\<And>b. b < n \<Longrightarrow> ramdisk_read b d = Some (replicate 512 0)"
    by (rule boot_ramdisk_init [of 64]) simp_all
  have n: "n = 128" using g(2) by (simp add: word_unat_eq_iff)
  let ?s = "\<lparr>fs_dev = None, superblock = superblock_of_bytes (replicate 512 0), disk = d\<rparr>"
  have "blk (ramdisk_dev 128) d 0 = replicate 512 0" using z [of 0] n by (simp add: blk_def ramdisk_dev_def)
  then have "sb_magic (superblock_of_bytes (blk (ramdisk_dev 128) (disk ?s) 0)) \<noteq> FS_MAGIC"
    by (simp add: superblock_of_bytes_def u32_at_def)
  moreover have "3 \<le> unat (total_blocks (ramdisk_dev 128))" by (simp add: ramdisk_dev_def)
  ultimately have "\<exists>s'. fs_init (Some (ramdisk_dev 128)) ?s = (0, s') \<and> rfs_inv 128 s' \<and> rfs_abs 128 s' = Map.empty"
    using g(1) n by (intro rd.init_spec) simp_all
  then show "rfs_inv 128 boot_fs" "rfs_abs 128 boot_fs = Map.empty" using i by (auto simp: boot_fs_def)
qed

text \<open>While all files are empty the whole pool is free.\<close>

lemma room_while_empty:
  assumes "rfs_inv n s" "\<And>m c. rfs_abs n s m = Some (File c) \<Longrightarrow> c = []" "fblocks sz \<le> pool (ndata (ramdisk_dev n))"
  shows "room (ramdisk_dev n) s sz"
proof -
  let ?dev = "ramdisk_dev n" and ?es = "dir (ramdisk_dev n) (disk s)"
  have ok: "disk_ok ?dev (ramdisk_good n) (disk s)" "unique ?es"
    using assms(1) fsdir_okD(2) by (auto simp: fs_inv_def disk_ok_def)
  have empty: "e_size e = 0" if "e \<in> set ?es" "is_file e" for e
  proof -
    obtain i where "i < length ?es" "?es ! i = e" using \<open>e \<in> set ?es\<close> by (auto simp: in_set_conv_nth)
    then have "lookup ?es (name_of e) = Some e" using lookup_iff [OF ok(2)] is_file_live [OF that(2)] by blast
    then have "rfs_abs n s (name_of e) = Some (File (content ?dev (disk s) e))"
      using that(2) by (simp add: fs_abs_def node_of_def)
    then have "content ?dev (disk s) e = []" by (rule assms(2))
    then show ?thesis using rd.file_on_disk(4) [OF ok(1) that] by (simp add: word_unat_eq_iff)
  qed
  then have "region e = {}" if "e \<in> set ?es" "is_file e" for e
    using that by (simp add: region_def fblocks_def)
  then have t: "taken ?es = {}" by (auto simp: taken_def)
  have "blocks_sum ?es = 0" using empty by (auto simp: blocks_sum_def entry_blocks_def fblocks_def)
  then have "unat (sb_free_blocks (superblock s)) = unat (ndata ?dev)" using assms(1) by (simp add: fs_inv_def)
  moreover have "gap (taken ?es) (pool (ndata ?dev)) (fblocks sz) 0" using assms(3) by (simp add: gap_def t)
  moreover have "pool (ndata ?dev) \<le> unat (ndata ?dev)" by (simp add: pool_def)
  ultimately show ?thesis using assms(3) unfolding room_def by (intro disjI2 conjI exI [of _ 0]) auto
qed

text \<open>A file system with one empty file.\<close>

definition note_fs :: "ramdisk fs" where
  "note_fs = snd (the (fs_create (Some (''note'' @ [NUL])) FS_TYPE_FILE boot_fs))"

lemma cstr_note: "is_cstr (''note'' @ [NUL])" "cstr (''note'' @ [NUL]) = ''note''"
  by simp_all

lemma note_fs: "rfs_inv 128 note_fs" "rfs_abs 128 note_fs = [''note'' \<mapsto> File []]"
proof -
  have may: "may_create (ramdisk_dev 128) ''note'' FS_TYPE_FILE boot_fs" by (simp add: may_create_def boot_fs)
  from rd.create_spec [OF boot_fs(1) cstr_note(1), of FS_TYPE_FILE] may
  show "rfs_inv 128 note_fs" "rfs_abs 128 note_fs = [''note'' \<mapsto> File []]"
    unfolding note_fs_def by (auto simp: boot_fs(2))
qed

section \<open>Theorems\<close>

text \<open>(C8) Writing a file, for a size of at most \<^verbatim>\<open>0xFFFFFE00\<close> (beyond it the rounding to blocks wraps around): on a well-formed file
  system \<^verbatim>\<open>fs_write_file\<close> of an existing file returns 0 when the size is 0, or when the free count covers the blocks and the first 1024 data
  blocks, which are all the allocator looks at, contain a contiguous free run of them; it then replaces the contents of that file by the
  given bytes and changes no other file or directory, and \<^verbatim>\<open>fs_read_file\<close> returns these bytes (cut to the reader's limit).  For a missing
  name, a directory or a lack of room it returns -1 and leaves the state as it was.\<close>

theorem fs_write_read:
  assumes "rfs_inv n s" "is_cstr name" "unat sz \<le> length data" "unat sz + 511 < 4294967296"
  shows "\<exists>r s'. fs_write_file (Some name) (Some data) sz s = (r, s') \<and> rfs_inv n s' \<and>
     (if (\<exists>c. rfs_abs n s (cstr name) = Some (File c)) \<and> room (ramdisk_dev n) s sz
      then r = 0 \<and> rfs_abs n s' = (rfs_abs n s)(cstr name \<mapsto> File (take (unat sz) data)) \<and>
        (\<forall>mx. fs_read_file (Some name) mx s' = (int (min (unat mx) (unat sz)), take (min (unat mx) (unat sz)) data))
      else r = -1 \<and> s' = s)"
proof -
  from rd.write_file_spec [OF assms] obtain r s' where
    w: "fs_write_file (Some name) (Some data) sz s = (r, s')" "rfs_inv n s'"
      "if (\<exists>c. rfs_abs n s (cstr name) = Some (File c)) \<and> room (ramdisk_dev n) s sz
       then r = 0 \<and> rfs_abs n s' = (rfs_abs n s)(cstr name \<mapsto> File (take (unat sz) data)) else r = -1 \<and> s' = s"
    by blast
  have "fs_read_file (Some name) mx s' = (int (min (unat mx) (unat sz)), take (min (unat mx) (unat sz)) data)"
    if "rfs_abs n s' (cstr name) = Some (File (take (unat sz) data))" for mx
    using rd.read_file_spec [OF w(2) assms(2) that, of mx] assms(3) by (simp add: min_def)
  with w show ?thesis by auto
qed

theorem fs_write_read_witness:
  "\<exists>s'. fs_write_file (Some (''note'' @ [NUL])) (Some [1, 2, 3]) 3 note_fs = (0, s') \<and>
     fs_read_file (Some (''note'' @ [NUL])) 2 s' = (2, [1, 2])"
proof -
  have "c = []" if "rfs_abs 128 note_fs m = Some (File c)" for m c using that by (simp add: note_fs(2) split: if_splits)
  moreover have "fblocks 3 \<le> pool (ndata (ramdisk_dev 128))"
    by (simp add: fblocks_def pool_def ndata_def ramdisk_dev_def)
  ultimately have room: "room (ramdisk_dev 128) note_fs 3" by (rule room_while_empty [OF note_fs(1)])
  from fs_write_read [OF note_fs(1) cstr_note(1), of 3 "[1, 2, 3]"] room show ?thesis
    by (auto simp: note_fs(2))
qed

text \<open>(C13) Creating: \<^verbatim>\<open>fs_create\<close> returns and adds exactly the given name, as an empty file or a directory, when the name has
  1 to 23 characters, is new and one of the 32 slots is free; otherwise it returns -1 and leaves the state as it was.\<close>

theorem fs_create_refines:
  assumes "rfs_inv n s" "is_cstr name" "length (cstr name) < 4294967296"
  shows "\<exists>r s'. fs_create (Some name) ty s = Some (r, s') \<and> rfs_inv n s' \<and>
     (if may_create (ramdisk_dev n) (cstr name) ty s
      then r = 0 \<and> rfs_abs n s' = (rfs_abs n s)(cstr name \<mapsto> (if ty = FS_TYPE_FILE then File [] else Dir))
      else r = -1 \<and> s' = s)"
  by (rule rd.create_spec [OF assms])

theorem fs_create_refines_witness:
  "(\<exists>s'. fs_create (Some (''d'' @ [NUL])) FS_TYPE_DIR note_fs = Some (0, s') \<and>
      rfs_abs 128 s' = [''note'' \<mapsto> File [], ''d'' \<mapsto> Dir]) \<and>
   fs_create (Some (''note'' @ [NUL])) FS_TYPE_FILE note_fs = Some (-1, note_fs)"
proof
  have "may_create (ramdisk_dev 128) ''d'' FS_TYPE_DIR note_fs" by (simp add: may_create_def note_fs(2))
  then show "\<exists>s'. fs_create (Some (''d'' @ [NUL])) FS_TYPE_DIR note_fs = Some (0, s') \<and>
      rfs_abs 128 s' = [''note'' \<mapsto> File [], ''d'' \<mapsto> Dir]"
    using fs_create_refines [OF note_fs(1), of "''d'' @ [NUL]" FS_TYPE_DIR] by (auto simp: note_fs(2))
  show "fs_create (Some (''note'' @ [NUL])) FS_TYPE_FILE note_fs = Some (-1, note_fs)"
    using fs_create_refines [OF note_fs(1) cstr_note(1), of FS_TYPE_FILE] by (simp add: may_create_def note_fs(2))
qed

text \<open>(C10) Deleting: \<^verbatim>\<open>fs_delete\<close> of a file removes that name only, of a directory also every name below it (the directory's
  name, a slash, anything); all other files keep their contents, and the blocks freed are counted free again.  A name that
  does not exist gives -1 and no change.\<close>

theorem fs_delete_refines:
  assumes "rfs_inv n s" "is_cstr name" "length (cstr name) < 4294967296"
  shows "\<exists>r s'. fs_delete (Some name) s = Some (r, s') \<and> rfs_inv n s' \<and>
     (if rfs_abs n s (cstr name) = None then r = -1 \<and> s' = s
      else r = 0 \<and> rfs_abs n s' = (\<lambda>m. if doomed (rfs_abs n s) (cstr name) m then None else rfs_abs n s m))"
  by (rule rd.delete_spec [OF assms])

theorem fs_delete_refines_witness:
  "\<exists>s'. fs_delete (Some (''note'' @ [NUL])) note_fs = Some (0, s') \<and> rfs_abs 128 s' = Map.empty"
  using fs_delete_refines [OF note_fs(1) cstr_note(1)] by (auto simp: note_fs(2) doomed_def fun_eq_iff)

text \<open>(C12) Mounting: \<^verbatim>\<open>fs_init\<close> on the device of a well-formed file system restores its state exactly, whatever the
  memory of the kernel held, so files survive a remount; on a device of at least three blocks without the magic number it
  formats, leaving a well-formed empty file system.\<close>

theorem fs_init_mounts:
  shows "(rfs_inv n s \<longrightarrow> fs_init (Some (ramdisk_dev n)) (s\<lparr>fs_dev := x, superblock := y\<rparr>) = (0, s)) \<and>
     (ramdisk_good n (disk s) \<and> 3 \<le> unat n \<and> sb_magic (superblock_of_bytes (blk (ramdisk_dev n) (disk s) 0)) \<noteq> FS_MAGIC \<longrightarrow>
       (\<exists>s'. fs_init (Some (ramdisk_dev n)) s = (0, s') \<and> rfs_inv n s' \<and> rfs_abs n s' = Map.empty))"
  using rd.mount_spec [of n s, where x = x and y = y] rd.init_spec [of n s] by (simp add: ramdisk_dev_def)

theorem fs_init_mounts_witness:
  "fs_init (Some (ramdisk_dev 128)) (note_fs\<lparr>fs_dev := None, superblock := superblock_of_bytes (replicate 512 0)\<rparr>) = (0, note_fs)"
  using fs_init_mounts [of 128 note_fs] note_fs(1) by blast

section \<open>The log file\<close>

lemma fs_stat_abs:
  assumes "rfs_inv n s" "is_cstr name"
  shows "fs_stat (Some name) s = None \<longleftrightarrow> rfs_abs n s (cstr name) = None"
proof -
  have "disk_ok (ramdisk_dev n) (ramdisk_good n) (disk s)" "sb_ok (ramdisk_dev n) (superblock s)" "fs_dev s = Some (ramdisk_dev n)"
    using assms(1) by (simp_all add: fs_inv_def)
  from this(1,2) assms(2) show ?thesis
    by (cases rule: rd.find_entry_cases) (simp_all add: fs_stat_def fs_abs_def \<open>fs_dev s = _\<close>)
qed

text \<open>Whether the flush of a text of this length can succeed: the file is there or can be created, and there is room.\<close>

definition may_flush :: "u32 \<Rightarrow> string \<Rightarrow> nat \<Rightarrow> ramdisk fs \<Rightarrow> bool" where
  "may_flush n name len s \<longleftrightarrow>
     (may_create (ramdisk_dev n) name FS_TYPE_FILE s \<or> (\<exists>c. rfs_abs n s name = Some (File c))) \<and> room (ramdisk_dev n) s (of_nat len)"

lemma flush_writes:
  assumes "rfs_inv n s" "is_cstr name" "length t \<le> 4095"
  shows "\<exists>r s'. fs_write_file (Some name) (Some (map of_char t @ [0])) (of_nat (length t)) s = (r, s') \<and> rfs_inv n s' \<and>
     (if (\<exists>c. rfs_abs n s (cstr name) = Some (File c)) \<and> room (ramdisk_dev n) s (of_nat (length t))
      then r = 0 \<and> rfs_abs n s' = (rfs_abs n s)(cstr name \<mapsto> File (map of_char t)) else r = -1 \<and> s' = s)"
proof -
  have u: "unat (of_nat (length t) :: u32) = length t" using assms(3) by (simp add: unat_of_nat_u32)
  have "unat (of_nat (length t) :: u32) \<le> length (map of_char t @ [0 :: u8])" using u by simp
  moreover have "unat (of_nat (length t) :: u32) + 511 < 4294967296" using u assms(3) by simp
  moreover have t: "take (unat (of_nat (length t) :: u32)) (map of_char t @ [0 :: u8]) = map of_char t" unfolding u by simp
  ultimately show ?thesis
    using rd.write_file_spec [OF assms(1,2), of "of_nat (length t)" "map of_char t @ [0]", unfolded t] by blast
qed

text \<open>The file after the first half: there, created, or impossible.\<close>

lemma flush_creates:
  assumes "rfs_inv n s" "is_cstr name" "length (cstr name) < 4294967296"
  obtains (there) x where "fs_stat (Some name) s \<noteq> None" "rfs_abs n s (cstr name) = Some x" "\<not> may_create (ramdisk_dev n) (cstr name) FS_TYPE_FILE s"
  | (made) s1 where "fs_stat (Some name) s = None" "fs_create (Some name) FS_TYPE_FILE s = Some (0, s1)" "rfs_inv n s1"
      "may_create (ramdisk_dev n) (cstr name) FS_TYPE_FILE s" "rfs_abs n s1 = (rfs_abs n s)(cstr name \<mapsto> File [])"
      "\<And>sz. room (ramdisk_dev n) s1 sz = room (ramdisk_dev n) s sz"
  | (failed) "fs_stat (Some name) s = None" "fs_create (Some name) FS_TYPE_FILE s = Some (-1, s)" "rfs_abs n s (cstr name) = None"
      "\<not> may_create (ramdisk_dev n) (cstr name) FS_TYPE_FILE s"
proof (cases "rfs_abs n s (cstr name)")
  case None
  then have stat: "fs_stat (Some name) s = None" using fs_stat_abs [OF assms(1,2)] by simp
  show thesis
  proof (cases "may_create (ramdisk_dev n) (cstr name) FS_TYPE_FILE s")
    case True
    with rd.create_effect [OF assms, of FS_TYPE_FILE] obtain s1 where
      "fs_create (Some name) FS_TYPE_FILE s = Some (0, s1)" "rfs_inv n s1" "rfs_abs n s1 = (rfs_abs n s)(cstr name \<mapsto> File [])"
      "superblock s1 = superblock s" "taken (dir (ramdisk_dev n) (disk s1)) = taken (dir (ramdisk_dev n) (disk s))"
      by auto
    then show thesis using stat True by (intro made [of s1]) (simp_all add: room_def)
  next
    case False
    with rd.create_effect [OF assms, of FS_TYPE_FILE] show thesis using stat None by (intro failed) auto
  qed
next
  case (Some x)
  then show thesis using fs_stat_abs [OF assms(1,2)] by (intro there) (simp_all add: may_create_def)
qed

text \<open>(C37) Saving the log: \<^verbatim>\<open>klog_flush_to_file\<close> returns and keeps the file system well formed.  For an empty log it returns 0 and
  changes nothing.  Otherwise it succeeds exactly when the file exists or can be created and there is room for the text; the file then
  holds exactly the flushed text and nothing else changes.  When it fails it returns -1 and the only change is, if the file could be
  created, an empty file of that name.\<close>

theorem klog_flush_stores:
  assumes "rfs_inv n s" "is_cstr name" "length (cstr name) < 4294967296" "klog_inv k"
  shows "\<exists>r s'. klog_flush_to_file (Some name) k s = Some (r, s') \<and> rfs_inv n s' \<and>
     (if klog_size k = 0 then r = 0 \<and> s' = s
      else if may_flush n (cstr name) (length (flush_text k)) s
      then r = 0 \<and> rfs_abs n s' = (rfs_abs n s)(cstr name \<mapsto> File (map of_char (flush_text k)))
      else r = -1 \<and> (if may_create (ramdisk_dev n) (cstr name) FS_TYPE_FILE s
                     then rfs_abs n s' = (rfs_abs n s)(cstr name \<mapsto> File []) else s' = s))"
proof (cases "klog_size k = 0")
  case True
  then show ?thesis using assms(1) by (simp add: klog_flush_to_file_def klog_get_stats_def)
next
  case False
  have len: "length (flush_text k) \<le> 4095" unfolding flush_text_loop [OF assms(4)] by (rule flush_loop_bound) simp
  note run = klog_flush_to_file_def klog_get_stats_def
  from assms(1-3) show ?thesis
  proof (cases rule: flush_creates)
    case (there x)
    from flush_writes [OF assms(1,2) len] there False show ?thesis by (auto simp: run may_flush_def split: if_splits)
  next
    case (made s1)
    from flush_writes [OF made(3) assms(2) len] made False show ?thesis by (auto simp: run may_flush_def split: if_splits)
  next
    case failed
    then show ?thesis using False assms(1) by (simp add: run may_flush_def)
  qed
qed

theorem klog_flush_stores_witness:
  "\<exists>k s'. klog KLOG_WARN ''up'' [] empty_log = Inr k \<and> klog_flush_to_file (Some (''note'' @ [NUL])) k boot_fs = Some (0, s') \<and>
     rfs_abs 128 s' = [''note'' \<mapsto> File (map of_char (''[WARN]  0 up'' @ [CHR 0x0A]))]"
proof -
  obtain k where k: "klog KLOG_WARN ''up'' [] empty_log = Inr k" "klog_inv k" "length (klog_abs k) = 1"
    "concat (map log_line (klog_abs k)) = ''[WARN]  0 up'' @ [CHR 0x0A]"
    by (rule one_message)
  have "cut_lines (concat (map log_line (klog_abs k))) (flush_text k)"
    unfolding flush_text_loop [OF k(2)] using flush_loop_cut [of "[]" "klog_abs k"] by simp
  then have t: "flush_text k = ''[WARN]  0 up'' @ [CHR 0x0A]" unfolding k(4) by (simp add: cut_lines_def)
  have ne: "klog_size k \<noteq> 0"
  proof
    assume "klog_size k = 0"
    then have "log_count k = 0" by (simp add: klog_size_def split: if_splits)
    then show False using length_klog_abs [OF k(2)] k(3) by simp
  qed
  have "fblocks 13 \<le> pool (ndata (ramdisk_dev 128))" by (simp add: fblocks_def pool_def ndata_def ramdisk_dev_def)
  then have "room (ramdisk_dev 128) boot_fs 13" by (intro room_while_empty [OF boot_fs(1)]) (simp_all add: boot_fs(2))
  then have "may_flush 128 ''note'' (length (flush_text k)) boot_fs" by (simp add: may_flush_def may_create_def boot_fs(2) t)
  with klog_flush_stores [OF boot_fs(1) cstr_note(1) _ k(2)] ne k(1) t show ?thesis by (auto simp: boot_fs(2))
qed

end
