(* ===== verification/Elf.thy ===== *)
theory Elf
  imports Task_Entry Filesystem Kmalloc
begin

text \<open>
  The program loader of \<^verbatim>\<open>kernel/exec/elf.c\<close>.  The file is a list of bytes in a buffer of its own (the kernel
  heap, which the frames handed out by the physical memory manager never overlap); reading past its end has no result.
  The loader works on the virtual memory state and on the whole kernel state; the messages it sends to the kernel log are the
  list of its \<^verbatim>\<open>klog\<close> calls.
\<close>

section \<open>File format\<close>

abbreviation PT_LOAD :: u32 where "PT_LOAD \<equiv> 1"
abbreviation PF_W :: u32 where "PF_W \<equiv> 2"
abbreviation ET_EXEC :: u16 where "ET_EXEC \<equiv> 2"
abbreviation EM_386 :: u16 where "EM_386 \<equiv> 3"
abbreviation ELFCLASS32 :: u8 where "ELFCLASS32 \<equiv> 1"
abbreviation ELFDATA2LSB :: u8 where "ELFDATA2LSB \<equiv> 1"
abbreviation ELF_MAX_FILE_SIZE :: u32 where "ELF_MAX_FILE_SIZE \<equiv> 0x40000"
abbreviation sizeof_ehdr :: u32 where "sizeof_ehdr \<equiv> 52"
abbreviation sizeof_phdr :: u32 where "sizeof_phdr \<equiv> 32"

record elf32_ehdr_t =
  e_ident :: "u8 list"
  e_kind :: u16
  e_machine :: u16
  e_version :: u32
  e_entry :: u32
  e_phoff :: u32
  e_shoff :: u32
  e_flags :: u32
  e_ehsize :: u16
  e_phentsize :: u16
  e_phnum :: u16
  e_shentsize :: u16
  e_shnum :: u16
  e_shstrndx :: u16

record elf32_phdr_t =
  p_type :: u32
  p_offset :: u32
  p_vaddr :: u32
  p_paddr :: u32
  p_filesz :: u32
  p_memsz :: u32
  p_flags :: u32
  p_align :: u32

definition ehdr_of_bytes :: "u8 list \<Rightarrow> elf32_ehdr_t" where
  "ehdr_of_bytes b =
     \<lparr>e_ident = take 16 b, e_kind = u16_at 16 b, e_machine = u16_at 18 b, e_version = u32_at 20 b, e_entry = u32_at 24 b,
      e_phoff = u32_at 28 b, e_shoff = u32_at 32 b, e_flags = u32_at 36 b, e_ehsize = u16_at 40 b, e_phentsize = u16_at 42 b,
      e_phnum = u16_at 44 b, e_shentsize = u16_at 46 b, e_shnum = u16_at 48 b, e_shstrndx = u16_at 50 b\<rparr>"

definition phdr_of_bytes :: "u8 list \<Rightarrow> elf32_phdr_t" where
  "phdr_of_bytes b =
     \<lparr>p_type = u32_at 0 b, p_offset = u32_at 4 b, p_vaddr = u32_at 8 b, p_paddr = u32_at 12 b, p_filesz = u32_at 16 b,
      p_memsz = u32_at 20 b, p_flags = u32_at 24 b, p_align = u32_at 28 b\<rparr>"

text \<open>The program header \<^verbatim>\<open>file + e_phoff + i * e_phentsize\<close>, where the buffer holds it.\<close>

definition phdr_at :: "u8 list \<Rightarrow> elf32_ehdr_t \<Rightarrow> nat \<Rightarrow> elf32_phdr_t option" where
  "phdr_at file ehdr i =
     (let off = unat (e_phoff ehdr + of_nat i * ucast (e_phentsize ehdr) :: u32)
      in if off + 32 \<le> length file then Some (phdr_of_bytes (take 32 (drop off file))) else None)"

definition elf_validate :: "u8 list option \<Rightarrow> u32 \<Rightarrow> int" where
  "elf_validate buf sz =
     (case buf of
        None \<Rightarrow> -1
      | Some b \<Rightarrow>
          if sz < sizeof_ehdr then -1
          else
            let ehdr = ehdr_of_bytes b; ident = e_ident ehdr
            in if ident ! 0 \<noteq> 0x7F \<or> ident ! 1 \<noteq> 0x45 \<or> ident ! 2 \<noteq> 0x4C \<or> ident ! 3 \<noteq> 0x46 then -1
               else if ident ! 4 \<noteq> ELFCLASS32 then -1
               else if ident ! 5 \<noteq> ELFDATA2LSB then -1
               else if e_kind ehdr \<noteq> ET_EXEC then -1
               else if e_machine ehdr \<noteq> EM_386 then -1
               else if e_phoff ehdr = 0 \<or> e_phnum ehdr = 0 then -1
               else if ucast (e_phentsize ehdr) < sizeof_phdr then -1
               else if e_phoff ehdr + ucast (e_phnum ehdr) * ucast (e_phentsize ehdr) > sz then -1
               else if e_entry ehdr = 0 then -1
               else 0)"

section \<open>Segments\<close>

type_synonym klog_call = "klog_level_t \<times> string \<times> va list"

text \<open>\<^verbatim>\<open>memcpy\<close> of bytes from another buffer into memory.\<close>

definition copy_in :: "u32 \<Rightarrow> u8 list \<Rightarrow> pmem \<Rightarrow> pmem" where
  "copy_in dest bs m = fold (\<lambda>i m. m(dest + of_nat i := bs ! i)) [0..<length bs] m"

text \<open>One page of a segment: allocate, zero, copy what the file has of it, map.\<close>

definition load_page ::
  "u8 list \<Rightarrow> elf32_phdr_t \<Rightarrow> u32 \<Rightarrow> u32 \<Rightarrow> nat \<Rightarrow> u32 \<Rightarrow> vm \<Rightarrow> (int \<times> vm \<times> klog_call list) option" where
  "load_page file phdr flags pdir i vpage s =
     (let (phys, s) = vm_alloc_page s
      in if phys = 0 then Some (-1, s, [(KLOG_ERROR, ''ELF: out of physical memory mapping segment %d'', [VInt (of_nat i)])])
         else
           let m = memset phys 0 PAGE_SIZE (mem s);
               page_start = vpage; page_end = vpage + PAGE_SIZE;
               file_va_start = p_vaddr phdr; file_va_end = p_vaddr phdr + p_filesz phdr;
               copy_start = (if file_va_start > page_start then file_va_start else page_start);
               copy_end = (if file_va_end < page_end then file_va_end else page_end)
           in if copy_start < copy_end then
                let dst_offset = copy_start - page_start;
                    file_offset = p_offset phdr + (copy_start - p_vaddr phdr);
                    copy_len = copy_end - copy_start
                in if unat file_offset + unat copy_len \<le> length file then
                     Some (0, paging_map_page_in pdir vpage phys flags
                       (s\<lparr>mem := copy_in (phys + dst_offset) (take (unat copy_len) (drop (unat file_offset) file)) m\<rparr>), [])
                   else None
              else Some (0, paging_map_page_in pdir vpage phys flags (s\<lparr>mem := m\<rparr>), []))"

fun load_pages ::
  "u8 list \<Rightarrow> elf32_phdr_t \<Rightarrow> u32 \<Rightarrow> u32 \<Rightarrow> nat \<Rightarrow> u32 list \<Rightarrow> vm \<Rightarrow> (int \<times> vm \<times> klog_call list) option" where
  "load_pages file phdr flags pdir i [] s = Some (0, s, [])"
| "load_pages file phdr flags pdir i (vpage # vpages) s = do {
     (r, s, l) \<leftarrow> load_page file phdr flags pdir i vpage s;
     if r \<noteq> 0 then Some (r, s, l) else load_pages file phdr flags pdir i vpages s
   }"

text \<open>The pages \<^verbatim>\<open>seg_start\<close>, \<^verbatim>\<open>seg_start + PAGE_SIZE\<close>, ... below \<^verbatim>\<open>seg_end\<close>; both are page aligned.\<close>

definition seg_start :: "elf32_phdr_t \<Rightarrow> u32" where
  "seg_start phdr = p_vaddr phdr AND PAGE_FRAME_MASK"

definition seg_end :: "elf32_phdr_t \<Rightarrow> u32" where
  "seg_end phdr = (p_vaddr phdr + p_memsz phdr + PAGE_SIZE - 1) AND PAGE_FRAME_MASK"

definition seg_pages :: "elf32_phdr_t \<Rightarrow> u32 list" where
  "seg_pages phdr =
     map (\<lambda>k. seg_start phdr + of_nat k * PAGE_SIZE) [0..<(unat (seg_end phdr) - unat (seg_start phdr)) div 4096]"

definition load_segment ::
  "u8 list \<Rightarrow> u32 \<Rightarrow> elf32_phdr_t \<Rightarrow> u32 \<Rightarrow> nat \<Rightarrow> vm \<Rightarrow> (int \<times> vm \<times> klog_call list) option" where
  "load_segment file sz phdr pdir i s =
     (if p_type phdr \<noteq> PT_LOAD then Some (0, s, [])
      else if p_memsz phdr = 0 then Some (0, s, [])
      else if p_filesz phdr > p_memsz phdr then Some (-1, s, [])
      else if p_offset phdr + p_filesz phdr > sz then Some (-1, s, [])
      else if p_vaddr phdr < 0x1000000 then
        Some (-1, s, [(KLOG_ERROR, ''ELF: segment vaddr 0x%x overlaps kernel'', [VInt (p_vaddr phdr)])])
      else
        let flags = PAGE_PRESENT OR PAGE_USER;
            flags = (if p_flags phdr AND PF_W \<noteq> 0 then flags OR PAGE_WRITABLE else flags)
        in load_pages file phdr flags pdir i (seg_pages phdr) s)"

fun load_segments_loop ::
  "u8 list \<Rightarrow> u32 \<Rightarrow> elf32_ehdr_t \<Rightarrow> u32 \<Rightarrow> nat list \<Rightarrow> vm \<Rightarrow> (int \<times> vm \<times> klog_call list) option" where
  "load_segments_loop file sz ehdr pdir [] s = Some (0, s, [])"
| "load_segments_loop file sz ehdr pdir (i # is) s = do {
     phdr \<leftarrow> phdr_at file ehdr i;
     (r, s, l) \<leftarrow> load_segment file sz phdr pdir i s;
     if r \<noteq> 0 then Some (r, s, l) else load_segments_loop file sz ehdr pdir is s
   }"

definition load_segments ::
  "u8 list \<Rightarrow> u32 \<Rightarrow> elf32_ehdr_t \<Rightarrow> u32 \<Rightarrow> vm \<Rightarrow> (int \<times> vm \<times> klog_call list) option" where
  "load_segments file sz ehdr pdir s = load_segments_loop file sz ehdr pdir [0..<unat (e_phnum ehdr)] s"

section \<open>Arguments\<close>

abbreviation ARGV_MAX_TOTAL :: u32 where "ARGV_MAX_TOTAL \<equiv> 3840"

definition total_str :: "string list \<Rightarrow> u32 option" where
  "total_str argv = fold (\<lambda>s t. do { t \<leftarrow> t; len \<leftarrow> strlen s; Some (t + (len + 1)) }) argv (Some 0)"

text \<open>
  The loop that copies the strings, from the last to the first: the lowest string's address, the virtual address of each
  string in the order written, and memory.
\<close>

fun put_args :: "u32 \<Rightarrow> string list \<Rightarrow> u32 \<Rightarrow> pmem \<Rightarrow> (u32 \<times> u32 list \<times> pmem) option" where
  "put_args page_top [] str_cursor m = Some (str_cursor, [], m)"
| "put_args page_top (str # rest) str_cursor m = do {
     len \<leftarrow> strlen str;
     let str_cursor = str_cursor - (len + 1);
     let m = copy_in str_cursor (map of_char (take (unat (len + 1)) str)) m;
     let virt = USER_STACK_TOP - (page_top - str_cursor);
     (c, vs, m) \<leftarrow> put_args page_top rest str_cursor m;
     Some (c, virt # vs, m)
   }"

text \<open>The address table \<^verbatim>\<open>virt_addrs\<close> has 64 places; more arguments have no defined result.\<close>

definition setup_user_stack_args ::
  "u32 \<Rightarrow> string list option \<Rightarrow> int \<Rightarrow> pmem \<Rightarrow> (u32 \<times> pmem \<times> klog_call list) option" where
  "setup_user_stack_args ustack_phys argv argc m =
     (case argv of
        None \<Rightarrow> Some (USER_STACK_TOP, m, [])
      | Some argv \<Rightarrow>
          if argc \<le> 0 then Some (USER_STACK_TOP, m, [])
          else if nat argc > length argv then None
          else do {
            let args = take (nat argc) argv;
            let page_top = ustack_phys + PAGE_SIZE;
            total_str \<leftarrow> total_str args;
            let ptr_space = (word_of_int argc + 1 + 1 + 1) * 4;
            if total_str + ptr_space > ARGV_MAX_TOTAL then
              Some (USER_STACK_TOP, m,
                [(KLOG_ERROR, ''ELF: argv too large (%u + %u > %u)'', [VInt total_str, VInt ptr_space, VInt ARGV_MAX_TOTAL])])
            else if nat argc > 64 then None
            else do {
              (str_cursor, virt_addrs, m) \<leftarrow> put_args page_top (rev args) page_top m;
              let slot = str_cursor AND NOT 3;
              let (slot, m) = push_words (0 # virt_addrs) slot m;
              let argv_virt = USER_STACK_TOP - (page_top - slot);
              let (slot, m) = push_words [argv_virt, word_of_int argc] slot m;
              Some (USER_STACK_TOP - (page_top - slot), m, [])
            }
          })"

section \<open>Loading\<close>

definition with_vm :: "os \<Rightarrow> vm \<Rightarrow> os" where
  "with_vm s v = s\<lparr>kvm := v\<rparr>"

text \<open>The result is the task, the kernel state and the log calls; the name is a C string.\<close>

definition elf_load_internal ::
  "symbols \<Rightarrow> u8 list \<Rightarrow> u32 \<Rightarrow> string \<Rightarrow> string list option \<Rightarrow> int \<Rightarrow> os \<Rightarrow> (tref option \<times> os \<times> klog_call list) option" where
  "elf_load_internal sy buf sz task_name argv argc s =
     (if elf_validate (Some buf) sz \<noteq> 0 then
        Some (None, s, [(KLOG_ERROR, ''ELF: invalid header for '' @ [CHR 39] @ ''%s'' @ [CHR 39], [VStr (Some task_name)])])
      else do {
        let ehdr = ehdr_of_bytes buf;
        let l0 = [(KLOG_INFO, ''ELF: loading '' @ [CHR 39] @ ''%s'' @ [CHR 39] @ '' entry=0x%x phnum=%d argc=%d'',
                   [VStr (Some task_name), VInt (e_entry ehdr), VInt (ucast (e_phnum ehdr)), VInt (word_of_int argc)])];
        let (pdir, v) = paging_clone_directory (kvm s);
        if pdir = 0 then Some (None, with_vm s v, l0 @ [(KLOG_ERROR, ''ELF: failed to clone page directory'', [])])
        else do {
          (r, v, l1) \<leftarrow> load_segments buf sz ehdr pdir v;
          if r \<noteq> 0 then
            Some (None, with_vm s (paging_free_directory pdir v),
              l0 @ l1 @ [(KLOG_ERROR, ''ELF: failed to load segments for '' @ [CHR 39] @ ''%s'' @ [CHR 39], [VStr (Some task_name)])])
          else
            let (ustack_phys, v) = vm_alloc_page v
            in if ustack_phys = 0 then
                 Some (None, with_vm s (paging_free_directory pdir v),
                   l0 @ l1 @ [(KLOG_ERROR, ''ELF: failed to allocate user stack'', [])])
               else do {
                 let v = v\<lparr>mem := memset ustack_phys 0 PAGE_SIZE (mem v)\<rparr>;
                 let v = paging_map_page_in pdir USER_STACK_VIRT ustack_phys (PAGE_PRESENT OR PAGE_WRITABLE OR PAGE_USER) v;
                 (user_esp, m, l2) \<leftarrow> setup_user_stack_args ustack_phys argv argc (mem v);
                 (t, s) \<leftarrow> task_create_user_mapped sy (e_entry ehdr) task_name pdir pdir user_esp (with_vm s (v\<lparr>mem := m\<rparr>));
                 case t of
                   None \<Rightarrow>
                     Some (None, with_vm s (paging_free_directory pdir (kvm s)),
                       l0 @ l1 @ l2 @ [(KLOG_ERROR, ''ELF: failed to create task for '' @ [CHR 39] @ ''%s'' @ [CHR 39], [VStr (Some task_name)])])
                 | Some t \<Rightarrow>
                     Some (Some t, s,
                       l0 @ l1 @ l2 @ [(KLOG_INFO, ''ELF: spawned task '' @ [CHR 39] @ ''%s'' @ [CHR 39] @
                           '' (tid=%d, entry=0x%x, cr3=0x%x, esp=0x%x)'',
                         [VStr (Some task_name), VInt (t_id (tasks s t)), VInt (e_entry ehdr), VInt pdir, VInt user_esp])])
               }
        }
      })"

definition elf_exec_mem ::
  "symbols \<Rightarrow> u8 list option \<Rightarrow> u32 \<Rightarrow> string option \<Rightarrow> string list option \<Rightarrow> int \<Rightarrow> os \<Rightarrow>
   (tref option \<times> os \<times> klog_call list) option" where
  "elf_exec_mem sy buf sz task_name argv argc s =
     (case (buf, task_name) of
        (Some b, Some name) \<Rightarrow> if sz = 0 then Some (None, s, []) else elf_load_internal sy b sz name argv argc s
      | _ \<Rightarrow> Some (None, s, []))"

text \<open>
  \<^verbatim>\<open>elf_exec\<close> uses the file system and the kernel heap beside the task state; the buffer it reads the file into is
  released on every path.
\<close>

definition elf_exec ::
  "symbols \<Rightarrow> string option \<Rightarrow> string option \<Rightarrow> string list option \<Rightarrow> int \<Rightarrow> 'd fs \<Rightarrow> heap \<Rightarrow> os \<Rightarrow>
   (tref option \<times> heap \<times> os \<times> klog_call list) option" where
  "elf_exec sy filename task_name argv argc f h s =
     (case (filename, task_name) of
        (Some fname, Some name) \<Rightarrow>
          let q = [CHR 39]
          in case fs_stat filename f of
               None \<Rightarrow> Some (None, h, s, [(KLOG_ERROR, ''ELF: file '' @ q @ ''%s'' @ q @ '' not found'', [VStr filename])])
             | Some e \<Rightarrow>
                 if e_size e = 0 \<or> e_size e > ELF_MAX_FILE_SIZE then
                   Some (None, h, s, [(KLOG_ERROR, ''ELF: file '' @ q @ ''%s'' @ q @ '' size %u invalid (max %u)'',
                     [VStr filename, VInt (e_size e), VInt ELF_MAX_FILE_SIZE])])
                 else do {
                   (buf, h) \<leftarrow> kmalloc (e_size e) h;
                   if buf = 0 then
                     Some (None, h, s, [(KLOG_ERROR, ''ELF: failed to allocate %u bytes for '' @ q @ ''%s'' @ q,
                       [VInt (e_size e), VStr filename])])
                   else
                     let (n, bytes) = fs_read_file filename (e_size e) f
                     in if n < 0 \<or> n < 52 then do {
                          h \<leftarrow> kfree buf h;
                          Some (None, h, s, [(KLOG_ERROR, ''ELF: failed to read '' @ q @ ''%s'' @ q @ '' (got %d bytes)'',
                            [VStr filename, VInt (word_of_int n)])])
                        }
                        else do {
                          (t, s, l) \<leftarrow> elf_load_internal sy bytes (word_of_int n) name argv argc s;
                          h \<leftarrow> kfree buf h;
                          Some (t, h, s, l)
                        }
                 }
      | _ \<Rightarrow> Some (None, h, s, []))"

end
