(* ===== verification/Elf_Props.thy ===== *)
theory Elf_Props
  imports Elf
begin

text \<open>
  What the program loader leaves in memory.  \<open>proc_byte\<close> is the byte a process reads at a virtual address.  Loading a
  segment makes the process read the file's bytes and zeros where the segment says; it writes only to the pages of the new
  address space and to pages that were free, which \<open>grows\<close> states.  The argument block on the user stack is
  described by what the program finds there.
\<close>

section \<open>Bytes of a page\<close>

lemma write32_apply: "k < 4 \<Longrightarrow> write32 a w m (a + of_nat k) = ucast (drop_bit (8 * k) w)"
proof -
  assume "k < 4"
  then consider "k = 0" | "k = 1" | "k = 2" | "k = 3" by fastforce
  then show ?thesis by cases (simp_all add: write32_def)
qed

lemma read32_bytes:
  assumes "read32 m' a = read32 m a" "k < 4"
  shows "m' (a + of_nat k) = m (a + of_nat k)"
  using write32_apply [OF assms(2), of a] assms(1) by (metis write32_read32)

lemma page_bytes:
  assumes "\<And>i. i < 1024 \<Longrightarrow> entry m' t i = entry m t i" "j < 4096"
  shows "m' (t + of_nat j) = m (t + of_nat j)"
proof -
  have "of_nat j = of_nat (4 * (j div 4)) + (of_nat (j mod 4) :: u32)"
    unfolding of_nat_add [symmetric] by simp
  moreover have "j div 4 < 1024" using assms(2) by simp
  ultimately show ?thesis
    using read32_bytes [of m' "t + of_nat (4 * (j div 4))" m "j mod 4"] assms(1) [of "j div 4"] by (simp add: entry_def add.assoc)
qed

lemma copy_in_apply:
  "length bs \<le> 4294967296 \<Longrightarrow> copy_in a bs m x = (if unat (x - a) < length bs then bs ! unat (x - a) else m x)"
  unfolding copy_in_def by (rule fold_write_apply)

lemma unat_minus_less:
  "k \<le> 4096 \<Longrightarrow> n \<le> 4096 \<Longrightarrow> unat (y - of_nat k :: u32) < n \<longleftrightarrow> k \<le> unat y \<and> unat y < k + n"
  by (auto simp: unat_sub_if' unat_of_nat_u32)

lemma frame_offset: "page_aligned p \<Longrightarrow> p OR (v AND 0xFFF) = p + (v AND 0xFFF)"
proof -
  assume p: "page_aligned p"
  have f: "\<not> bit (0xFFF :: u32) n" if "\<not> n < 12" for n using is_flags_simps(4) that unfolding is_flags_def by simp
  have "p AND (v AND 0xFFF) = 0"
  proof (rule bit_word_eqI)
    show "bit (p AND (v AND 0xFFF)) n = bit (0 :: u32) n" for n
      using p f [of n] by (cases "n < 12") (auto simp: bit_and_iff page_aligned_iff)
  qed
  then show ?thesis by (simp add: disjunctive_add_eq_or)
qed

lemma page_offset_small: "unat (v AND 0xFFF :: u32) < 4096"
proof -
  have "v AND 0xFFF = take_bit 12 v" by (simp add: take_bit_eq_mask mask_eq_exp_minus_1)
  then show ?thesis by (simp add: take_bit_eq_mod unat_mod)
qed

section \<open>One page\<close>

text \<open>The byte of the segment at a virtual address.\<close>

definition seg_byte :: "u8 list \<Rightarrow> elf32_phdr_t \<Rightarrow> u32 \<Rightarrow> u8" where
  "seg_byte file phdr v =
     (if p_vaddr phdr \<le> v \<and> unat v < unat (p_vaddr phdr) + unat (p_filesz phdr)
      then file ! unat (p_offset phdr + (v - p_vaddr phdr)) else 0)"

text \<open>A segment that does not run past the end of the address space.\<close>

definition seg_fits :: "elf32_phdr_t \<Rightarrow> bool" where
  "seg_fits phdr \<longleftrightarrow> unat (p_vaddr phdr) + unat (p_memsz phdr) + 4095 < 4294967296 \<and> p_filesz phdr \<le> p_memsz phdr"

text \<open>The part of a page that comes from the file, as the loader computes it.\<close>

definition copy_start :: "elf32_phdr_t \<Rightarrow> u32 \<Rightarrow> u32" where
  "copy_start phdr vpage = (if p_vaddr phdr > vpage then p_vaddr phdr else vpage)"

definition copy_end :: "elf32_phdr_t \<Rightarrow> u32 \<Rightarrow> u32" where
  "copy_end phdr vpage =
     (if p_vaddr phdr + p_filesz phdr < vpage + PAGE_SIZE then p_vaddr phdr + p_filesz phdr else vpage + PAGE_SIZE)"

lemma unat_copy:
  assumes "seg_fits phdr" "unat vpage + 4096 < 4294967296"
  shows "unat (copy_start phdr vpage) = max (unat (p_vaddr phdr)) (unat vpage)"
    and "unat (copy_end phdr vpage) = min (unat (p_vaddr phdr) + unat (p_filesz phdr)) (unat vpage + 4096)"
proof -
  have "unat (p_filesz phdr) \<le> unat (p_memsz phdr)" using assms(1) by (simp add: seg_fits_def word_le_nat_alt)
  then have "unat (p_vaddr phdr + p_filesz phdr) = unat (p_vaddr phdr) + unat (p_filesz phdr)"
    using assms(1) by (subst unat_add_u32) (simp_all add: seg_fits_def)
  moreover have "unat (vpage + 4096) = unat vpage + 4096" using assms(2) by (subst unat_add_u32) simp_all
  ultimately show "unat (copy_end phdr vpage) = min (unat (p_vaddr phdr) + unat (p_filesz phdr)) (unat vpage + 4096)"
    by (simp add: copy_end_def word_less_nat_alt)
  show "unat (copy_start phdr vpage) = max (unat (p_vaddr phdr)) (unat vpage)"
    by (simp add: copy_start_def word_less_nat_alt)
qed

lemma copied_page:
  fixes phys :: u32 and m :: pmem
  assumes fits: "seg_fits phdr" "unat vpage + 4096 < 4294967296" and len: "length file < 4294967296"
    and c0: "c0 = copy_start phdr vpage" "c1 = copy_end phdr vpage" "c0 < c1" and fo: "fo = p_offset phdr + (c0 - p_vaddr phdr)"
    and inside: "unat fo + unat (c1 - c0) \<le> length file"
  defines "m' \<equiv> copy_in (phys + (c0 - vpage)) (take (unat (c1 - c0)) (drop (unat fo) file)) (memset phys 0 4096 m)"
  shows "\<not> unat (x - phys) < 4096 \<Longrightarrow> m' x = m x"
    and "j < 4096 \<Longrightarrow> m' (phys + of_nat j) = seg_byte file phdr (vpage + of_nat j)"
proof -
  note u = unat_copy [OF fits, folded c0(1,2)]
  define k where "k = unat c0 - unat vpage"
  define n where "n = unat c1 - unat c0"
  have lt: "unat c0 < unat c1" using c0(3) by (simp add: word_less_nat_alt)
  have k: "unat c0 = unat vpage + k" "k + n \<le> 4096" using u lt by (auto simp: k_def n_def)
  have c0_k: "c0 = vpage + of_nat k" using k(1) fits(2) lt u by (simp add: u32_eq_iff_unat unat_add_u32 unat_of_nat_u32)
  have n: "unat (c1 - c0) = n" using lt by (simp add: n_def unat_sub word_le_nat_alt)
  have app: "m' x = (if unat (x - phys - of_nat k) < n then file ! (unat fo + unat (x - phys - of_nat k))
      else if unat (x - phys) < 4096 then 0 else m x)" for x
    unfolding m'_def using inside len n by (subst copy_in_apply) (simp_all add: memset_apply c0_k diff_diff_eq)
  have sub: "unat (y - of_nat k) < n \<longleftrightarrow> k \<le> unat y \<and> unat y < k + n" for y :: u32
    using k(2) by (intro unat_minus_less) simp_all
  show "m' x = m x" if "\<not> unat (x - phys) < 4096" using that k(2) by (simp add: app sub)
  show "m' (phys + of_nat j) = seg_byte file phdr (vpage + of_nat j)" if j: "j < 4096"
  proof -
    have v: "unat (vpage + of_nat j) = unat vpage + j" using j fits(2) by (simp add: unat_add_u32 unat_of_nat_u32)
    have iff: "k \<le> j \<and> j < k + n \<longleftrightarrow> p_vaddr phdr \<le> vpage + of_nat j \<and>
        unat (vpage + of_nat j) < unat (p_vaddr phdr) + unat (p_filesz phdr)"
      unfolding word_le_nat_alt v using u lt j by (auto simp: k_def n_def)
    have "file ! (unat fo + (j - k)) = file ! unat (p_offset phdr + (vpage + of_nat j - p_vaddr phdr))" if h: "k \<le> j" "j < k + n"
    proof -
      have "p_offset phdr + (vpage + of_nat j - p_vaddr phdr) = fo + of_nat (j - k)"
        using h by (simp add: fo c0_k of_nat_diff algebra_simps)
      moreover have "unat (fo + of_nat (j - k)) = unat fo + (j - k)"
      proof -
        have "unat (of_nat (j - k) :: u32) = j - k" using h j by (intro unat_of_nat_u32) simp
        then show ?thesis using inside len n h unat_add_u32 [of fo "of_nat (j - k)"] by presburger
      qed
      ultimately show ?thesis by simp
    qed
    moreover have "unat (of_nat j - of_nat k :: u32) = j - k" if "k \<le> j"
      using that j by (simp add: unat_sub_if' unat_of_nat_u32)
    ultimately show ?thesis
      using j iff sub [of "of_nat j"] by (auto simp: app seg_byte_def unat_of_nat_u32)
  qed
qed

lemma load_page_cases:
  assumes run: "load_page file phdr flags d i vpage s = Some (r, s', l)" and fr: "frames_ok s"
    and fits: "seg_fits phdr" "unat vpage + 4096 < 4294967296" and len: "length file < 4294967296"
  obtains (oom) "r = -1" "s' = s" | (ok) phys s0 m where "r = 0" "vm_alloc_page s = (phys, s0)" "phys \<noteq> 0"
    "s' = paging_map_page_in d vpage phys flags (s0\<lparr>mem := m\<rparr>)"
    "\<forall>x. \<not> unat (x - phys) < 4096 \<longrightarrow> m x = mem s x"
    "\<And>j. j < 4096 \<Longrightarrow> m (phys + of_nat j) = seg_byte file phdr (vpage + of_nat j)"
  using fr
proof (cases rule: vm_alloc_cases)
  case fail
  then show thesis using run oom by (simp add: load_page_def)
next
  case (ok phys s0)
  have m0: "mem s0 = mem s" by (subst ok(8)) simp
  let ?c0 = "copy_start phdr vpage" and ?c1 = "copy_end phdr vpage"
  let ?fo = "p_offset phdr + (?c0 - p_vaddr phdr)"
  note run' = run [unfolded load_page_def ok(1) Let_def prod.case, folded copy_start_def copy_end_def]
  show thesis
  proof (cases "?c0 < ?c1")
    case True
    then have in_file: "unat ?fo + unat (?c1 - ?c0) \<le> length file" using run' ok(2) by (auto split: if_splits)
    define m where "m = copy_in (phys + (?c0 - vpage)) (take (unat (?c1 - ?c0)) (drop (unat ?fo) file)) (memset phys 0 4096 (mem s))"
    note cp = copied_page [OF fits len refl refl True refl in_file, where phys = phys and m = "mem s", folded m_def]
    have "r = 0" "s' = paging_map_page_in d vpage phys flags (s0\<lparr>mem := m\<rparr>)"
      using run' True in_file ok(2) m0 by (simp_all add: m_def)
    then show thesis by (rule that(2) [OF _ ok(1,2)]) (use cp in auto)
  next
    case False
    then have empty: "unat ?c1 \<le> unat ?c0" by (simp add: word_le_nat_alt not_less)
    have z: "seg_byte file phdr (vpage + of_nat j) = 0" if "j < 4096" for j
    proof -
      have "unat (vpage + of_nat j) = unat vpage + j" using that fits(2) by (simp add: unat_add_u32 unat_of_nat_u32)
      then show ?thesis using empty that unat_copy [OF fits] by (auto simp: seg_byte_def word_le_nat_alt)
    qed
    show thesis
      by (rule that(2) [OF _ ok(1,2), of "memset phys 0 4096 (mem s)"])
        (use run' False ok(2) m0 z in \<open>auto simp: memset_apply unat_of_nat_u32\<close>)
  qed
qed

section \<open>The address space while it is filled\<close>

text \<open>The frames mapped in the user range are in use, and none is a page table of the process.\<close>

definition filling :: "u32 set \<Rightarrow> u32 \<Rightarrow> vm \<Rightarrow> bool" where
  "filling D d s \<longleftrightarrow> spaces_inv s D \<and> d \<in> D \<and>
     (\<forall>v a. 0x1000000 \<le> v \<and> xlate (mem s) d v = Some a \<longrightarrow> fno (PAGE_FRAME a) \<in> used s \<and> PAGE_FRAME a \<notin> owned (mem s) d)"

text \<open>From \<open>s\<close> to \<open>s'\<close>, only pages of \<open>d\<close> and pages that were free have been written or become pages of \<open>d\<close>.\<close>

definition grows :: "u32 \<Rightarrow> vm \<Rightarrow> vm \<Rightarrow> bool" where
  "grows d s s' \<longleftrightarrow> used s \<subseteq> used s' \<and> (\<forall>t \<in> owned (mem s') d. fno t \<in> used s \<longrightarrow> t \<in> owned (mem s) d) \<and>
     (\<forall>t i. page_aligned t \<and> fno t \<in> used s \<and> t \<notin> owned (mem s) d \<and> i < 1024 \<longrightarrow> entry (mem s') t i = entry (mem s) t i)"

lemma grows_refl: "grows d s s"
  by (simp add: grows_def)

lemma grows_trans: "grows d s s1 \<Longrightarrow> grows d s1 s2 \<Longrightarrow> grows d s s2"
  unfolding grows_def by (metis subset_iff)

lemma grows_bytes:
  assumes "grows d s s'" "page_aligned t" "fno t \<in> used s" "t \<notin> owned (mem s) d" "j < 4096"
  shows "mem s' (t + of_nat j) = mem s (t + of_nat j)"
  by (rule page_bytes [OF _ assms(5)]) (use assms in \<open>simp add: grows_def\<close>)

lemma xlate_split: "xlate m d v = Some a \<Longrightarrow> a = PAGE_FRAME a + of_nat (unat (v AND 0xFFF))"
  by (auto simp: xlate_def walk_def Let_def frame_offset split: if_splits)
    (simp add: frame_offset [symmetric] PAGE_FRAME_or PAGE_FRAME_aligned is_flags_and)

lemma grows_proc_byte:
  assumes "filling D d s" "grows d s s'" "0x1000000 \<le> v" "xlate (mem s') d v = xlate (mem s) d v"
  shows "proc_byte (mem s') d v = proc_byte (mem s) d v"
proof (cases "xlate (mem s) d v")
  case (Some a)
  have "mem s' (PAGE_FRAME a + of_nat (unat (v AND 0xFFF))) = mem s (PAGE_FRAME a + of_nat (unat (v AND 0xFFF)))"
    using assms(1,3) Some by (intro grows_bytes [OF assms(2) _ _ _ page_offset_small]) (simp_all add: filling_def)
  then show ?thesis using Some assms(4) xlate_split [OF Some] by (simp add: proc_byte_def)
qed (simp add: proc_byte_def assms(4))

text \<open>A page of data for the process.\<close>

lemma data_page:
  assumes inv: "spaces_inv s D" "d \<in> D" and a: "vm_alloc_page s = (phys, s0)" "phys \<noteq> 0"
    and m: "\<forall>x. \<not> unat (x - phys) < 4096 \<longrightarrow> m x = mem s x"
  defines "s1 \<equiv> s0\<lparr>mem := m\<rparr>"
  shows "page_aligned phys" "fno phys \<notin> used s" "used s1 = insert (fno phys) (used s)" "used s \<noteq> {..<4096}"
    "spaces_inv s1 D" "owned (mem s1) d = owned (mem s) d" "grows d s s1" "kernel_directory s1 = kernel_directory s"
    "\<And>d' v. d' \<in> insert (kernel_directory s) D \<Longrightarrow> walk (mem s1) d' v = walk (mem s) d' v"
proof -
  have "frames_ok s" using spaces_invD(1) [OF inv(1)] by (rule vm_invD(1))
  then have A: "page_aligned phys \<and> fno phys \<notin> used s \<and> used s0 = insert (fno phys) (used s) \<and> frames_ok s0 \<and>
      s0 = s\<lparr>frames := frames s0\<rparr> \<and> used s \<noteq> {..<4096}"
    by (cases rule: vm_alloc_cases) (use a in auto)
  then show p: "page_aligned phys" "fno phys \<notin> used s" "used s \<noteq> {..<4096}" by blast+
  have k: "kernel_directory s1 = kernel_directory s" "pd_tables s1 = pd_tables s"
    "pd_physical_address s1 = pd_physical_address s" unfolding s1_def using A by (metis vm.select_convs vm.surjective vm.update_convs)+
  have u: "used s1 = insert (fno phys) (used s)" "frames_ok s1" using A by (auto simp: s1_def used_def frames_ok_def)
  have out: "same_outside {phys} (mem s) (mem s1)"
    unfolding same_outside_def
  proof (intro allI impI)
    fix t :: u32 and i :: nat assume t: "page_aligned t \<and> t \<notin> {phys} \<and> i < 1024"
    then have "mem s1 (t + of_nat j) = mem s (t + of_nat j)" if "j < 4096" for j
      using m in_page_iff [OF p(1) _ that, of t] by (simp add: s1_def)
    then show "entry (mem s1) t i = entry (mem s) t i" using t by (intro entry_cong) simp_all
  qed
  have W: "fno ` {phys} \<inter> used s = {}" and sub: "used s \<subseteq> used s1" using p(2) u(1) by auto
  note fr = fresh_frame [OF inv(1) out W k u(2) sub]
  show "used s1 = insert (fno phys) (used s)" "spaces_inv s1 D" "owned (mem s1) d = owned (mem s) d"
    "kernel_directory s1 = kernel_directory s" by (rule u fr(1) fr(2) [OF inv(2)] k)+
  show "walk (mem s1) d' v = walk (mem s) d' v" if "d' \<in> insert (kernel_directory s) D" for d' v by (rule fr(3) [OF that])
  show "grows d s s1"
    using out sub fr(2) [OF inv(2)] p(2) unfolding grows_def same_outside_def by auto
qed

text \<open>Mapping a page writes to the process's own tables or to a free frame.\<close>

lemma map_page_in_grows:
  assumes inv: "spaces_inv s D" "d \<in> D" and slot: "own_slot (PAGE_DIR_INDEX virt)"
  shows "grows d s (paging_map_page_in d virt phys flags s)"
proof -
  note I = spaces_invD [OF inv(1)]
  have ok: "dir_ok (mem s) d (used s)" using I(3) [OF inv(2)] by (simp add: space_ok_def)
  show ?thesis
    using vm_invD(1) [OF I(1)] ok
  proof (cases rule: map_page_in_cases [of s d virt phys flags])
    case oom
    then show ?thesis by (simp add: vm_print_def grows_def used_def)
  next
    case (map table s1)
    let ?m = "map_mem d table virt phys flags (mem s)"
    note dir = dir_ok_map_mem [OF ok map(5,7,8)]
    have al: "page_aligned d" using dir_ok_self [OF ok] by simp
    have own: "owned ?m d = insert table (owned (mem s) d)" by (rule owned_map_mem [OF ok map(5,7,8) slot])
    have t: "table \<in> owned (mem s) d \<or> fno table \<notin> used s" using map(7,8) ownedI [OF slot, of "mem s" d] by auto
    have "x \<noteq> d \<and> x \<noteq> table" if "fno x \<in> used s" "x \<notin> owned (mem s) d" for x using t that by auto
    moreover have "same_outside {d, table} (mem s) ?m" by (rule same_outside_map_mem [OF al map(5) dir(2)])
    ultimately show ?thesis
      unfolding map(1) grows_def same_outside_def using own t map(4) by (auto simp: used_def)
  qed
qed

section \<open>Loading\<close>

text \<open>What a step of the loader keeps.\<close>

definition fills :: "u32 set \<Rightarrow> u32 \<Rightarrow> vm \<Rightarrow> vm \<Rightarrow> bool" where
  "fills D d s s' \<longleftrightarrow> filling D d s' \<and> grows d s s' \<and> kernel_directory s' = kernel_directory s \<and>
     (\<forall>d' \<in> insert (kernel_directory s) (D - {d}). \<forall>v. walk (mem s') d' v = walk (mem s) d' v)"

lemma fills_refl: "filling D d s \<Longrightarrow> fills D d s s"
  by (simp add: fills_def grows_refl)

lemma fills_trans: "fills D d s s1 \<Longrightarrow> fills D d s1 s2 \<Longrightarrow> fills D d s s2"
  unfolding fills_def using grows_trans by auto

lemma own_slot_user: "0x1000000 \<le> v \<Longrightarrow> own_slot (PAGE_DIR_INDEX v)"
  using index_less(1) [of v] by (simp add: own_slot_def index_unat word_le_nat_alt) linarith

lemma same_page_iff: "same_page v w \<longleftrightarrow> fno v = fno w"
proof -
  have "unat x div 4194304 = fno x div 1024" for x :: u32 by (simp add: fno_def div_mult2_eq [symmetric])
  then show ?thesis unfolding same_page_def index_unat fno_def [symmetric] by (metis div_mult_mod_eq)
qed

lemma same_page_offset: "page_aligned w \<Longrightarrow> same_page v w \<Longrightarrow> v = w + of_nat (unat (v AND 0xFFF))"
proof -
  assume w: "page_aligned w" "same_page v w"
  have "v AND 0xFFF = take_bit 12 v" by (simp add: take_bit_eq_mask mask_eq_exp_minus_1)
  then have o: "unat (v AND 0xFFF) = unat v mod 4096" by (simp add: take_bit_eq_mod unat_mod)
  have "unat v = unat w + unat v mod 4096"
    using w unfolding same_page_iff fno_def page_aligned_def by (metis add.right_neutral div_mult_mod_eq)
  moreover have "unat (w + of_nat (unat (v AND 0xFFF))) = unat w + unat (v AND 0xFFF)"
    by (rule unat_plus_page [OF w(1) page_offset_small])
  ultimately show ?thesis using o by (simp add: u32_eq_iff_unat)
qed

lemma data_page_fills:
  assumes J: "filling D d s" and a: "vm_alloc_page s = (phys, s0)" "phys \<noteq> 0"
    and m: "\<forall>x. \<not> unat (x - phys) < 4096 \<longrightarrow> m x = mem s x"
  defines "s1 \<equiv> s0\<lparr>mem := m\<rparr>"
  shows "fills D d s s1" "page_aligned phys" "fno phys \<in> used s1" "phys \<notin> owned (mem s1) d"
    "xlate (mem s1) d v = xlate (mem s) d v"
proof -
  have inv: "spaces_inv s D" "d \<in> D" using J by (simp_all add: filling_def)
  note dp = data_page [OF inv a m, folded s1_def]
  have x: "xlate (mem s1) d v = xlate (mem s) d v" for v using dp(9) [of d v] inv(2) by (simp add: xlate_def)
  have "filling D d s1" using J dp(3,5,6) x unfolding filling_def by simp
  then show "fills D d s s1" using dp(7,8,9) by (simp add: fills_def)
  show "page_aligned phys" "fno phys \<in> used s1" "phys \<notin> owned (mem s1) d"
    using dp(1,2,3,6) owned_used [OF spaces_invD(3) [OF inv]] by auto
  show "xlate (mem s1) d v = xlate (mem s) d v" by (rule x)
qed

lemma map_page_in_fills:
  fixes flags :: u32
  assumes J: "filling D d s" and phys: "page_aligned phys" "fno phys \<in> used s" "phys \<notin> owned (mem s) d" and v0: "0x1000000 \<le> virt"
  defines "s' \<equiv> paging_map_page_in d virt phys flags s"
  shows "fills D d s s'" and "used s' \<noteq> {..<4096} \<Longrightarrow>
    xlate (mem s') d v = (if same_page v virt then Some (phys + of_nat (unat (v AND 0xFFF))) else xlate (mem s) d v)"
proof -
  have inv: "spaces_inv s D" "d \<in> D" using J by (simp_all add: filling_def)
  have ok: "frames_ok s" "dir_ok (mem s) d (used s)"
    using spaces_invD(1,3) [OF inv(1)] inv(2) vm_invD(1) by (auto simp: space_ok_def)
  have slot: "own_slot (PAGE_DIR_INDEX virt)" by (rule own_slot_user [OF v0])
  have g: "grows d s s'" unfolding s'_def by (rule map_page_in_grows [OF inv slot])
  have "fills D d s s' \<and> (used s' \<noteq> {..<4096} \<longrightarrow>
    xlate (mem s') d v = (if same_page v virt then Some (phys + of_nat (unat (v AND 0xFFF))) else xlate (mem s) d v))"
  proof (cases "present (entry (mem s) d (PAGE_DIR_INDEX virt)) \<or> used s \<noteq> {..<4096}")
    case True
    note E = map_page_in_effect [OF inv slot True, where phys = phys and flags = flags, folded s'_def]
    have x: "xlate (mem s') d w = (if same_page w virt then Some (phys + of_nat (unat (w AND 0xFFF))) else xlate (mem s) d w)" for w
      using E(2) [of w] phys(1) by (simp add: frame_offset PAGE_FRAME_aligned)
    have "fno (PAGE_FRAME a) \<in> used s' \<and> PAGE_FRAME a \<notin> owned (mem s') d"
      if w: "0x1000000 \<le> w" "xlate (mem s') d w = Some a" for w a
    proof -
      have "PAGE_FRAME (phys + of_nat (unat (w AND 0xFFF))) = phys"
        using phys(1) by (simp add: frame_offset [symmetric] PAGE_FRAME_or PAGE_FRAME_aligned is_flags_and)
      then have "fno (PAGE_FRAME a) \<in> used s \<and> PAGE_FRAME a \<notin> owned (mem s) d"
        using w x [of w] phys J unfolding filling_def by (auto split: if_splits)
      then show ?thesis using g unfolding grows_def by blast
    qed
    then have "filling D d s'" using E(1) inv(2) by (auto simp: filling_def)
    then show ?thesis using g E(3,4,5) x by (auto simp: fills_def)
  next
    case False
    from ok show ?thesis
    proof (cases rule: map_page_in_cases [of s d virt phys flags])
      case oom
      have keep: "mem s' = mem s" "kernel_directory s' = kernel_directory s" "used s' = used s" "frames s' = frames s"
        "pd_tables s' = pd_tables s" "pd_physical_address s' = pd_physical_address s"
        unfolding s'_def oom(1) by (simp_all add: vm_print_def used_def)
      have out: "same_outside {} (mem s) (mem s')" by (simp add: same_outside_def keep)
      have fr: "frames_ok s'" using ok(1) keep(3,4) by (simp add: frames_ok_def)
      have "spaces_inv s' D" by (rule fresh_frame(1) [OF inv(1) out _ keep(2,5,6) fr]) (simp_all add: keep(3))
      then have "filling D d s'" using J unfolding filling_def keep(1,3) by blast
      then show ?thesis using g keep oom(3) by (simp add: fills_def)
    next
      case (map table s1)
      have "fno table < 4096" using map(4) by (auto simp: used_def used_set_def)
      then show ?thesis using False map(7) by auto
    qed
  qed
  then show "fills D d s s'" and "used s' \<noteq> {..<4096} \<Longrightarrow>
    xlate (mem s') d v = (if same_page v virt then Some (phys + of_nat (unat (v AND 0xFFF))) else xlate (mem s) d v)" by blast+
qed

lemma load_page_fills:
  assumes run: "load_page file phdr flags d i vpage s = Some (r, s', l)" and J: "filling D d s"
    and fits: "seg_fits phdr" "unat vpage + 4096 < 4294967296" and len: "length file < 4294967296"
    and page: "page_aligned vpage" "0x1000000 \<le> vpage"
  shows "fills D d s s'" and "r = 0 \<Longrightarrow> used s' \<noteq> {..<4096} \<Longrightarrow> 0x1000000 \<le> v \<Longrightarrow>
    proc_byte (mem s') d v = (if same_page v vpage then Some (seg_byte file phdr v) else proc_byte (mem s) d v)"
proof -
  have fr: "frames_ok s" using J vm_invD(1) spaces_invD(1) by (auto simp: filling_def)
  have "fills D d s s' \<and> (r = 0 \<and> used s' \<noteq> {..<4096} \<and> 0x1000000 \<le> v \<longrightarrow>
    proc_byte (mem s') d v = (if same_page v vpage then Some (seg_byte file phdr v) else proc_byte (mem s) d v))"
    using run fr fits len
  proof (cases rule: load_page_cases)
    case oom
    then show ?thesis using fills_refl [OF J] by simp
  next
    case (ok phys s0 m)
    define s1 where "s1 = s0\<lparr>mem := m\<rparr>"
    note dp = data_page_fills [OF J ok(2,3,5), folded s1_def]
    have J1: "filling D d s1" using dp(1) by (simp add: fills_def)
    note mp = map_page_in_fills [OF J1 dp(2-4) page(2), of flags, folded ok(4) [folded s1_def]]
    have f: "fills D d s s'" by (rule fills_trans [OF dp(1) mp(1)])
    have g: "grows d s s'" "grows d s1 s'" using f mp(1) by (simp_all add: fills_def)
    have "proc_byte (mem s') d v = (if same_page v vpage then Some (seg_byte file phdr v) else proc_byte (mem s) d v)"
      if h: "used s' \<noteq> {..<4096}" "0x1000000 \<le> v"
    proof (cases "same_page v vpage")
      case True
      let ?j = "unat (v AND 0xFFF)"
      have "mem s' (phys + of_nat ?j) = mem s1 (phys + of_nat ?j)" by (rule grows_bytes [OF g(2) dp(2-4) page_offset_small])
      also have "\<dots> = seg_byte file phdr (vpage + of_nat ?j)" unfolding s1_def using ok(6) [OF page_offset_small] by simp
      finally show ?thesis
        using True mp(2) [OF h(1), of v] same_page_offset [OF page(1) True] by (simp add: proc_byte_def)
    next
      case False
      then show ?thesis using grows_proc_byte [OF J g(1) h(2)] mp(2) [OF h(1), of v] dp(5) [of v] by simp
    qed
    then show ?thesis using f by simp
  qed
  then show "fills D d s s'" and "r = 0 \<Longrightarrow> used s' \<noteq> {..<4096} \<Longrightarrow> 0x1000000 \<le> v \<Longrightarrow>
    proc_byte (mem s') d v = (if same_page v vpage then Some (seg_byte file phdr v) else proc_byte (mem s) d v)" by blast+
qed

lemma load_pages_fills:
  assumes "load_pages file phdr flags d i vpages s = Some (r, s', l)" "filling D d s"
    and "seg_fits phdr" "length file < 4294967296"
    and "\<And>p. p \<in> set vpages \<Longrightarrow> page_aligned p \<and> 0x1000000 \<le> p \<and> unat p + 4096 < 4294967296"
  shows "fills D d s s'" and "r = 0 \<Longrightarrow> used s' \<noteq> {..<4096} \<Longrightarrow> 0x1000000 \<le> v \<Longrightarrow>
    proc_byte (mem s') d v = (if \<exists>p \<in> set vpages. same_page v p then Some (seg_byte file phdr v) else proc_byte (mem s) d v)"
proof -
  have "fills D d s s' \<and> (r = 0 \<and> used s' \<noteq> {..<4096} \<and> 0x1000000 \<le> v \<longrightarrow>
    proc_byte (mem s') d v = (if \<exists>p \<in> set vpages. same_page v p then Some (seg_byte file phdr v) else proc_byte (mem s) d v))"
    using assms
  proof (induction vpages arbitrary: s)
    case Nil
    then show ?case by (simp add: fills_refl)
  next
    case (Cons p vpages)
    obtain r1 s1 l1 where run: "load_page file phdr flags d i p s = Some (r1, s1, l1)"
      and tail: "if r1 \<noteq> 0 then (r, s') = (r1, s1) else load_pages file phdr flags d i vpages s1 = Some (r, s', l)"
      using Cons.prems(1) by (auto split: bind_splits if_splits)
    have p: "page_aligned p" "0x1000000 \<le> p" "unat p + 4096 < 4294967296" using Cons.prems(5) by simp_all
    note lp = load_page_fills [OF run Cons.prems(2,3) p(3) Cons.prems(4) p(1,2)]
    show ?case
    proof (cases "r1 = 0")
      case True
      have J1: "filling D d s1" using lp(1) by (simp add: fills_def)
      have IH: "fills D d s1 s'" "r = 0 \<and> used s' \<noteq> {..<4096} \<and> 0x1000000 \<le> v \<longrightarrow> proc_byte (mem s') d v =
          (if \<exists>p \<in> set vpages. same_page v p then Some (seg_byte file phdr v) else proc_byte (mem s1) d v)"
        using Cons.IH [OF _ J1 Cons.prems(3,4)] tail True Cons.prems(5) by auto
      have "used s1 \<noteq> {..<4096}" if "used s' \<noteq> {..<4096}"
        using that IH(1) by (auto simp: fills_def grows_def used_def used_set_def)
      then show ?thesis using fills_trans [OF lp(1) IH(1)] IH(2) lp(2) [OF True] by auto
    next
      case False
      then show ?thesis using tail lp(1) by simp
    qed
  qed
  then show "fills D d s s'" and "r = 0 \<Longrightarrow> used s' \<noteq> {..<4096} \<Longrightarrow> 0x1000000 \<le> v \<Longrightarrow>
    proc_byte (mem s') d v = (if \<exists>p \<in> set vpages. same_page v p then Some (seg_byte file phdr v) else proc_byte (mem s) d v)"
    by blast+
qed

text \<open>The addresses on a page that holds at least one byte of a segment.\<close>

definition covers :: "elf32_phdr_t \<Rightarrow> u32 \<Rightarrow> bool" where
  "covers phdr v \<longleftrightarrow> p_type phdr = PT_LOAD \<and> p_memsz phdr \<noteq> 0 \<and>
     unat (p_vaddr phdr) div 4096 \<le> unat v div 4096 \<and> unat v div 4096 \<le> (unat (p_vaddr phdr) + unat (p_memsz phdr) - 1) div 4096"

lemma unat_frame_mask: "unat (x AND PAGE_FRAME_MASK) = 4096 * (unat x div 4096)"
proof -
  have "x AND PAGE_FRAME_MASK = push_bit 12 (drop_bit 12 x)"
    by (rule bit_word_eqI) (auto simp: PAGE_FRAME_def [symmetric] bit_PAGE_FRAME bit_simps)
  then have "unat (x AND PAGE_FRAME_MASK) = unat (drop_bit 12 x) * 4096 mod 4294967296"
    by (simp add: push_bit_eq_mult unat_word_ariths)
  then show ?thesis using unat_less_2p32 [of x] by (simp add: unat_drop_bit_u32)
qed

lemma seg_pages_covers:
  assumes "seg_fits phdr" "0x1000000 \<le> p_vaddr phdr" "p_type phdr = PT_LOAD" "p_memsz phdr \<noteq> 0"
  shows "(\<exists>p \<in> set (seg_pages phdr). same_page v p) \<longleftrightarrow> covers phdr v"
    and "p \<in> set (seg_pages phdr) \<Longrightarrow> page_aligned p \<and> 0x1000000 \<le> p \<and> unat p + 4096 < 4294967296"
proof -
  define a where "a = unat (p_vaddr phdr) div 4096"
  define e where "e = (unat (p_vaddr phdr) + unat (p_memsz phdr) + 4095) div 4096"
  have lim: "unat (p_vaddr phdr) + unat (p_memsz phdr) + 4095 < 4294967296" using assms(1) by (simp add: seg_fits_def)
  have "unat (p_vaddr phdr + p_memsz phdr + 4095) = unat (p_vaddr phdr) + unat (p_memsz phdr) + 4095"
    using lim by (subst unat_add_u32; (subst unat_add_u32)?; simp)
  moreover have "p_vaddr phdr + p_memsz phdr + PAGE_SIZE - 1 = p_vaddr phdr + p_memsz phdr + 4095" by simp
  ultimately have ends: "unat (seg_start phdr) = 4096 * a" "unat (seg_end phdr) = 4096 * e"
    unfolding seg_start_def seg_end_def unat_frame_mask a_def e_def by presburger+
  have bound: "4096 \<le> a" "4096 * e < 4294967296"
    using assms(2) lim unfolding a_def e_def word_le_nat_alt by (simp_all add: div_le_mono less_eq_div_iff_mult_less_eq)
  have pg: "unat (seg_start phdr + of_nat k * PAGE_SIZE) = 4096 * (a + k)" if "k < e - a" for k
  proof -
    have "4096 * (a + k) \<le> 4096 * e" using that by (intro mult_le_mono2) simp
    then have "4096 * (a + k) < 4294967296" using bound(2) by (rule le_less_trans)
    moreover have "seg_start phdr + of_nat k * PAGE_SIZE = of_nat (4096 * (a + k))"
    proof -
      have "seg_start phdr = of_nat (4096 * a)" using ends(1) by (metis of_nat_unat ucast_id)
      then show ?thesis by (simp add: algebra_simps)
    qed
    ultimately show ?thesis using unat_of_nat_u32 by metis
  qed
  have n: "(unat (seg_end phdr) - unat (seg_start phdr)) div 4096 = e - a" unfolding ends by (simp add: diff_mult_distrib2 [symmetric])
  have mem: "p \<in> set (seg_pages phdr) \<longleftrightarrow> (\<exists>k < e - a. p = seg_start phdr + of_nat k * PAGE_SIZE)" for p
    unfolding seg_pages_def n by auto
  have f: "same_page v (seg_start phdr + of_nat k * PAGE_SIZE) \<longleftrightarrow> fno v = a + k" if "k < e - a" for k
    using pg [OF that] by (simp add: same_page_iff fno_def)
  have "(\<exists>p \<in> set (seg_pages phdr). same_page v p) \<longleftrightarrow> (\<exists>k < e - a. same_page v (seg_start phdr + of_nat k * PAGE_SIZE))"
    unfolding Bex_def mem by auto
  also have "\<dots> \<longleftrightarrow> (\<exists>k < e - a. fno v = a + k)" by (intro ex_cong1 conj_cong refl f)
  also have "\<dots> \<longleftrightarrow> a \<le> fno v \<and> fno v < e" by (auto intro: exI [of _ "fno v - a"])
  also have "\<dots> \<longleftrightarrow> covers phdr v"
  proof -
    have "0 < unat (p_memsz phdr)" using assms(4) by (simp add: unat_gt_0)
    then have "unat (p_vaddr phdr) + unat (p_memsz phdr) + 4095 = (unat (p_vaddr phdr) + unat (p_memsz phdr) - 1) + 4096" by simp
    then have "e = Suc ((unat (p_vaddr phdr) + unat (p_memsz phdr) - 1) div 4096)" unfolding e_def by (simp only: div_add_self2)
    then show ?thesis using assms(3,4) by (simp add: covers_def fno_def a_def less_Suc_eq_le)
  qed
  finally show "(\<exists>p \<in> set (seg_pages phdr). same_page v p) \<longleftrightarrow> covers phdr v" .
  show "page_aligned p \<and> 0x1000000 \<le> p \<and> unat p + 4096 < 4294967296" if h: "p \<in> set (seg_pages phdr)"
  proof -
    obtain k where k: "k < e - a" "unat p = 4096 * (a + k)" using h pg unfolding mem by auto
    have "4096 * (a + k) + 4096 \<le> 4096 * e" using mult_le_mono2 [of "a + k + 1" e 4096] k(1) by simp
    then have "unat p + 4096 < 4294967296" unfolding k(2) using bound(2) by (rule le_less_trans)
    moreover have "4096 * 4096 \<le> unat p" unfolding k(2) using bound(1) by (intro mult_le_mono2) simp
    ultimately show ?thesis using k(2) by (simp add: page_aligned_def word_le_nat_alt)
  qed
qed

text \<open>A segment that ends below the last page of the address space.\<close>

definition no_wrap :: "elf32_phdr_t \<Rightarrow> bool" where
  "no_wrap phdr \<longleftrightarrow> p_type phdr = PT_LOAD \<longrightarrow> unat (p_vaddr phdr) + unat (p_memsz phdr) + 4095 < 4294967296"

lemma load_segment_fills:
  assumes run: "load_segment file sz phdr d i s = Some (r, s', l)" and J: "filling D d s"
    and fits: "no_wrap phdr" "length file < 4294967296"
  shows "fills D d s s'" and "r = 0 \<Longrightarrow> used s' \<noteq> {..<4096} \<Longrightarrow> 0x1000000 \<le> v \<Longrightarrow>
    proc_byte (mem s') d v = (if covers phdr v then Some (seg_byte file phdr v) else proc_byte (mem s) d v)"
proof -
  consider (skip) "s' = s" "r = 0 \<Longrightarrow> \<not> covers phdr v"
    | (load) flags where "p_type phdr = PT_LOAD" "p_memsz phdr \<noteq> 0" "p_filesz phdr \<le> p_memsz phdr" "0x1000000 \<le> p_vaddr phdr"
      "load_pages file phdr flags d i (seg_pages phdr) s = Some (r, s', l)"
    using run by (auto simp: load_segment_def Let_def covers_def not_less split: if_splits)
  then have "fills D d s s' \<and> (r = 0 \<and> used s' \<noteq> {..<4096} \<and> 0x1000000 \<le> v \<longrightarrow>
    proc_byte (mem s') d v = (if covers phdr v then Some (seg_byte file phdr v) else proc_byte (mem s) d v))"
  proof cases
    case skip
    then show ?thesis using fills_refl [OF J] by simp
  next
    case load
    have sf: "seg_fits phdr" using load(1,3) fits(1) by (simp add: seg_fits_def no_wrap_def)
    note cv = seg_pages_covers [OF sf load(4,1,2)]
    note lp = load_pages_fills [OF load(5) J sf fits(2) cv(2), simplified cv(1)]
    show ?thesis using lp by simp
  qed
  then show "fills D d s s'" and "r = 0 \<Longrightarrow> used s' \<noteq> {..<4096} \<Longrightarrow> 0x1000000 \<le> v \<Longrightarrow>
    proc_byte (mem s') d v = (if covers phdr v then Some (seg_byte file phdr v) else proc_byte (mem s) d v)" by blast+
qed

lemma find_append: "List.find P (xs @ ys) = (case List.find P xs of None \<Rightarrow> List.find P ys | Some x \<Rightarrow> Some x)"
  by (induction xs) auto

text \<open>The last segment that covers an address decides its byte.\<close>

definition image_byte :: "u8 list \<Rightarrow> elf32_phdr_t list \<Rightarrow> u32 \<Rightarrow> u8 option" where
  "image_byte file phdrs v = map_option (\<lambda>phdr. seg_byte file phdr v) (List.find (\<lambda>phdr. covers phdr v) (rev phdrs))"

lemma image_byte_Cons:
  "image_byte file (phdr # phdrs) v =
     (case image_byte file phdrs v of None \<Rightarrow> if covers phdr v then Some (seg_byte file phdr v) else None | Some b \<Rightarrow> Some b)"
  by (simp add: image_byte_def find_append split: option.splits)

definition phdrs_of :: "u8 list \<Rightarrow> elf32_ehdr_t \<Rightarrow> nat list \<Rightarrow> elf32_phdr_t list" where
  "phdrs_of file ehdr is = List.map_filter (phdr_at file ehdr) is"

lemma load_loop_fills:
  assumes "load_segments_loop file sz ehdr d is s = Some (r, s', l)" "filling D d s"
    and "\<forall>phdr \<in> set (phdrs_of file ehdr is). no_wrap phdr" "length file < 4294967296"
  shows "fills D d s s' \<and> (r = 0 \<and> used s' \<noteq> {..<4096} \<and> 0x1000000 \<le> v \<longrightarrow> proc_byte (mem s') d v =
    (case image_byte file (phdrs_of file ehdr is) v of None \<Rightarrow> proc_byte (mem s) d v | Some b \<Rightarrow> Some b))"
  using assms
proof (induction "is" arbitrary: s)
  case Nil
  then show ?case by (simp add: fills_refl phdrs_of_def image_byte_def map_filter_simps)
next
  case (Cons i "is")
  obtain phdr r1 s1 l1 where ph: "phdr_at file ehdr i = Some phdr" and run: "load_segment file sz phdr d i s = Some (r1, s1, l1)"
    and tail: "if r1 \<noteq> 0 then (r, s') = (r1, s1) else load_segments_loop file sz ehdr d is s1 = Some (r, s', l)"
    using Cons.prems(1) by (auto split: bind_splits if_splits)
  have cons: "phdrs_of file ehdr (i # is) = phdr # phdrs_of file ehdr is" by (simp add: phdrs_of_def map_filter_simps ph)
  then have nw: "no_wrap phdr" "\<forall>phdr \<in> set (phdrs_of file ehdr is). no_wrap phdr" using Cons.prems(3) by simp_all
  note ls = load_segment_fills [OF run Cons.prems(2) nw(1) Cons.prems(4)]
  show ?case
  proof (cases "r1 = 0")
    case True
    have J1: "filling D d s1" using ls(1) by (simp add: fills_def)
    have IH: "fills D d s1 s'" "r = 0 \<and> used s' \<noteq> {..<4096} \<and> 0x1000000 \<le> v \<longrightarrow> proc_byte (mem s') d v =
        (case image_byte file (phdrs_of file ehdr is) v of None \<Rightarrow> proc_byte (mem s1) d v | Some b \<Rightarrow> Some b)"
      using Cons.IH [OF _ J1 nw(2) Cons.prems(4)] tail True by auto
    have "used s1 \<noteq> {..<4096}" if "used s' \<noteq> {..<4096}"
      using that IH(1) by (auto simp: fills_def grows_def used_def used_set_def)
    then show ?thesis
      using fills_trans [OF ls(1) IH(1)] IH(2) ls(2) [OF True] unfolding cons image_byte_Cons by (auto split: option.splits)
  next
    case False
    then show ?thesis using tail ls(1) by simp
  qed
qed

section \<open>Properties\<close>

text \<open>(C9) The program loader: after \<^verbatim>\<open>paging_clone_directory\<close>, \<^verbatim>\<open>load_segments\<close> on a file of fewer than 4 GB whose loadable
  segments end below the last page of the address space (the end of a later one wraps around and it is not loaded) keeps every address space well formed, changes no translation of another
  process or of the kernel and no byte of a page that was in use; when it returns 0 and a frame is left, the process reads,
  at each address from 16 MB up, the byte that the last segment with a byte on its page gives (the file's bytes, zeros around them), and
  nothing is mapped elsewhere.\<close>

theorem load_segments_image:
  assumes "spaces_inv s D" "paging_clone_directory s = (d, s1)" "d \<noteq> 0"
    and "load_segments file (of_nat (length file)) ehdr d s1 = Some (r, s2, l)" "length file < 4294967296"
    and "\<forall>phdr \<in> set (phdrs_of file ehdr [0..<unat (e_phnum ehdr)]). no_wrap phdr"
  shows "spaces_inv s2 (insert d D) \<and>
    (\<forall>d' \<in> insert (kernel_directory s) D. \<forall>v. walk (mem s2) d' v = walk (mem s) d' v) \<and>
    (\<forall>t j. page_aligned t \<and> fno t \<in> used s \<and> j < 4096 \<longrightarrow> mem s2 (t + of_nat j) = mem s (t + of_nat j)) \<and>
    (r = 0 \<and> used s2 \<noteq> {..<4096} \<longrightarrow> (\<forall>v \<ge> 0x1000000.
       proc_byte (mem s2) d v = image_byte file (phdrs_of file ehdr [0..<unat (e_phnum ehdr)]) v))"
proof -
  note C = clone_effect [OF assms(1,2)]
  have c1: "d \<notin> D" "spaces_inv s1 (insert d D)" "\<forall>v. 0x1000000 \<le> v \<longrightarrow> xlate (mem s1) d v = None"
    using C(1) assms(3) by (auto simp: word_le_nat_alt)
  then have J: "filling (insert d D) d s1" by (auto simp: filling_def)
  note L = load_loop_fills [OF assms(4) [unfolded load_segments_def] J assms(6,5)]
  have f: "fills (insert d D) d s1 s2" using L by blast
  have "mem s2 (t + of_nat j) = mem s (t + of_nat j)" if t: "page_aligned t" "fno t \<in> used s" "j < 4096" for t j
  proof -
    have "mem s1 (t + of_nat j) = mem s (t + of_nat j)" using C(6) t by (intro page_bytes) simp_all
    moreover have "mem s2 (t + of_nat j) = mem s1 (t + of_nat j)"
      using f C(4) C(5) [OF assms(3)] t by (intro grows_bytes) (auto simp: fills_def)
    ultimately show ?thesis by simp
  qed
  moreover have "walk (mem s2) d' v = walk (mem s) d' v" if "d' \<in> insert (kernel_directory s) D" for d' v
    using f C(2,3) c1(1) that by (auto simp: fills_def)
  moreover have "proc_byte (mem s1) d v = None" if "0x1000000 \<le> v" for v using c1(3) that by (simp add: proc_byte_def)
  moreover have "spaces_inv s2 (insert d D)" using f by (simp add: fills_def filling_def)
  moreover have "proc_byte (mem s2) d v = image_byte file (phdrs_of file ehdr [0..<unat (e_phnum ehdr)]) v"
    if "r = 0" "used s2 \<noteq> {..<4096}" "0x1000000 \<le> v" for v
    using L [of v] that c1(3) by (auto simp: proc_byte_def split: option.splits)
  ultimately show ?thesis by blast
qed

text \<open>A file with one segment: three bytes at 128 MB, then zeros up to 8 bytes.\<close>

definition tiny_elf :: "u8 list" where
  "tiny_elf =
     [0x7F, 0x45, 0x4C, 0x46, 1, 1, 1, 0, 0, 0, 0, 0, 0, 0, 0, 0, 2, 0, 3, 0, 1, 0, 0, 0, 0, 0, 0, 8, 52, 0, 0, 0,
      0, 0, 0, 0, 0, 0, 0, 0, 52, 0, 32, 0, 1, 0, 0, 0, 0, 0, 0, 0,
      1, 0, 0, 0, 84, 0, 0, 0, 0, 0, 0, 8, 0, 0, 0, 8, 3, 0, 0, 0, 8, 0, 0, 0, 5, 0, 0, 0, 0, 16, 0, 0,
      0x90, 0xEB, 0xFE]"

definition tiny_phdr :: elf32_phdr_t where
  "tiny_phdr = \<lparr>p_type = 1, p_offset = 84, p_vaddr = 0x8000000, p_paddr = 0x8000000, p_filesz = 3, p_memsz = 8, p_flags = 5, p_align = 4096\<rparr>"

lemma tiny_facts:
  "elf_validate (Some tiny_elf) 87 = 0" "e_phnum (ehdr_of_bytes tiny_elf) = 1" "phdr_at tiny_elf (ehdr_of_bytes tiny_elf) 0 = Some tiny_phdr"
  by code_simp+

lemma tiny_pages: "seg_pages tiny_phdr = [0x8000000]" "length tiny_elf = 87" "no_wrap tiny_phdr"
  "covers tiny_phdr 0x8000002" "covers tiny_phdr 0x8000003" "seg_byte tiny_elf tiny_phdr 0x8000002 = 0xFE" "seg_byte tiny_elf tiny_phdr 0x8000003 = 0"
  by (simp_all add: tiny_phdr_def seg_pages_def seg_start_def seg_end_def no_wrap_def covers_def seg_byte_def tiny_elf_def word_le_nat_alt word_less_nat_alt)

lemma boot_clone_card:
  assumes "paging_clone_directory (paging_init boot_vm) = (d, s1)" "d \<noteq> 0"
  shows "frames_ok s1 \<and> card (used s1) \<le> 776"
  using paging_init_boot(1,2)
proof (cases rule: clone_cases)
  case (ok d1 pt0 s2)
  have "card (used s2) \<le> card {fno d1, fno pt0} + 774" unfolding ok(8) using card_Un_le paging_init_boot(3) by metis
  also have "card {fno d1, fno pt0} \<le> 2" by (simp add: card_insert_if)
  finally show ?thesis using ok(1,10) assms by simp
qed (use assms in simp)

lemma map_page_in_card:
  assumes "spaces_inv s D" "d \<in> D"
  shows "card (used (paging_map_page_in d virt phys flags s)) \<le> card (used s) + 1"
proof -
  have "frames_ok s" "dir_ok (mem s) d (used s)"
    using spaces_invD(1,3) [OF assms(1)] assms(2) vm_invD(1) by (auto simp: space_ok_def)
  then show ?thesis
  proof (cases rule: map_page_in_cases [of s d virt phys flags])
    case oom
    then show ?thesis by (simp add: vm_print_def used_def)
  next
    case (map table s1)
    have "used (s1\<lparr>mem := m\<rparr>) = used s1" for m by (simp add: used_def)
    then show ?thesis using map(1,4) by (simp add: card_insert_if used_finite)
  qed
qed

lemma tiny_load:
  assumes clone: "paging_clone_directory (paging_init boot_vm) = (d, s1)" "d \<noteq> 0"
  shows "\<exists>s2. load_segments tiny_elf 87 (ehdr_of_bytes tiny_elf) d s1 = Some (0, s2, []) \<and> used s2 \<noteq> {..<4096}"
proof -
  note B = boot_clone_card [OF clone]
  from B have "frames_ok s1" by blast
  then show ?thesis
  proof (cases rule: vm_alloc_cases)
    case fail
    then show ?thesis using B by simp
  next
    case (ok phys s0)
    let ?m = "copy_in phys [0x90, 0xEB, 0xFE] (memset phys 0 4096 (mem s0))"
    let ?s = "s0\<lparr>mem := ?m\<rparr>" and ?s2 = "paging_map_page_in d 0x8000000 phys 5 (s0\<lparr>mem := ?m\<rparr>)"
    have "load_segments tiny_elf 87 (ehdr_of_bytes tiny_elf) d s1 = Some (0, ?s2, [])"
    proof -
      have "load_page tiny_elf tiny_phdr 5 d 0 0x8000000 s1 = Some (0, ?s2, [])"
        using ok(1,2) by (simp add: load_page_def Let_def tiny_phdr_def tiny_elf_def word_less_nat_alt)
      then show ?thesis
        by (simp add: load_segments_def load_segment_def Let_def tiny_facts tiny_pages(1))
          (simp add: tiny_phdr_def word_less_nat_alt)
    qed
    moreover have "used ?s2 \<noteq> {..<4096}"
    proof -
      have inv: "spaces_inv s1 {d}" using clone_effect(1) [OF boot_spaces clone(1)] clone(2) by simp
      have "\<forall>x. \<not> unat (x - phys) < 4096 \<longrightarrow> ?m x = mem s1 x"
        using ok(8) by (auto simp: copy_in_apply memset_apply) (metis vm.select_convs(2) vm.surjective vm.update_convs(1))
      note dp = data_page [OF inv _ ok(1,2) this]
      have "card (used ?s) \<le> 777" using dp(3) B by (simp add: card_insert_if used_finite)
      then have "card (used ?s2) \<le> 778" using map_page_in_card [OF dp(5), where d = d and virt = "0x8000000" and phys = phys and flags = 5] by simp
      moreover have "card U \<le> 778 \<Longrightarrow> U \<noteq> {..<4096}" for U :: "nat set" by auto
      ultimately show ?thesis by blast
    qed
    ultimately show ?thesis by blast
  qed
qed

theorem load_segments_image_witness:
  "\<exists>d s1 s2. paging_clone_directory (paging_init boot_vm) = (d, s1) \<and>
     load_segments tiny_elf 87 (ehdr_of_bytes tiny_elf) d s1 = Some (0, s2, []) \<and>
     proc_byte (mem s2) d 0x8000002 = Some 0xFE \<and> proc_byte (mem s2) d 0x8000003 = Some 0"
proof -
  obtain d s1 where c: "paging_clone_directory (paging_init boot_vm) = (d, s1)" "d \<noteq> 0" by (rule boot_clone)
  obtain s2 where r: "load_segments tiny_elf 87 (ehdr_of_bytes tiny_elf) d s1 = Some (0, s2, [])" "used s2 \<noteq> {..<4096}"
    using tiny_load [OF c] by blast
  have ph: "phdrs_of tiny_elf (ehdr_of_bytes tiny_elf) [0..<unat (e_phnum (ehdr_of_bytes tiny_elf))] = [tiny_phdr]"
    by (simp add: tiny_facts phdrs_of_def map_filter_simps)
  have "(0x1000000 :: u32) \<le> v \<Longrightarrow> proc_byte (mem s2) d v = image_byte tiny_elf [tiny_phdr] v" for v
    using load_segments_image [OF boot_spaces c, of tiny_elf "ehdr_of_bytes tiny_elf" 0 s2 "[]"] r tiny_pages(2,3)
    unfolding ph by simp
  from this [of "0x8000002"] this [of "0x8000003"] show ?thesis
    using c r by (simp add: image_byte_def tiny_pages)
qed

end
