(* ===== verification/Elf_Args.thy ===== *)
theory Elf_Args
  imports Elf_Props
begin

text \<open>
  The argument block \<^verbatim>\<open>setup_user_stack_args\<close> leaves on the stack page of a new program, as the start-up code of the
  program finds it: the argument count at the stack pointer, then the address of the argument vector, the vector with its
  terminating null pointer, and the strings.
\<close>

section \<open>Writes below a cursor\<close>

lemma offset_unat: "c < 4294967296 \<Longrightarrow> unat (p + of_nat c - p :: u32) = c"
  by (simp add: unat_of_nat_u32)

lemma below_iff:
  assumes "a \<le> 4096" "n \<le> 4096"
  shows "unat (x - (p + of_nat a) :: u32) < n \<longleftrightarrow> a \<le> unat (x - p) \<and> unat (x - p) < a + n"
  unfolding diff_diff_eq [symmetric] by (rule unat_minus_less [OF assms])

lemma write32_other: "\<not> unat (x - a) < 4 \<Longrightarrow> write32 a v m x = m x"
  by (auto simp: write32_def)

lemma push_words_bytes:
  assumes "4 * length vs \<le> q" "q \<le> 4096" "\<not> (q - 4 * length vs \<le> unat (x - p) \<and> unat (x - p) < q)"
  shows "snd (push_words vs (p + of_nat q) m) x = m x"
  using assms
proof (induction vs arbitrary: q m)
  case (Cons v vs)
  define r where "r = q - 4"
  have r: "q = r + 4" using Cons.prems(1) by (simp add: r_def)
  have q: "p + of_nat q - 4 = p + of_nat r" by (simp add: r)
  have "\<not> unat (x - (p + of_nat r)) < 4" using Cons.prems unfolding r by (subst below_iff) auto
  moreover have "snd (push_words vs (p + of_nat r) m0) x = m0 x" for m0 using Cons.IH [of r m0] Cons.prems unfolding r by auto
  ultimately show ?case by (simp add: q write32_other)
qed simp

lemma push_words_append: "push_words (vs @ ws) sp m = (case push_words vs sp m of (sp, m) \<Rightarrow> push_words ws sp m)"
  by (induction vs arbitrary: sp m) auto

section \<open>The strings\<close>

definition cstr_at :: "pmem \<Rightarrow> u32 \<Rightarrow> string \<Rightarrow> bool" where
  "cstr_at m a str \<longleftrightarrow> (\<forall>k < length str. m (a + of_nat k) = of_char (str ! k)) \<and> m (a + of_nat (length str)) = 0"

definition args_size :: "string list \<Rightarrow> nat" where
  "args_size argv = sum_list (map (\<lambda>s. length (cstr s) + 1) argv)"

lemma args_size_simps [simp]: "args_size [] = 0" "args_size (s # ss') = length (cstr s) + 1 + args_size ss'"
  "args_size (rev argv) = args_size argv"
  by (simp_all add: args_size_def rev_map [symmetric])

lemma total_str_eq: "\<forall>s \<in> set argv. is_cstr s \<Longrightarrow> total_str argv = Some (of_nat (args_size argv))"
proof -
  have "fold (\<lambda>s t. do { t \<leftarrow> t; len \<leftarrow> strlen s; Some (t + (len + 1)) }) argv (Some t) = Some (t + of_nat (args_size argv))"
    if "\<forall>s \<in> set argv. is_cstr s" for t
    using that by (induction argv arbitrary: t) (simp_all add: strlen_cstr algebra_simps)
  then show "\<forall>s \<in> set argv. is_cstr s \<Longrightarrow> ?thesis" by (simp add: total_str_def)
qed

lemma cstr_take: "is_cstr s \<Longrightarrow> take (Suc (length (cstr s))) s = cstr s @ [NUL]"
  by (induction s) (auto simp: cstr_def)

lemma copy_cstr:
  fixes p :: u32 and m :: pmem
  assumes "is_cstr s" "b + length (cstr s) < 4096"
  defines "m' \<equiv> copy_in (p + of_nat b) (map of_char (take (Suc (length (cstr s))) s)) m"
  shows "cstr_at m' (p + of_nat b) (cstr s)"
    and "\<not> (b \<le> unat (x - p) \<and> unat (x - p) \<le> b + length (cstr s)) \<Longrightarrow> m' x = m x"
proof -
  have app: "m' x = (if b \<le> unat (x - p) \<and> unat (x - p) \<le> b + length (cstr s)
      then of_char ((cstr s @ [NUL]) ! (unat (x - p) - b)) else m x)" for x
  proof -
    have "unat (x - (p + of_nat b)) < Suc (length (cstr s)) \<longleftrightarrow> b \<le> unat (x - p) \<and> unat (x - p) \<le> b + length (cstr s)"
      using assms(2) by (subst below_iff) auto
    moreover have "unat (x - (p + of_nat b)) = unat (x - p) - b" if "b \<le> unat (x - p)"
      unfolding diff_diff_eq [symmetric] using that assms(2) by (subst unat_sub_if') (simp add: unat_of_nat_u32)
    moreover have "length (map of_char (cstr s @ [NUL]) :: u8 list) = Suc (length (cstr s))" by simp
    ultimately show ?thesis
      unfolding m'_def cstr_take [OF assms(1)] using assms(2) by (subst copy_in_apply) (auto simp: nth_append)
  qed
  show "m' x = m x" if "\<not> (b \<le> unat (x - p) \<and> unat (x - p) \<le> b + length (cstr s))"
    unfolding app using that by auto
  have "m' (p + of_nat b + of_nat k) = of_char ((cstr s @ [NUL]) ! k)" if "k \<le> length (cstr s)" for k
  proof -
    have "p + of_nat b + of_nat k = p + of_nat (b + k)" by simp
    moreover have "unat (p + of_nat (b + k) - p) = b + k" using that assms(2) by (intro offset_unat) simp
    ultimately show ?thesis unfolding app using that by simp
  qed
  then show "cstr_at m' (p + of_nat b) (cstr s)" by (simp add: cstr_at_def nth_append)
qed

lemma put_args_spec:
  assumes "\<forall>s \<in> set xs. is_cstr s" "args_size xs \<le> c" "c \<le> 4096"
  shows "\<exists>vs m'. put_args (p + 4096) xs (p + of_nat c) m = Some (p + of_nat (c - args_size xs), vs, m') \<and> length vs = length xs \<and>
    (\<forall>i < length xs. \<exists>b. vs ! i = USER_STACK_VIRT + of_nat b \<and> c - args_size xs \<le> b \<and> b + length (cstr (xs ! i)) < c \<and>
       cstr_at m' (p + of_nat b) (cstr (xs ! i))) \<and>
    (\<forall>x. \<not> (c - args_size xs \<le> unat (x - p) \<and> unat (x - p) < c) \<longrightarrow> m' x = m x)"
  using assms
proof (induction xs arbitrary: c m)
  case (Cons str xs)
  let ?n = "length (cstr str)"
  define b where "b = c - Suc ?n"
  have str: "is_cstr str" and b: "b + ?n < 4096" "args_size xs \<le> b" "b \<le> 4096" "c - args_size (str # xs) = b - args_size xs" "b + ?n < c" "b < c"
    using Cons.prems by (auto simp: b_def)
  have cur: "p + of_nat c - (of_nat ?n + 1) = p + (of_nat b :: u32)"
    using Cons.prems(2) by (simp add: b_def of_nat_diff algebra_simps)
  have un: "unat (of_nat ?n + 1 :: u32) = Suc ?n" using b(1) unat_of_nat_u32 [of "Suc ?n"] by (simp add: add.commute)
  have virt: "USER_STACK_TOP - (p + 4096 - (p + of_nat b)) = USER_STACK_VIRT + of_nat b" by (simp add: algebra_simps)
  define m1 where "m1 = copy_in (p + of_nat b) (map of_char (take (Suc ?n) str)) m"
  note cp = copy_cstr [OF str b(1), where p = p and m = m, folded m1_def]
  obtain vs m' where IH: "put_args (p + 4096) xs (p + of_nat b) m1 = Some (p + of_nat (b - args_size xs), vs, m')" "length vs = length xs"
    "\<forall>i < length xs. \<exists>b'. vs ! i = USER_STACK_VIRT + of_nat b' \<and> b - args_size xs \<le> b' \<and> b' + length (cstr (xs ! i)) < b \<and>
       cstr_at m' (p + of_nat b') (cstr (xs ! i))"
    "\<forall>x. \<not> (b - args_size xs \<le> unat (x - p) \<and> unat (x - p) < b) \<longrightarrow> m' x = m1 x"
    using Cons.IH [of b m1] Cons.prems(1) b(2,3) by auto
  have run: "put_args (p + 4096) (str # xs) (p + of_nat c) m = Some (p + of_nat (b - args_size xs), (USER_STACK_VIRT + of_nat b) # vs, m')"
    using IH(1) by (simp only: put_args.simps strlen_cstr [OF str] cur un virt Let_def m1_def bind.bind_lunit prod.case)
  have "m' (p + of_nat b + of_nat k) = m1 (p + of_nat b + of_nat k)" if "k \<le> ?n" for k
  proof -
    have "unat (p + of_nat (b + k) - p) = b + k" using that b(1) by (intro offset_unat) simp
    then show ?thesis using IH(4) [rule_format, of "p + of_nat (b + k)"] by (simp add: add.assoc)
  qed
  then have "cstr_at m' (p + of_nat b) (cstr str)" using cp(1) by (simp add: cstr_at_def)
  moreover have "m' x = m x" if "\<not> (b - args_size xs \<le> unat (x - p) \<and> unat (x - p) < c)" for x
  proof -
    have "\<not> (b \<le> unat (x - p) \<and> unat (x - p) \<le> b + ?n)" "\<not> (b - args_size xs \<le> unat (x - p) \<and> unat (x - p) < b)"
      using that b(5,6) by linarith+
    then show ?thesis using IH(4) cp(2) by metis
  qed
  moreover have "\<exists>b'. ((USER_STACK_VIRT + of_nat b) # vs) ! i = USER_STACK_VIRT + of_nat b' \<and> b - args_size xs \<le> b' \<and>
      b' + length (cstr ((str # xs) ! i)) < c \<and> cstr_at m' (p + of_nat b') (cstr ((str # xs) ! i))" if "i < length (str # xs)" for i
  proof (cases i)
    case 0
    then show ?thesis using calculation(1) b(5) by auto
  next
    case (Suc k)
    then have "k < length xs" using that by simp
    from IH(3) [rule_format, OF this] obtain b' where "vs ! k = USER_STACK_VIRT + of_nat b'" "b - args_size xs \<le> b'"
      "b' + length (cstr (xs ! k)) < b" "cstr_at m' (p + of_nat b') (cstr (xs ! k))" by (elim exE conjE) (rule that)
    then show ?thesis using Suc b(6) by (intro exI [of _ b']) simp
  qed
  ultimately show ?case unfolding b(4) using run IH(2) by auto
qed simp

section \<open>The block\<close>

text \<open>Where the kernel finds the byte of the stack page that the program sees at \<open>v\<close>.\<close>

definition stack_phys :: "u32 \<Rightarrow> u32 \<Rightarrow> u32" where
  "stack_phys p v = p + (v - USER_STACK_VIRT)"

lemma stack_phys_offset: "stack_phys p (USER_STACK_VIRT + x) = p + x" "stack_phys p (USER_STACK_VIRT + x + y) = p + (x + y)"
  by (simp_all add: stack_phys_def)

lemma stack_virt: "USER_STACK_TOP - (p + 4096 - (p + x)) = USER_STACK_VIRT + x"
  by (simp add: algebra_simps)

lemma page_aligned_4: "page_aligned p \<Longrightarrow> 4 dvd unat p"
  unfolding page_aligned_def by (rule dvd_trans [of _ 4096]) auto

lemma align_down:
  assumes "page_aligned p" "c < 4096"
  shows "(p + of_nat c) AND NOT 3 = p + of_nat (c - c mod 4)"
proof -
  have mask: "x AND NOT 3 = push_bit 2 (drop_bit 2 x)" for x :: u32
  proof (rule bit_word_eqI)
    have three: "NOT 3 = (NOT (mask 2) :: u32)" by (simp add: mask_eq_exp_minus_1)
    show "bit (x AND NOT 3) n = bit (push_bit 2 (drop_bit 2 x)) n" if "n < LENGTH(32)" for n
    proof (cases "n < 2")
      case False
      then obtain k where "n = k + 2" by (metis add.commute le_add_diff_inverse not_less)
      then show ?thesis unfolding three using that by (simp add: bit_simps)
    qed (auto simp: less_2_cases_iff bit_simps)
  qed
  obtain k where k: "unat p = 4 * k" using page_aligned_4 [OF assms(1)] by (rule dvdE)
  have "unat (p + of_nat c) = unat p + c" by (rule unat_plus_page [OF assms])
  moreover have "unat (p + of_nat (c - c mod 4)) = unat p + (c - c mod 4)" using assms(2) by (intro unat_plus_page [OF assms(1)]) simp
  moreover have "unat (push_bit 2 (drop_bit 2 x) :: u32) = 4 * (unat x div 4)" for x :: u32
  proof -
    have "4 * (unat x div 4) < 4294967296" using unat_less_2p32 [of x] by linarith
    then show ?thesis by (simp add: push_bit_eq_mult unat_word_ariths unat_drop_bit_u32)
  qed
  ultimately show ?thesis unfolding mask u32_eq_iff_unat using k by (simp add: minus_mod_eq_mult_div)
qed

lemma in_page_unat: "page_aligned p \<Longrightarrow> fno p < 4096 \<Longrightarrow> in_page p x \<longleftrightarrow> unat (x - p) < 4096"
  using unat_page [of p] by (auto simp: in_page_def unat_sub_if')

text \<open>The words pushed below an offset of a page, and what stays as it was.\<close>

lemma push_words_at:
  assumes p: "page_aligned p" and q: "q mod 4 = 0" "4 * length ws \<le> q" "q \<le> 4096" and i: "i < length ws"
  shows "read32 (snd (push_words ws (p + of_nat q) m)) (p + of_nat (q - 4 * Suc i)) = ws ! i"
proof -
  have "unat (p + of_nat q) = (unat p + q) mod 4294967296" using q(3) by (simp add: unat_word_ariths unat_of_nat_u32)
  moreover have "4 dvd unat p + q" using page_aligned_4 [OF p] q(1) by (simp add: dvd_add mod_0_imp_dvd)
  ultimately have "unat (p + of_nat q) mod 4 = 0" by (simp add: mod_mod_cancel)
  moreover have "pushed (p + of_nat q) i = p + of_nat (q - 4 * Suc i)" using q(2) i by (simp add: pushed_def of_nat_diff)
  ultimately show ?thesis using push_words_read [of "p + of_nat q" ws i m] q(2,3) i by simp
qed

lemma cstr_at_push:
  assumes "cstr_at m (p + of_nat b) str" "q \<le> b" "b + length str < 4096" "4 * length ws \<le> q"
  shows "cstr_at (snd (push_words ws (p + of_nat q) m)) (p + of_nat b) str"
proof -
  have "snd (push_words ws (p + of_nat q) m) (p + of_nat b + of_nat k) = m (p + of_nat b + of_nat k)" if "k \<le> length str" for k
  proof -
    have "unat (p + of_nat (b + k) - p) = b + k" using that assms(3) by (intro offset_unat) simp
    then show ?thesis using assms(2-4) push_words_bytes [of ws q "p + of_nat (b + k)" p m] by (simp add: add.assoc)
  qed
  then show ?thesis using assms(1) by (simp add: cstr_at_def)
qed

lemma args_run:
  assumes p: "page_aligned p" and args: "\<forall>s \<in> set argv. is_cstr s" "argv \<noteq> []" "length argv \<le> 64"
    and fit: "args_size argv + 4 * (length argv + 3) \<le> 3840"
    and put: "put_args (p + 4096) (rev argv) (p + 4096) m = Some (p + of_nat c, vs, m1)" "length vs = length argv"
    and c: "c = 4096 - args_size argv" and e: "c - c mod 4 = e + 4 * (length argv + 3)"
  shows "setup_user_stack_args p (Some argv) (int (length argv)) m = Some (USER_STACK_VIRT + of_nat e,
    snd (push_words (0 # vs @ [USER_STACK_VIRT + of_nat (e + 8), of_nat (length argv)]) (p + of_nat (c - c mod 4)) m1), [])"
proof -
  let ?n = "length argv"
  have pos: "0 < args_size argv" using args(2) by (cases argv) simp_all
  have sp: "p + of_nat c AND NOT 3 = p + of_nat (c - c mod 4)" using pos c fit by (intro align_down [OF p]) simp
  have space: "(of_nat ?n + 1 + 1 + 1) * 4 = (of_nat (4 * (?n + 3)) :: u32)" by simp
  have room: "\<not> ARGV_MAX_TOTAL < of_nat (args_size argv) + of_nat (4 * (?n + 3))"
    using fit unat_of_nat_u32 [of "args_size argv + 4 * (?n + 3)"] unfolding of_nat_add [symmetric] word_less_nat_alt by simp
  define av where "av = USER_STACK_VIRT + of_nat (e + 8)"
  obtain m2 where p2: "push_words (0 # vs) (p + of_nat (c - c mod 4)) m1 = (p + of_nat (e + 8), m2)"
    using push_words_sp [of "0 # vs" "p + of_nat (c - c mod 4)" m1] put(2) unfolding e
    by (cases "push_words (0 # vs) (p + of_nat (e + 4 * (?n + 3))) m1") (simp add: algebra_simps)
  obtain m3 where p3: "push_words [av, of_nat ?n] (p + of_nat (e + 8)) m2 = (p + of_nat e, m3)" by (simp add: algebra_simps)
  have all: "push_words (0 # vs @ [av, of_nat ?n]) (p + of_nat (c - c mod 4)) m1 = (p + of_nat e, m3)"
    using push_words_append [of "0 # vs" "[av, of_nat ?n]"] p2 p3 by (simp only: append_Cons prod.case)
  have guards: "\<not> int ?n \<le> 0" "\<not> length argv < nat (int ?n)" "\<not> 64 < nat (int ?n)" "take (nat (int ?n)) argv = argv"
    "word_of_int (int ?n) = (of_nat ?n :: u32)"
    using args(2,3) by simp_all
  show ?thesis
    unfolding setup_user_stack_args_def option.case Let_def guards if_False total_str_eq [OF args(1)] bind.bind_lunit space
      if_not_P [OF room] put(1) prod.case sp p2 stack_virt av_def [symmetric] p3 all snd_conv
    using guards by simp
qed

text \<open>The vector, its address and the count, once pushed below offset \<open>q\<close>.\<close>

definition arg_words :: "nat \<Rightarrow> u32 list \<Rightarrow> u32 list" where
  "arg_words e vs = 0 # vs @ [USER_STACK_VIRT + of_nat (e + 8), of_nat (length vs)]"

lemma arg_words_read:
  fixes m :: pmem
  assumes p: "page_aligned p" and q: "q = e + 4 * (length vs + 3)" "q mod 4 = 0" "q \<le> 4096"
  defines "m' \<equiv> snd (push_words (arg_words e vs) (p + of_nat q) m)" and "sp \<equiv> USER_STACK_VIRT + of_nat e"
  shows "read32 m' (stack_phys p sp) = of_nat (length vs)" "read32 m' (stack_phys p (sp + 4)) = sp + 8"
    and "i \<le> length vs \<Longrightarrow> read32 m' (stack_phys p (sp + 8 + of_nat (4 * i))) = (0 # vs) ! (length vs - i)"
    and "USER_STACK_VIRT \<le> sp" "sp < USER_STACK_TOP" "unat sp mod 4 = 0"
proof -
  let ?n = "length vs" and ?ws = "arg_words e vs"
  have len: "length ?ws = ?n + 3" by (simp add: arg_words_def)
  have rd: "read32 m' (p + (of_nat e + of_nat (4 * k))) = ?ws ! (?n + 2 - k)" if "k < ?n + 3" for k
  proof -
    have "q - 4 * Suc (?n + 2 - k) = e + 4 * k" unfolding q(1) using that by simp
    then show ?thesis
      using push_words_at [OF p q(2) _ q(3), of ?ws "?n + 2 - k" m] len q(1) that by (simp add: m'_def del: push_words.simps)
  qed
  show "read32 m' (stack_phys p sp) = of_nat ?n" "read32 m' (stack_phys p (sp + 4)) = sp + 8"
    using rd [of 0] rd [of 1] by (simp_all add: sp_def stack_phys_def arg_words_def nth_append nth_Cons add.commute)
  show "read32 m' (stack_phys p (sp + 8 + of_nat (4 * i))) = (0 # vs) ! (?n - i)" if "i \<le> ?n"
  proof -
    have "?n - i < length (0 # vs)" by (simp add: less_Suc_eq_le)
    then have "?ws ! (?n - i) = (0 # vs) ! (?n - i)" unfolding arg_words_def append_Cons [symmetric] by (simp only: nth_append if_True)
    then show ?thesis using rd [of "i + 2"] that by (simp add: sp_def stack_phys_def algebra_simps)
  qed
  have u: "unat sp = 0xBFFFF000 + e" unfolding sp_def using q(1,3) by (subst unat_add_u32) (simp_all add: unat_of_nat_u32)
  have "e mod 4 = 0" using q(1,2) by (metis mod_mult_self2)
  then have "(0xBFFFF000 + e) mod 4 = 0" by (simp add: mod_add_eq [symmetric])
  then show "USER_STACK_VIRT \<le> sp" "sp < USER_STACK_TOP" "unat sp mod 4 = 0"
    using u q(1,3) by (simp_all add: word_le_nat_alt word_less_nat_alt)
qed

lemma args_found:
  assumes "page_aligned p" "fno p < 4096" "\<forall>s \<in> set argv. is_cstr s" "argv \<noteq> []" "length argv \<le> 64"
    and "args_size argv + 4 * (length argv + 3) \<le> 3840"
  shows "\<exists>esp m'. setup_user_stack_args p (Some argv) (int (length argv)) m = Some (esp, m', []) \<and>
    USER_STACK_VIRT \<le> esp \<and> esp < USER_STACK_TOP \<and> unat esp mod 4 = 0 \<and>
    read32 m' (stack_phys p esp) = of_nat (length argv) \<and> read32 m' (stack_phys p (esp + 4)) = esp + 8 \<and>
    (\<forall>i < length argv. cstr_at m' (stack_phys p (read32 m' (stack_phys p (esp + 8 + of_nat (4 * i))))) (cstr (argv ! i))) \<and>
    read32 m' (stack_phys p (esp + 8 + of_nat (4 * length argv))) = 0 \<and>
    (\<forall>x. \<not> in_page p x \<longrightarrow> m' x = m x)"
proof -
  let ?n = "length argv"
  define c where "c = 4096 - args_size argv"
  have fit: "args_size (rev argv) \<le> 4096" "\<forall>s \<in> set (rev argv). is_cstr s" using assms(3,6) by simp_all
  obtain vs m1 where put: "put_args (p + 4096) (rev argv) (p + 4096) m = Some (p + of_nat c, vs, m1)" "length vs = ?n"
    "\<forall>i < ?n. \<exists>b. vs ! i = USER_STACK_VIRT + of_nat b \<and> c \<le> b \<and> b + length (cstr (rev argv ! i)) < 4096 \<and>
       cstr_at m1 (p + of_nat b) (cstr (rev argv ! i))"
    "\<forall>x. \<not> (c \<le> unat (x - p) \<and> unat (x - p) < 4096) \<longrightarrow> m1 x = m x"
    using put_args_spec [OF fit(2,1), of p m] by (auto simp: c_def)
  define q where "q = c - c mod 4"
  define e where "e = q - 4 * (?n + 3)"
  have big: "4 * (?n + 3) + 3 \<le> c" "c \<le> 4096" using assms(6) by (simp_all add: c_def)
  have q: "q = e + 4 * (length vs + 3)" "q mod 4 = 0" "q \<le> 4096" "q \<le> c"
    using big put(2) by (simp_all add: e_def q_def minus_mod_eq_mult_div)
  define m' where "m' = snd (push_words (arg_words e vs) (p + of_nat q) m1)"
  have len: "4 * length (arg_words e vs) \<le> q" using q(1) by (simp add: arg_words_def)
  note rd = arg_words_read(1-3) [OF assms(1) q(1-3), where m = m1, folded m'_def] arg_words_read(4-6) [OF assms(1) q(1-3)]
  have run: "setup_user_stack_args p (Some argv) (int ?n) m = Some (USER_STACK_VIRT + of_nat e, m', [])"
    using args_run [OF assms(1,3-6) put(1,2) c_def, of e] q(1) put(2) by (simp add: m'_def arg_words_def q_def)
  have "cstr_at m' (stack_phys p ((0 # vs) ! (?n - i))) (cstr (argv ! i))" if i: "i < ?n" for i
  proof -
    have lt: "?n - Suc i < ?n" "?n - i = Suc (?n - Suc i)" using i by simp_all
    from put(3) [rule_format, OF lt(1)] obtain b where b: "vs ! (?n - Suc i) = USER_STACK_VIRT + of_nat b" "c \<le> b"
      "b + length (cstr (argv ! i)) < 4096" "cstr_at m1 (p + of_nat b) (cstr (argv ! i))"
      using i by (elim exE conjE) (rule that; simp add: rev_nth Suc_diff_Suc)
    show ?thesis
      unfolding m'_def lt(2) nth_Cons_Suc b(1) stack_phys_offset by (rule cstr_at_push [OF b(4)]) (use b(2,3) q(4) len in linarith)+
  qed
  moreover have "m' x = m x" if "\<not> in_page p x" for x
    using that in_page_unat [OF assms(1,2), of x] put(4) push_words_bytes [OF len q(3), of x p m1] q(3) unfolding m'_def by auto
  ultimately show ?thesis
    using run rd put(2) by (intro exI [of _ "USER_STACK_VIRT + of_nat e"] exI [of _ m']) simp
qed

text \<open>(C11) Arguments of a program: for 1 to 64 strings that fit, \<^verbatim>\<open>setup_user_stack_args\<close> returns a word-aligned stack
  pointer inside the stack page; the program finds there the argument count, then the address of the vector right
  above it, each entry of the vector points to its string with the terminator, and the vector ends with a null pointer;
  nothing outside the page is written.  Without strings it stores nothing and returns the top of the stack, which lies outside the page, so
  neither a count nor a vector is there to be found.\<close>

theorem user_args_found:
  assumes "page_aligned p" "fno p < 4096" "\<forall>s \<in> set argv. is_cstr s" "length argv \<le> 64"
    and "args_size argv + 4 * (length argv + 3) \<le> 3840"
  shows "if argv = [] then setup_user_stack_args p (Some argv) (int (length argv)) m = Some (USER_STACK_TOP, m, [])
   else \<exists>esp m'. setup_user_stack_args p (Some argv) (int (length argv)) m = Some (esp, m', []) \<and>
    USER_STACK_VIRT \<le> esp \<and> esp < USER_STACK_TOP \<and> unat esp mod 4 = 0 \<and>
    read32 m' (stack_phys p esp) = of_nat (length argv) \<and> read32 m' (stack_phys p (esp + 4)) = esp + 8 \<and>
    (\<forall>i < length argv. cstr_at m' (stack_phys p (read32 m' (stack_phys p (esp + 8 + of_nat (4 * i))))) (cstr (argv ! i))) \<and>
    read32 m' (stack_phys p (esp + 8 + of_nat (4 * length argv))) = 0 \<and>
    (\<forall>x. \<not> in_page p x \<longrightarrow> m' x = m x)"
proof (cases "argv = []")
  case True
  then show ?thesis by (simp add: setup_user_stack_args_def)
next
  case False
  then show ?thesis using args_found [OF assms(1-3) _ assms(4,5), of m] by (simp only: if_False) simp
qed

theorem user_args_found_witness:
  "\<exists>esp m'. setup_user_stack_args 0x300000 (Some [''cat'' @ [NUL], ''log.txt'' @ [NUL]]) 2 (\<lambda>_. 0) = Some (esp, m', []) \<and>
     read32 m' (stack_phys 0x300000 esp) = 2 \<and>
     cstr_at m' (stack_phys 0x300000 (read32 m' (stack_phys 0x300000 (esp + 12)))) ''log.txt''"
proof -
  let ?argv = "[''cat'' @ [NUL], ''log.txt'' @ [NUL]]"
  have "page_aligned 0x300000" "fno 0x300000 < 4096" "\<forall>s \<in> set ?argv. is_cstr s" "length ?argv \<le> 64"
    "args_size ?argv + 4 * (length ?argv + 3) \<le> 3840"
    by (simp_all add: page_aligned_def fno_def)
  from user_args_found [OF this, of "\<lambda>_. 0"] obtain esp m' where
    "setup_user_stack_args 0x300000 (Some ?argv) 2 (\<lambda>_. 0) = Some (esp, m', [])" "read32 m' (stack_phys 0x300000 esp) = 2"
    "\<forall>i < 2. cstr_at m' (stack_phys 0x300000 (read32 m' (stack_phys 0x300000 (esp + 8 + of_nat (4 * i))))) (cstr (?argv ! i))"
    by (simp add: numeral_2_eq_2) (metis)
  from this(1,2) this(3) [rule_format, of 1] show ?thesis by (intro exI [of _ esp] exI [of _ m']) (simp add: add.assoc)
qed

end
