(* ===== verification/Libc.thy ===== *)
theory Libc
  imports Klibc_Stdio "HOL-Library.Monad_Syntax"
begin

text \<open>
  The library linked into user programs, \<^verbatim>\<open>libc/string.c\<close> and \<^verbatim>\<open>libc/stdio.c\<close>.  Names that the kernel library also has
  carry the suffix \<open>_u\<close>.  A buffer is the list of characters of its object: an access outside it, a missing or ill-typed variable argument
  and the overflow of a signed integer have no result; only the negation in \<^verbatim>\<open>itoa\<close> and in the conversion \<^verbatim>\<open>%d\<close>, whose result is read as unsigned, is
  taken as the negation of the word.  What a printing function hands to \<^verbatim>\<open>sys_write\<close> is the list of the texts written.
\<close>

section \<open>Strings\<close>

fun strlen_u_loop :: "string \<Rightarrow> int \<Rightarrow> int option" where
  "strlen_u_loop [] n = None"
| "strlen_u_loop (c # s) n = (if c = NUL then Some n else if n = 2147483647 then None else strlen_u_loop s (n + 1))"

definition strlen_u :: "string \<Rightarrow> int option" where
  "strlen_u s = strlen_u_loop s 0"

fun strcmp_u :: "string \<Rightarrow> string \<Rightarrow> int option" where
  "strcmp_u (x # a) (y # b) = (if x \<noteq> NUL \<and> x = y then strcmp_u a b else Some (of_char x - of_char y))"
| "strcmp_u _ _ = None"

fun strncmp_u :: "string \<Rightarrow> string \<Rightarrow> nat \<Rightarrow> int option" where
  "strncmp_u a b 0 = Some 0"
| "strncmp_u (x # a) (y # b) (Suc n) = (if x \<noteq> NUL \<and> x = y then strncmp_u a b n else Some (of_char x - of_char y))"
| "strncmp_u _ _ (Suc n) = None"

fun strcpy_u :: "string \<Rightarrow> string \<Rightarrow> string option" where
  "strcpy_u (d # dst) (c # src) = (if c \<noteq> NUL then map_option ((#) c) (strcpy_u dst src) else Some (c # dst))"
| "strcpy_u _ _ = None"

text \<open>The second loop, \<^verbatim>\<open>while (n--) *d++ = '\0'\<close>.\<close>

fun strncpy_u_pad :: "string \<Rightarrow> nat \<Rightarrow> string option" where
  "strncpy_u_pad dst 0 = Some dst"
| "strncpy_u_pad (d # dst) (Suc n) = map_option ((#) NUL) (strncpy_u_pad dst n)"
| "strncpy_u_pad [] (Suc n) = None"

text \<open>The first loop stores a character, advances, and only then counts it down, unless it was the terminator.\<close>

fun strncpy_u :: "string \<Rightarrow> string \<Rightarrow> nat \<Rightarrow> string option" where
  "strncpy_u dst src 0 = Some dst"
| "strncpy_u (d # dst) (c # src) (Suc n) =
     map_option ((#) c) (if c \<noteq> NUL then strncpy_u dst src n else strncpy_u_pad dst (Suc n))"
| "strncpy_u _ _ (Suc n) = None"

fun memcpy_u :: "u8 list \<Rightarrow> u8 list \<Rightarrow> nat \<Rightarrow> u8 list option" where
  "memcpy_u dst src 0 = Some dst"
| "memcpy_u (d # dst) (s # src) (Suc n) = map_option ((#) s) (memcpy_u dst src n)"
| "memcpy_u _ _ (Suc n) = None"

fun memset_u :: "u8 list \<Rightarrow> u8 \<Rightarrow> nat \<Rightarrow> u8 list option" where
  "memset_u dst val 0 = Some dst"
| "memset_u (d # dst) val (Suc n) = map_option ((#) val) (memset_u dst val n)"
| "memset_u [] val (Suc n) = None"

fun memcmp_u :: "u8 list \<Rightarrow> u8 list \<Rightarrow> nat \<Rightarrow> int option" where
  "memcmp_u a b 0 = Some 0"
| "memcmp_u (x # a) (y # b) (Suc n) = (if x \<noteq> y then Some (uint x - uint y) else memcmp_u a b n)"
| "memcmp_u _ _ (Suc n) = None"

section \<open>Numbers\<close>

text \<open>The digit loop and \<^verbatim>\<open>reverse\<close> are, statement by statement, those of the kernel library.\<close>

definition utoa_u :: "u32 \<Rightarrow> u32 \<Rightarrow> string option" where
  "utoa_u value base = (if value = 0 then Some ''0'' else map_option reverse (utoa_loop value base []))"

definition itoa_u :: "u32 \<Rightarrow> u32 \<Rightarrow> string option" where
  "itoa_u value base =
     (if value = 0 then Some ''0''
      else let is_negative = sint value < 0 \<and> base = 10;
               uvalue = (if is_negative then - value else value)
           in map_option (\<lambda>str. reverse (if is_negative then str @ ''-'' else str)) (utoa_loop uvalue base []))"

section \<open>The formatter\<close>

abbreviation INT_MAX :: int where "INT_MAX \<equiv> 2147483647"
abbreviation PRINTF_BUFSZ :: u32 where "PRINTF_BUFSZ \<equiv> 256"

text \<open>The buffer and the position; \<^verbatim>\<open>size - 1\<close> wraps around for a size of 0.\<close>

type_synonym sink = "string \<times> u32"

definition out_char :: "u32 \<Rightarrow> char \<Rightarrow> sink \<Rightarrow> sink option" where
  "out_char sz c out =
     (case out of (buf, pos) \<Rightarrow>
        if pos < sz - 1 then
          if unat pos < length buf then Some (buf[unat pos := c], pos + 1) else None
        else Some (buf, pos + 1))"

text \<open>A loop of \<^verbatim>\<open>out_char\<close> over given characters.\<close>

fun out_all :: "u32 \<Rightarrow> string \<Rightarrow> sink \<Rightarrow> sink option" where
  "out_all sz [] out = Some out"
| "out_all sz (c # cs) out = out_char sz c out \<bind> out_all sz cs"

fun out_string :: "u32 \<Rightarrow> string \<Rightarrow> sink \<Rightarrow> sink option" where
  "out_string sz [] out = None"
| "out_string sz (c # s) out = (if c = NUL then Some out else out_char sz c out \<bind> out_string sz s)"

subsection \<open>Parsing a directive\<close>

record directive =
  flag_left :: bool
  flag_zero :: bool
  width :: int
  has_prec :: bool
  prec :: int

fun parse_flags :: "string \<Rightarrow> bool \<Rightarrow> bool \<Rightarrow> (bool \<times> bool \<times> string) option" where
  "parse_flags [] l z = None"
| "parse_flags (c # fmt) l z =
     (if c = CHR ''-'' \<or> c = CHR ''0'' then parse_flags fmt (l \<or> c = CHR ''-'') (z \<or> c = CHR ''0'')
      else Some (l, z, c # fmt))"

definition is_digit :: "char \<Rightarrow> bool" where
  "is_digit c \<longleftrightarrow> (48 :: nat) \<le> of_char c \<and> of_char c \<le> (57 :: nat)"

fun parse_digits :: "string \<Rightarrow> int \<Rightarrow> (int \<times> string) option" where
  "parse_digits [] n = None"
| "parse_digits (c # fmt) n =
     (if is_digit c then
        let n = n * 10 + (of_char c - 48) in if n > INT_MAX then None else parse_digits fmt n
      else Some (n, c # fmt))"

definition parse_prec :: "string \<Rightarrow> (bool \<times> int \<times> string) option" where
  "parse_prec fmt =
     (case fmt of
        [] \<Rightarrow> None
      | c # r \<Rightarrow> if c = CHR ''.'' then map_option (Pair True) (parse_digits r 0) else Some (False, 0, fmt))"

definition parse_length :: "string \<Rightarrow> string option" where
  "parse_length fmt = (case fmt of [] \<Rightarrow> None | c # r \<Rightarrow> Some (if c = CHR ''l'' then r else fmt))"

text \<open>From the character after \<^verbatim>\<open>%\<close> to the conversion specifier and what follows it.\<close>

definition parse_directive :: "string \<Rightarrow> (directive \<times> char \<times> string) option" where
  "parse_directive fmt = do {
     (l, z, fmt) \<leftarrow> parse_flags fmt False False;
     (w, fmt) \<leftarrow> parse_digits fmt 0;
     (hp, p, fmt) \<leftarrow> parse_prec fmt;
     fmt \<leftarrow> parse_length fmt;
     case fmt of
       [] \<Rightarrow> None
     | c # r \<Rightarrow> Some (\<lparr>flag_left = l, flag_zero = (if l then False else z), width = w, has_prec = hp, prec = p\<rparr>, c, r)
   }"

subsection \<open>Converting an argument\<close>

text \<open>
  \<open>Conv text is_negative is_number\<close> is the switch's result, with \<open>text\<close> the first \<^verbatim>\<open>conv_len\<close> characters; \<open>Lit\<close> is a case that prints
  and continues.  A string argument is the characters up to its terminator.
\<close>

datatype conv = Conv string bool bool | Lit string

definition str_arg :: "string option \<Rightarrow> string option" where
  "str_arg s =
     (let t = (case s of None \<Rightarrow> ''(null)'' | Some t \<Rightarrow> cstr t) in if int (length t) > INT_MAX then None else Some t)"

definition convert :: "directive \<Rightarrow> char \<Rightarrow> va list \<Rightarrow> (conv \<times> va list) option" where
  "convert d c args =
     (let num = (\<lambda>f. case args of VInt v # r \<Rightarrow> map_option (\<lambda>cv. (cv, r)) (f v) | _ \<Rightarrow> None)
      in if c = CHR ''d'' \<or> c = CHR ''i'' then
           num (\<lambda>v. map_option (\<lambda>t. Conv t (sint v < 0) True) (utoa_u (if sint v < 0 then - v else v) 10))
         else if c = CHR ''u'' then num (\<lambda>v. map_option (\<lambda>t. Conv t False True) (utoa_u v 10))
         else if c = CHR ''x'' then num (\<lambda>v. map_option (\<lambda>t. Conv t False True) (utoa_u v 16))
         else if c = CHR ''X'' then num (\<lambda>v. map_option (\<lambda>t. Conv (upcase_hex t) False True) (utoa_u v 16))
         else if c = CHR ''o'' then num (\<lambda>v. map_option (\<lambda>t. Conv t False True) (utoa_u v 8))
         else if c = CHR ''c'' then num (\<lambda>v. Some (Conv [char_of (unat v)] False False))
         else if c = CHR ''s'' then
           (case args of
              VStr s # r \<Rightarrow>
                map_option (\<lambda>t. (Conv (if has_prec d \<and> prec d < int (length t) then take (nat (prec d)) t else t) False False, r)) (str_arg s)
            | _ \<Rightarrow> None)
         else if c = CHR ''p'' then num (\<lambda>v. map_option (\<lambda>t. Conv (''0x'' @ t) False False) (utoa_u v 16))
         else if c = CHR ''%'' then Some (Lit ''%'', args)
         else Some (Lit [CHR ''%'', c], args))"

subsection \<open>Emitting a field\<close>

definition emit :: "u32 \<Rightarrow> directive \<Rightarrow> conv \<Rightarrow> sink \<Rightarrow> sink option" where
  "emit sz d cv out =
     (case cv of
        Lit t \<Rightarrow> out_all sz t out
      | Conv t is_negative is_number \<Rightarrow>
          let conv_len = int (length t);
              more = is_number \<and> has_prec d \<and> prec d > conv_len;
              zero_prefix = (if more then prec d - conv_len else 0);
              zero = (if more then False else flag_zero d);
              field_len = conv_len + zero_prefix + (if is_negative then 1 else 0);
              pad = (if width d > field_len then width d - field_len else 0)
          in if field_len > INT_MAX then None
             else do {
               out \<leftarrow> (if \<not> flag_left d \<and> \<not> zero then out_all sz (replicate (nat pad) (CHR '' '')) out else Some out);
               out \<leftarrow> (if is_negative then out_char sz (CHR ''-'') out else Some out);
               out \<leftarrow> (if zero then out_all sz (replicate (nat pad) (CHR ''0'')) out else Some out);
               out \<leftarrow> out_all sz (replicate (nat zero_prefix) (CHR ''0'')) out;
               out \<leftarrow> out_all sz t out;
               if flag_left d then out_all sz (replicate (nat pad) (CHR '' '')) out else Some out
             })"

subsection \<open>The loop\<close>

lemma parse_flags_length: "parse_flags fmt l z = Some (l', z', r) \<Longrightarrow> length r \<le> length fmt"
  by (induction fmt l z rule: parse_flags.induct) (auto split: if_splits)

lemma parse_digits_length: "parse_digits fmt n = Some (n', r) \<Longrightarrow> length r \<le> length fmt"
  by (induction fmt n rule: parse_digits.induct) (auto simp: Let_def split: if_splits)

lemma parse_directive_length: "parse_directive fmt = Some (d, c, r) \<Longrightarrow> length r < length fmt"
  by (fastforce simp: parse_directive_def parse_prec_def parse_length_def
      dest: parse_flags_length parse_digits_length split: bind_splits list.splits if_splits)

text \<open>One turn of the loop after \<^verbatim>\<open>%\<close>: what is emitted, the arguments left, the rest of the format.\<close>

definition directive_step :: "string \<Rightarrow> va list \<Rightarrow> (directive \<times> conv \<times> va list \<times> string) option" where
  "directive_step fmt args = do {
     (d, c, r) \<leftarrow> parse_directive fmt;
     (cv, args) \<leftarrow> convert d c args;
     Some (d, cv, args, r)
   }"

lemma directive_step_length: "directive_step fmt args = Some (d, cv, args', r) \<Longrightarrow> length r < length fmt"
  by (auto simp: directive_step_def dest: parse_directive_length split: bind_splits)

function vsnprintf_loop :: "u32 \<Rightarrow> string \<Rightarrow> va list \<Rightarrow> sink \<Rightarrow> sink option" where
  "vsnprintf_loop sz fmt args out =
     (case fmt of
        [] \<Rightarrow> None
      | c # fmt \<Rightarrow>
          if c = NUL then Some out
          else if c \<noteq> CHR ''%'' then (case out_char sz c out of None \<Rightarrow> None | Some out \<Rightarrow> vsnprintf_loop sz fmt args out)
          else if fmt = [] then None
          else if hd fmt = NUL then Some out
          else
            (case directive_step fmt args of
               None \<Rightarrow> None
             | Some (d, cv, args, r) \<Rightarrow>
                 (case emit sz d cv out of None \<Rightarrow> None | Some out \<Rightarrow> vsnprintf_loop sz r args out)))"
  by pat_completeness auto
termination
  by (relation "measure (\<lambda>(_, fmt, _, _). length fmt)") (auto dest!: directive_step_length)

declare vsnprintf_loop.simps [simp del]

text \<open>The result is the \<^verbatim>\<open>int\<close> returned and the buffer.\<close>

definition vsnprintf :: "string \<Rightarrow> u32 \<Rightarrow> string \<Rightarrow> va list \<Rightarrow> (int \<times> string) option" where
  "vsnprintf buf sz fmt args = do {
     (buf, pos) \<leftarrow> vsnprintf_loop sz fmt args (buf, 0);
     if sz > 0 then
       let e = unat (if pos < sz then pos else sz - 1)
       in if e < length buf then Some (sint pos, buf[e := NUL]) else None
     else Some (sint pos, buf)
   }"

definition snprintf :: "string \<Rightarrow> u32 \<Rightarrow> string \<Rightarrow> va list \<Rightarrow> (int \<times> string) option" where
  "snprintf buf sz fmt args = vsnprintf buf sz fmt args"

definition vsprintf :: "string \<Rightarrow> string \<Rightarrow> va list \<Rightarrow> (int \<times> string) option" where
  "vsprintf buf fmt args = vsnprintf buf (- 1) fmt args"

definition sprintf :: "string \<Rightarrow> string \<Rightarrow> va list \<Rightarrow> (int \<times> string) option" where
  "sprintf buf fmt args = vsprintf buf fmt args"

text \<open>\<^verbatim>\<open>vprintf\<close> formats into a local buffer, whose initial content is the argument \<open>buf\<close>, and writes it at once.\<close>

definition vprintf :: "string \<Rightarrow> string \<Rightarrow> va list \<Rightarrow> (int \<times> string list) option" where
  "vprintf buf fmt args = do {
     (n, buf) \<leftarrow> vsnprintf buf PRINTF_BUFSZ fmt args;
     Some (n, if n > 0 then [take (nat (if n < 256 then n else 255)) buf] else [])
   }"

definition printf :: "string \<Rightarrow> string \<Rightarrow> va list \<Rightarrow> (int \<times> string list) option" where
  "printf buf fmt args = vprintf buf fmt args"

section \<open>The older output functions\<close>

text \<open>The value \<^verbatim>\<open>sys_write\<close> returns is the argument \<open>ret\<close>.\<close>

definition puts :: "(string \<Rightarrow> int) \<Rightarrow> string \<Rightarrow> (int \<times> string list) option" where
  "puts ret s = do {
     len \<leftarrow> strlen_u s;
     let text = take (nat len) s;
     Some (ret text + 1, [text, [CHR 0x0A]])
   }"

definition putchar :: "char \<Rightarrow> string list" where
  "putchar c = [[c]]"

function print_int_digits :: "int \<Rightarrow> string \<Rightarrow> string" where
  "print_int_digits val buf =
     (if val > 0 then print_int_digits (val div 10) (buf @ [char_of (48 + nat (val mod 10))]) else buf)"
  by pat_completeness auto
termination
  by (relation "measure (\<lambda>(v, _). nat v)") auto

declare print_int_digits.simps [simp del]

text \<open>The negation of the smallest integer overflows.\<close>

definition print_int :: "int \<Rightarrow> string list option" where
  "print_int val =
     (if val < 0 \<and> - val > INT_MAX then None
      else
        let sign = (if val < 0 then putchar (CHR ''-'') else []);
            val = (if val < 0 then - val else val)
        in if val = 0 then Some (sign @ putchar (CHR ''0''))
           else Some (sign @ concat (map putchar (rev (print_int_digits val [])))))"

text \<open>The loop from \<open>i = 7\<close> down to 0 stores the lowest digit last.\<close>

fun print_hex_digits :: "nat \<Rightarrow> u32 \<Rightarrow> string \<Rightarrow> string" where
  "print_hex_digits 0 val s = s"
| "print_hex_digits (Suc i) val s =
     print_hex_digits i (drop_bit 4 val) (''0123456789abcdef'' ! unat (val AND 0xF) # s)"

definition print_hex :: "u32 \<Rightarrow> string list" where
  "print_hex val = [''0x'' @ print_hex_digits 8 val []]"

end
