(* ===== verification/Libc_Props.thy ===== *)
theory Libc_Props
  imports Libc
begin

text \<open>
  What the user library computes.  The formatter is compared with a reference that builds the whole text of a format without a buffer: the
  buffer holds as much of it as fits and the length of all of it is returned.  On the directives both know, the reference is the text the
  kernel's \<^verbatim>\<open>kprintf\<close> prints.
\<close>

lemma sint_of_nat_small: "n \<le> 2147483647 \<Longrightarrow> sint (of_nat n :: u32) = int n"
  by (simp add: signed_of_nat signed_take_bit_int_eq_self)

section \<open>The reference\<close>

text \<open>A field: the converted text with its leading zeros and sign, padded to the width.\<close>

definition field_text :: "directive \<Rightarrow> conv \<Rightarrow> string option" where
  "field_text d cv =
     (case cv of
        Lit t \<Rightarrow> Some t
      | Conv t is_negative is_number \<Rightarrow>
          let precise = is_number \<and> has_prec d \<and> int (length t) < prec d;
              sign = (if is_negative then ''-'' else []);
              digits = (if precise then replicate (nat (prec d) - length t) (CHR ''0'') @ t else t);
              pad = nat (width d) - length (sign @ digits)
          in if int (length (sign @ digits)) > INT_MAX then None
             else Some
               (if flag_left d then sign @ digits @ replicate pad (CHR '' '')
                else if flag_zero d \<and> \<not> precise then sign @ replicate pad (CHR ''0'') @ digits
                else replicate pad (CHR '' '') @ sign @ digits))"

function format_text :: "string \<Rightarrow> va list \<Rightarrow> string option" where
  "format_text fmt args =
     (case fmt of
        [] \<Rightarrow> None
      | c # fmt \<Rightarrow>
          if c = NUL then Some []
          else if c \<noteq> CHR ''%'' then map_option ((#) c) (format_text fmt args)
          else if fmt = [] then None
          else if hd fmt = NUL then Some []
          else
            (case directive_step fmt args of
               None \<Rightarrow> None
             | Some (d, cv, args, r) \<Rightarrow>
                 (case field_text d cv of None \<Rightarrow> None | Some t \<Rightarrow> map_option ((@) t) (format_text r args))))"
  by pat_completeness auto
termination
  by (relation "measure (\<lambda>(fmt, _). length fmt)") (auto dest!: directive_step_length)

declare format_text.simps [simp del]

section \<open>The buffer\<close>

text \<open>The sink after the text \<open>t\<close> has been sent to it, with room for \<open>n\<close> characters.\<close>

definition sent :: "nat \<Rightarrow> string \<Rightarrow> string \<Rightarrow> sink" where
  "sent n buf t = (take n t @ drop (min n (length t)) buf, of_nat (length t))"

lemma out_char_sent:
  assumes "0 < sz" "unat sz \<le> length buf" "length t < 4294967295"
  shows "out_char sz c (sent (unat sz - 1) buf t) = Some (sent (unat sz - 1) buf (t @ [c]))"
proof -
  define n where "n = unat sz - 1"
  have n: "unat (sz - 1) = n" "n < length buf" "0 < unat sz"
    using assms(1,2) by (auto simp: n_def unat_sub_if' word_less_nat_alt)
  have pos: "unat (of_nat (length t) :: u32) = length t" using assms(3) by (simp add: unat_of_nat_u32)
  have lt: "of_nat (length t) < sz - 1 \<longleftrightarrow> length t < n" by (simp add: word_less_nat_alt pos n(1))
  show ?thesis
  proof (cases "length t < n")
    case True
    then have "drop (length t) buf = buf ! length t # drop (Suc (length t)) buf" using n(2) by (intro Cons_nth_drop_Suc [symmetric]) simp
    then have "(t @ drop (length t) buf)[length t := c] = t @ c # drop (Suc (length t)) buf" by simp
    moreover have "min n (length t) = length t" "min n (Suc (length t)) = Suc (length t)" "take n (t @ [c]) = t @ [c]" using True by auto
    ultimately show ?thesis unfolding out_char_def sent_def n_def [symmetric] prod.case using True n(2) lt pos by simp
  next
    case False
    then show ?thesis unfolding out_char_def sent_def n_def [symmetric] prod.case using lt by (simp add: min_def)
  qed
qed

lemma out_all_sent:
  assumes "0 < sz" "unat sz \<le> length buf" "length (t @ cs) < 4294967296"
  shows "out_all sz cs (sent (unat sz - 1) buf t) = Some (sent (unat sz - 1) buf (t @ cs))"
  using assms(3)
proof (induction cs arbitrary: t)
  case (Cons c cs)
  then show ?case using out_char_sent [OF assms(1,2), of t c] by simp
qed simp

text \<open>Emitting a field piece by piece is emitting its text.\<close>

lemma out_all_append: "out_all sz (a @ b) = (\<lambda>out. out_all sz a out \<bind> out_all sz b)"
  by (induction a) (simp_all add: fun_eq_iff split: bind_split)

lemma directive_step_flags: "directive_step fmt args = Some (d, cv, args', r) \<Longrightarrow> flag_left d \<Longrightarrow> \<not> flag_zero d"
  by (auto simp: directive_step_def parse_directive_def split: bind_splits list.splits)

lemma emit_text:
  assumes "field_text d cv = Some f" and fl: "flag_left d \<Longrightarrow> \<not> flag_zero d"
  shows "emit sz d cv out = out_all sz f out"
proof (cases cv)
  case (Lit x)
  then show ?thesis using assms by (simp add: emit_def field_text_def)
next
  case (Conv x neg num)
  define more where "more \<longleftrightarrow> num \<and> has_prec d \<and> prec d > int (length x)"
  define dg where "dg = (if more then replicate (nat (prec d) - length x) (CHR ''0'') @ x else x)"
  define sg where "sg = (if neg then ''-'' else [])"
  define pad where "pad = nat (width d) - length (sg @ dg)"
  have len: "int (length x) + (if more then prec d - int (length x) else 0) + (if neg then 1 else 0) = int (length (sg @ dg))"
    by (auto simp: dg_def sg_def more_def)
  have zp: "nat (if more then prec d - int (length x) else 0) = length dg - length x"
    by (auto simp: dg_def more_def nat_diff_distrib)
  have dg: "dg = replicate (length dg - length x) (CHR ''0'') @ x" by (auto simp: dg_def)
  have p: "nat (if width d > int (length (sg @ dg)) then width d - int (length (sg @ dg)) else 0) = pad"
    by (auto simp: pad_def)
  let ?f = "if flag_left d then sg @ dg @ replicate pad (CHR '' '')
          else if flag_zero d \<and> \<not> more then sg @ replicate pad (CHR ''0'') @ dg
          else replicate pad (CHR '' '') @ sg @ dg"
  have "field_text d cv = (if int (length (sg @ dg)) > INT_MAX then None else Some ?f)"
    unfolding Conv field_text_def conv.case Let_def more_def sg_def dg_def pad_def by (rule refl)
  then have f: "\<not> int (length (sg @ dg)) > INT_MAX" "f = ?f" using assms(1) by (auto split: if_splits)
  have sg: "(if neg then out_char sz (CHR ''-'') o' else Some o') = out_all sz sg o'" for o'
    by (cases "out_char sz (CHR ''-'') o'") (simp_all add: sg_def)
  have body: "out_all sz (replicate (length dg - length x) (CHR ''0'')) o' \<bind> (\<lambda>o'. out_all sz x o' \<bind> K) = out_all sz dg o' \<bind> K" for o' K
    by (subst (2) dg) (simp only: out_all_append bind_assoc)
  have z: "(if more then False else flag_zero d) \<longleftrightarrow> flag_zero d \<and> \<not> more" by simp
  show ?thesis
    unfolding Conv emit_def conv.case Let_def more_def [symmetric] len zp p sg body z
    using f(1) fl by (cases "flag_zero d \<and> \<not> more") (auto simp: f(2) out_all_append)
qed

lemma emit_sent:
  assumes "0 < sz" "unat sz \<le> length buf" and "field_text d cv = Some f" "length (t @ f) < 4294967296"
    and "flag_left d \<Longrightarrow> \<not> flag_zero d"
  shows "emit sz d cv (sent (unat sz - 1) buf t) = Some (sent (unat sz - 1) buf (t @ f))"
  using out_all_sent [OF assms(1,2,4)] emit_text [OF assms(3,5)] by simp

lemma vsnprintf_loop_sent:
  assumes sz: "0 < sz" "unat sz \<le> length buf"
  shows "format_text fmt args = Some f \<Longrightarrow> length (t @ f) < 4294967296 \<Longrightarrow>
    vsnprintf_loop sz fmt args (sent (unat sz - 1) buf t) = Some (sent (unat sz - 1) buf (t @ f))"
proof (induction fmt args arbitrary: t f rule: format_text.induct)
  case (1 fmt args)
  show ?case
  proof (cases fmt)
    case Nil
    then show ?thesis using "1.prems" by (simp add: format_text.simps)
  next
    case (Cons c r)
    note F = "1.prems"(1) [unfolded Cons, simplified format_text.simps [of "c # r"] list.case]
    note V = vsnprintf_loop.simps [of sz "c # r" args "sent (unat sz - 1) buf t", unfolded list.case]
    consider (stop) "c = NUL" | (lit) "c \<noteq> NUL" "c \<noteq> CHR ''%''" | (dir) "c = CHR ''%''" "r \<noteq> []" "hd r \<noteq> NUL" | (last) "c = CHR ''%''" "r \<noteq> []" "hd r = NUL"
      using F by (auto split: if_splits)
    then show ?thesis
    proof cases
      case stop
      then show ?thesis using F V Cons by simp
    next
      case last
      then show ?thesis using F V Cons by simp
    next
      case lit
      then obtain g where g: "format_text r args = Some g" "f = c # g" using F by auto
      then show ?thesis
        using lit V Cons "1.IH"(1) [OF Cons lit g(1), of "t @ [c]"] "1.prems"(2) out_char_sent [OF sz, of t c] by simp
    next
      case dir
      then obtain d cv args' r' h g where st: "directive_step r args = Some (d, cv, args', r')" "field_text d cv = Some h"
        "format_text r' args' = Some g" "f = h @ g"
        using F by (auto split: option.splits)
      have "vsnprintf_loop sz r' args' (sent (unat sz - 1) buf (t @ h)) = Some (sent (unat sz - 1) buf ((t @ h) @ g))"
        using "1.IH"(2) [OF Cons] dir st "1.prems"(2) by auto
      then show ?thesis using dir V Cons st emit_sent [OF sz st(2), of t] directive_step_flags [OF st(1)] "1.prems"(2) by simp
    qed
  qed
qed

text \<open>The buffer at the end: as much of the text as fits, the terminator, and what was there before.\<close>

definition clipped :: "string \<Rightarrow> u32 \<Rightarrow> string \<Rightarrow> string" where
  "clipped buf sz t = take (unat sz - 1) t @ NUL # drop (Suc (min (unat sz - 1) (length t))) buf"

lemma vsnprintf_text:
  assumes sz: "0 < sz" "unat sz \<le> length buf" and t: "format_text fmt args = Some t" "int (length t) \<le> INT_MAX"
  shows "vsnprintf buf sz fmt args = Some (int (length t), clipped buf sz t)"
proof -
  define n where "n = unat sz - 1"
  define k where "k = min n (length t)"
  have n: "unat sz = Suc n" "n < length buf" using sz by (auto simp: n_def word_less_nat_alt)
  have start: "sent n buf [] = (buf, 0)" by (simp add: sent_def)
  have loop: "vsnprintf_loop sz fmt args (buf, 0) = Some (take n t @ drop k buf, of_nat (length t))"
    using vsnprintf_loop_sent [OF sz t(1), of "[]"] t(2) unfolding n_def [symmetric] start by (simp add: sent_def k_def)
  have pos: "unat (of_nat (length t) :: u32) = length t" using t(2) by (simp add: unat_of_nat_u32)
  have one: "unat (sz - 1) = n" using n(1) by (simp add: unat_sub_if')
  have e: "unat (if of_nat (length t) < sz then of_nat (length t) else sz - 1) = k"
    using n(1) by (auto simp: word_less_nat_alt pos one k_def)
  have lk: "length (take n t) = k" "k < length buf" using n(2) by (simp_all add: k_def)
  have "drop k buf = buf ! k # drop (Suc k) buf" using lk(2) by (rule Cons_nth_drop_Suc [symmetric])
  then have "(take n t @ drop k buf)[k := NUL] = take n t @ NUL # drop (Suc k) buf" 
    using list_update_length [of "take n t" "buf ! k" "drop (Suc k) buf" NUL] unfolding lk(1) by simp
  moreover have "sint (of_nat (length t) :: u32) = int (length t)" using t(2) by (simp add: sint_of_nat_small)
  ultimately show ?thesis
    using loop sz(1) lk by (simp add: vsnprintf_def Let_def e clipped_def n(1) k_def)
qed

section \<open>Agreement with the kernel\<close>

text \<open>The formats made of plain characters and of directives without flags that both libraries know.\<close>

definition shared_conv :: "char \<Rightarrow> bool" where
  "shared_conv c \<longleftrightarrow> c \<in> set ''diuxXsp%''"

fun shared_format :: "string \<Rightarrow> bool" where
  "shared_format [] \<longleftrightarrow> True"
| "shared_format (c # fmt) \<longleftrightarrow>
     (if c = CHR ''%'' then (case fmt of [] \<Rightarrow> False | f # r \<Rightarrow> shared_conv f \<and> shared_format r)
      else c \<noteq> NUL \<and> shared_format fmt)"

definition c_args :: "va list \<Rightarrow> bool" where
  "c_args args \<longleftrightarrow> (\<forall>s. VStr (Some s) \<in> set args \<longrightarrow> NUL \<notin> set s \<and> int (length s) \<le> INT_MAX)"

abbreviation no_flags :: directive where
  "no_flags \<equiv> \<lparr>flag_left = False, flag_zero = False, width = 0, has_prec = False, prec = 0\<rparr>"

lemma parse_shared: "shared_conv c \<Longrightarrow> parse_directive (c # r) = Some (no_flags, c, r)"
proof -
  assume c: "shared_conv c"
  have "\<forall>c \<in> set ''diuxXsp%''. c \<noteq> CHR ''-'' \<and> c \<noteq> CHR ''0'' \<and> c \<noteq> CHR ''.'' \<and> c \<noteq> CHR ''l'' \<and> \<not> is_digit c" by code_simp
  with c have "c \<noteq> CHR ''-''" "c \<noteq> CHR ''0''" "c \<noteq> CHR ''.''" "c \<noteq> CHR ''l''" "\<not> is_digit c" unfolding shared_conv_def by blast+
  then show ?thesis by (simp add: parse_directive_def parse_prec_def parse_length_def)
qed

lemma utoa_u_eq: "utoa_u = utoa"
  by (simp add: fun_eq_iff utoa_u_def utoa_def)

lemma utoa_short: "base = 10 \<or> base = 16 \<Longrightarrow> \<exists>t. utoa v base = Some t \<and> length t \<le> 10"
  using utoa10.length_print [of 10 v] utoa16.length_print [of 8 v] utoa_digits [of base v] by auto

lemma itoa_utoa: "itoa v 10 = map_option ((@) (if sint v < 0 then ''-'' else [])) (utoa (if sint v < 0 then - v else v) 10)"
  by (simp add: itoa_decimal utoa_digits unat_sint_abs)

lemma field_no_flags:
  "length t \<le> 100 \<or> \<not> neg \<and> int (length t) \<le> INT_MAX \<Longrightarrow>
   field_text no_flags (Conv t neg num) = Some ((if neg then ''-'' else []) @ t)"
  by (auto simp: field_text_def)

lemma convert_shared:
  assumes "shared_conv c" "c_args args" "kprintf_spec c args = Some (t, args')"
  shows "\<exists>cv. convert no_flags c args = Some (cv, args') \<and> field_text no_flags cv = Some t \<and> c_args args'"
proof -
  have len: "length (upcase_hex u) = length u" for u by (simp add: upcase_hex_def)
  consider (num) "c \<in> set ''diuxXp''" | (str) "c = CHR ''s''" | (pct) "c = CHR ''%''" using assms(1) by (auto simp: shared_conv_def)
  then show ?thesis
  proof cases
    case num
    then consider "c = CHR ''d''" | "c = CHR ''i''" | "c = CHR ''u''" | "c = CHR ''x''" | "c = CHR ''X''" | "c = CHR ''p''" by auto
    note spec = this
    then obtain v where v: "args = VInt v # args'"
      using assms(3) by cases (auto split: list.splits va.splits)
    obtain a where a: "utoa (if sint v < 0 then - v else v) 10 = Some a" "length a \<le> 10"
      using utoa_short [of 10 "if sint v < 0 then - v else v"] by blast
    obtain b where b: "utoa v 10 = Some b" "length b \<le> 10" using utoa_short [of 10 v] by blast
    obtain h where h: "utoa v 16 = Some h" "length h \<le> 10" using utoa_short [of 16 v] by blast
    have ca: "c_args args'" using assms(2) unfolding c_args_def v by simp
    note cv = v convert_def utoa_u_eq
    from spec show ?thesis
    proof cases
      case 1
      then show ?thesis using assms(3) ca a(1) field_no_flags [of a "sint v < 0" True] a(2) by (simp add: cv itoa_utoa)
    next
      case 2
      then show ?thesis using assms(3) ca a(1) field_no_flags [of a "sint v < 0" True] a(2) by (simp add: cv itoa_utoa)
    next
      case 3
      then show ?thesis using assms(3) ca b field_no_flags [of b False True] by (simp add: cv)
    next
      case 4
      then show ?thesis using assms(3) ca h field_no_flags [of h False True] by (simp add: cv)
    next
      case 5
      then show ?thesis using assms(3) ca h field_no_flags [of "upcase_hex h" False True] len [of h] by (simp add: cv)
    next
      case 6
      then show ?thesis using assms(3) ca h field_no_flags [of "''0x'' @ h" False False] by (auto simp: cv)
    qed
  next
    case str
    then obtain s where s: "args = VStr s # args'" "t = (case s of None \<Rightarrow> ''(null)'' | Some x \<Rightarrow> x)"
      using assms(3) by (auto split: list.splits va.splits option.splits)
    have t: "NUL \<notin> set t" "int (length t) \<le> INT_MAX" and args': "c_args args'"
      using s assms(2) by (auto simp: c_args_def split: option.splits)
    have "cstr t = t" using t(1) unfolding cstr_def takeWhile_eq_all_conv by metis
    then have "str_arg s = Some t" using s(2) t(2) by (cases s) (simp_all add: str_arg_def)
    then show ?thesis using str s(1) t(2) args' by (simp add: convert_def field_no_flags)
  next
    case pct
    then show ?thesis using assms(2,3) by (simp add: convert_def field_text_def)
  qed
qed

lemma format_text_kprintf:
  assumes "shared_format fmt" "c_args args" "kprintf fmt args = Some t"
  shows "format_text (fmt @ NUL # r) args = Some t"
  using assms
proof (induction fmt args arbitrary: t rule: kprintf.induct)
  case (1 args)
  then show ?case by (simp add: format_text.simps)
next
  case (2 c fmt args)
  show ?case
  proof (cases "c = CHR ''%''")
    case False
    then show ?thesis using 2 by (auto simp: format_text.simps [of "c # _"])
  next
    case True
    then obtain f fmt' where f: "fmt = f # fmt'" "shared_conv f" "shared_format fmt'" using "2.prems"(1) by (auto split: list.splits)
    then obtain u args' v where u: "kprintf_spec f args = Some (u, args')" "kprintf fmt' args' = Some v" "t = u @ v"
      using "2.prems"(3) True by (auto split: option.splits)
    obtain cv where cv: "convert no_flags f args = Some (cv, args')" "field_text no_flags cv = Some u" "c_args args'"
      using convert_shared [OF f(2) "2.prems"(2) u(1)] by blast
    have "format_text (fmt' @ NUL # r) args' = Some v"
      using "2.IH"(1) [OF True f(1) u(1) refl] f(3) cv(3) u(2) by simp
    moreover have "f \<noteq> NUL" using f(2) by (auto simp: shared_conv_def)
    ultimately show ?thesis
      using True f(1) cv u(3) parse_shared [OF f(2)] by (simp add: format_text.simps [of "_ # _"] directive_step_def)
  qed
qed

section \<open>strncpy\<close>

lemma strncpy_u_pad_eq:
  "strncpy_u_pad dst n = (if n \<le> length dst then Some (replicate n NUL @ drop n dst) else None)"
  by (induction dst n rule: strncpy_u_pad.induct) auto

text \<open>
  When the source is shorter than \<open>n\<close>, \<^verbatim>\<open>strncpy\<close> writes \<open>n + 1\<close> characters, because the loop that copies the terminator leaves
  without counting it: a destination of exactly \<open>n\<close> characters is overrun.
\<close>

lemma strncpy_u_short:
  assumes "is_cstr src" "length (cstr src) < n"
  shows "strncpy_u dst src n =
    (if n < length dst then Some (cstr src @ replicate (Suc n - length (cstr src)) NUL @ drop (Suc n) dst) else None)"
  using assms
proof (induction dst src n rule: strncpy_u.induct)
  case (2 d dst c src n)
  show ?case
  proof (cases "c = NUL")
    case True
    then show ?thesis by (simp add: strncpy_u_pad_eq cstr_def)
  next
    case False
    then show ?thesis using 2 by (auto simp: is_cstr_def cstr_def)
  qed
qed (auto simp: is_cstr_def)

section \<open>Where the formatter leaves its buffers\<close>

text \<open>With a size of 0, \<^verbatim>\<open>size - 1\<close> is the largest unsigned integer, so the characters are stored although there is no room for any.\<close>

lemma vsnprintf_size_0: "c \<noteq> NUL \<Longrightarrow> c \<noteq> CHR ''%'' \<Longrightarrow> vsnprintf [] 0 (c # fmt) args = None"
  using word_gt_0 [of "- 1 :: u32"] by (simp add: vsnprintf_def vsnprintf_loop.simps [of _ "_ # _"] out_char_def)

text \<open>A format that ends inside a directive is read past its terminator.\<close>

lemma vsnprintf_open_directive: "vsnprintf buf sz (''%5'' @ [NUL]) args = None"
proof -
  have "directive_step (''5'' @ [NUL]) args =
    Some (\<lparr>flag_left = False, flag_zero = False, width = 5, has_prec = False, prec = 0\<rparr>, Lit [CHR ''%'', NUL], args, [])"
    by (simp add: directive_step_def parse_directive_def parse_prec_def parse_length_def is_digit_def convert_def)
  then show ?thesis
    by (simp add: vsnprintf_def vsnprintf_loop.simps [of _ "_ # _"] vsnprintf_loop.simps [of _ "[]"] split: option.splits)
qed

section \<open>Properties\<close>

text \<open>(C28) The user library's \<^verbatim>\<open>vsnprintf\<close>, which stores character by character, is equivalent to building the whole text first: in a buffer
  of at least \<^verbatim>\<open>size\<close> characters, with \<^verbatim>\<open>size\<close> positive, it leaves the first \<^verbatim>\<open>size - 1\<close> characters of that text and a terminator, touches nothing behind, and returns the
  length of the whole text.\<close>

theorem vsnprintf_clips:
  assumes "0 < sz" "unat sz \<le> length buf" "format_text fmt args = Some t" "int (length t) \<le> INT_MAX"
  shows "vsnprintf buf sz fmt args = Some (int (length t), take (unat sz - 1) t @ NUL # drop (Suc (min (unat sz - 1) (length t))) buf)"
  using vsnprintf_text [OF assms] by (simp add: clipped_def)

theorem vsnprintf_clips_witness:
  "vsnprintf ''############'' 8 (''[%05d|%-3s]'' @ [NUL]) [VInt (- 42), VStr (Some ''ok'')] =
     Some (11, ''[-0042|'' @ [NUL] @ ''####'')"
proof -
  have "format_text (''[%05d|%-3s]'' @ [NUL]) [VInt (- 42), VStr (Some ''ok'')] = Some ''[-0042|ok ]''" by code_simp
  from vsnprintf_clips [OF _ _ this, of 8 "''############''"] show ?thesis by (simp add: word_less_nat_alt)
qed

text \<open>(C29) User and kernel printing agree: on formats of plain characters and of the directives \<^verbatim>\<open>d i u x X s p %\<close> without flags, \<^verbatim>\<open>vsnprintf\<close> of the
  user library leaves the text that the kernel's \<^verbatim>\<open>kprintf\<close> prints for the same arguments, cut to the buffer.\<close>

theorem vsnprintf_agrees_kprintf:
  assumes "shared_format fmt" "c_args args" "kprintf fmt args = Some t" "int (length t) \<le> INT_MAX"
    and "0 < sz" "unat sz \<le> length buf"
  shows "vsnprintf buf sz (fmt @ NUL # r) args =
    Some (int (length t), take (unat sz - 1) t @ NUL # drop (Suc (min (unat sz - 1) (length t))) buf)"
  using vsnprintf_text [OF assms(5,6) format_text_kprintf [OF assms(1-3)] assms(4)] by (simp add: clipped_def)

theorem vsnprintf_agrees_kprintf_witness:
  "kprintf ''pid %d at %p'' [VInt (- 7), VInt 48] = Some ''pid -7 at 0x30'' \<and>
   vsnprintf ''################'' 10 (''pid %d at %p'' @ [NUL]) [VInt (- 7), VInt 48] = Some (14, ''pid -7 at'' @ [NUL] @ ''######'')"
proof -
  have k: "kprintf ''pid %d at %p'' [VInt (- 7), VInt 48] = Some ''pid -7 at 0x30''" by code_simp
  moreover have "shared_format ''pid %d at %p''" "c_args [VInt (- 7), VInt 48]" by (code_simp, simp add: c_args_def)
  ultimately show ?thesis
    using vsnprintf_agrees_kprintf [OF _ _ k, of 10 "''################''" "[]"] by (simp add: word_less_nat_alt)
qed

end
