(* ===== verification/Spec2Isabelle.thy ===== *)
theory Spec2Isabelle
  imports ApPa_Prelude Digits Klibc_String Klibc_Stdio Screen Pmm Kmalloc Descriptors Interrupts
    Address_Spaces Task_Entry Klog_Props Timer Filesystem Elf_Args Libc_Props
begin

text \<open>
  Verification development of ApPa, a bare-metal operating system for 32-bit x86 written in C.

  \<^bold>\<open>The program.\<close>  The boot loader enters \<^verbatim>\<open>kernel_main\<close>, which sets up segments and interrupts (\<^verbatim>\<open>kernel/arch\<close>), memory
  (\<^verbatim>\<open>kernel/mem\<close>: frames, paging, heap), the log and the timer (\<^verbatim>\<open>kernel/sys\<close>), tasks and the scheduler (\<^verbatim>\<open>kernel/task\<close>) and the
  file system (\<^verbatim>\<open>fs\<close>) on a block device.  The shell starts programs from files through the loader (\<^verbatim>\<open>kernel/exec\<close>); a program gets an
  address space cloned from the kernel's and a task that the timer interrupt schedules round robin.  Kernel messages go to the VGA
  console and the serial line (\<^verbatim>\<open>drivers\<close>) and to a circular log that can be stored as a file.

  \<^bold>\<open>Representation.\<close>  Machine integers are words of their width, so additions wrap as in C.  Physical memory is a function from
  32-bit addresses to bytes (\<open>pmem\<close>, theory \<open>Phys_Mem\<close>), and page tables, stacks, the RAM disk and user pages live in it; the
  kernel heap is a function from word addresses to words.  A C string is a list of characters up to the end of its object; reading past
  the end, a null dereference and a loop that does not end are the outer \<open>None\<close> of an option.  Records are the structures of the source,
  and an operation takes the state and returns the new one.  Code that is not C (\<^verbatim>\<open>task_switch\<close>, \<^verbatim>\<open>iret\<close>) is modelled by its effect on
  registers and stack; the values read from ports are arguments, the values written are lists.

  \<^bold>\<open>Theories.\<close>
  \<^item> \<open>ApPa_Prelude\<close>: word types, conversions between words and naturals (collection \<open>word_unat\<close>), the search of a loop with an early
    exit.  \<open>Digits\<close>: numerals in a base, and the locale of a numeral printer, which every printing routine interprets.
  \<^item> \<open>Klibc_String\<close>, \<open>Klibc_Stdio\<close>: \<^verbatim>\<open>klibc/string.c\<close> and \<^verbatim>\<open>klibc/stdio.c\<close> (\<^verbatim>\<open>utoa\<close>, \<^verbatim>\<open>itoa\<close>, \<^verbatim>\<open>kprintf\<close>).
  \<^item> \<open>Screen\<close>: \<^verbatim>\<open>drivers/screen.c\<close> with video memory and cursor registers; the console never writes outside the text buffer.
  \<^item> \<open>Pmm\<close>: \<^verbatim>\<open>kernel/mem/pmm.c\<close>.  The bitmap represents the set of used frames; allocation takes the lowest free frame or run.
  \<^item> \<open>Kmalloc\<close>: \<^verbatim>\<open>kernel/mem/kmalloc.c\<close>.  The chain of headers represents a list of blocks; allocation is best fit, live blocks
    are disjoint, freeing coalesces.
  \<^item> \<open>Descriptors\<close>, \<open>Interrupts\<close>: GDT, TSS, IDT, exception dispatch, PIC, PIT, serial initialisation.  The segments are
    read back the way the processor decodes them.
  \<^item> \<open>Paging\<close>, \<open>Paging_Props\<close>, \<open>Address_Spaces\<close>: \<^verbatim>\<open>kernel/mem/paging.c\<close> against \<open>walk\<close>, the translation the processor performs.
    \<open>spaces_inv\<close> says that the directories of all processes own disjoint pages; every operation keeps it, and none changes the
    translation of another process or of the kernel.
  \<^item> \<open>Sched\<close>, \<open>Sched_Props\<close>: \<^verbatim>\<open>sched.c\<close>, \<^verbatim>\<open>switch.asm\<close>, \<^verbatim>\<open>umode.asm\<close>.  The circular queue of control blocks refines a list; a ready task
    runs after a bounded number of timer ticks; a switched-out task resumes with its registers.
  \<^item> \<open>Task\<close>, \<open>Task_Props\<close>, \<open>Task_Steps\<close>, \<open>Task_Entry\<close>: \<^verbatim>\<open>task.c\<close>.  The inductive relation \<open>os_step\<close> interleaves all operations on tasks; its
    invariant holds in every reachable state, every operation returns, reaping frees exactly the dead, and a new task starts at its
    entry point, a user task in ring 3.
  \<^item> \<open>Klog\<close>, \<open>Klog_Props\<close>: \<^verbatim>\<open>klog.c\<close>.  The circular log refines the list of the last 256 messages; the formatter
    returns its text or the fault it commits.
  \<^item> \<open>Timer\<close>: \<^verbatim>\<open>timer.c\<close>.
  \<^item> \<open>Block_Dev\<close>: \<^verbatim>\<open>fs/block.h\<close> as the locale \<open>block_device\<close> and \<^verbatim>\<open>fs/ramdisk.c\<close> as its interpretation.
  \<^item> \<open>Simplefs\<close>, \<open>Fs_Layout\<close>, \<open>Fs_Alloc\<close>, \<open>Simplefs_Props\<close>, \<open>Simplefs_Ops\<close>, \<open>Simplefs_Delete\<close>, \<open>Filesystem\<close>: \<^verbatim>\<open>fs/simplefs.c\<close>.  The disk blocks
    refine a map from names to directories and file contents; creating, writing, reading, deleting, formatting and mounting are proved once in
    the locale and hold for the RAM disk.  \<open>Filesystem\<close> adds \<^verbatim>\<open>klog_flush_to_file\<close>.
  \<^item> \<open>Elf\<close>, \<open>Elf_Props\<close>, \<open>Elf_Args\<close>: \<^verbatim>\<open>kernel/exec/elf.c\<close>.  The bytes a loaded process reads are those of its file's segments, no
    other memory in use changes, and the program finds its arguments on its stack.
  \<^item> \<open>Libc\<close>, \<open>Libc_Props\<close>: \<^verbatim>\<open>libc/string.c\<close> and \<^verbatim>\<open>libc/stdio.c\<close>, linked into user programs.  \<^verbatim>\<open>vsnprintf\<close> leaves the text of a reference
    formatter cut to its buffer, which for plain directives is the text \<^verbatim>\<open>kprintf\<close> prints.

  \<^bold>\<open>Bounds.\<close>  The loops that may not end on a corrupt structure (the heap scan, the walks of the ready queue) are partial functions
  without fuel, and that they return is proved from the invariants; all other loops are structural recursions over index lists of the length
  the source gives.  The machine has 4096 frames (16 MB), 64 tasks, 32 directory entries and at most 1024 data blocks, as in the source.

  \<^bold>\<open>Defects.\<close>  Some theorems show what the code does outside its intended inputs: a heap request near 4 GB gives a block of size 0, the range
  check of the RAM disk wraps, the log formatter writes one character past its buffer, and in the user
  library \<^verbatim>\<open>strncpy\<close> writes one character too many and \<^verbatim>\<open>vsnprintf\<close> stores characters with a size of 0 and reads past an unfinished directive.

  \<^bold>\<open>Not modelled.\<close>
  \<^item> Boot sector, stage 2 and the assembly stubs other than the context switch: they run before or around the C code and only move registers.
  \<^item> The TLB (\<^verbatim>\<open>invlpg\<close>, CR3 reload has no further effect), port timing, the wait loops on device status.
  \<^item> \<^verbatim>\<open>drivers/ata.c\<close>: its behaviour is that of the disk controller; \<open>block_device\<close> states what the file system needs of it.
  \<^item> System call dispatch, the keyboard handler, the shell, \<^verbatim>\<open>page_fault_handler\<close> and \<^verbatim>\<open>kernel_main\<close>: glue over the modelled
    operations.
  \<^item> Interrupts inside a call: the calls of \<open>os_step\<close> are atomic, although task creation and part of reaping run with interrupts enabled.
  \<^item> \<^verbatim>\<open>libc/syscall.c\<close> and \<^verbatim>\<open>libc/crt0.c\<close>: inline assembly around the system call instruction and the program entry; user programs themselves.
  \<^item> Tests and tools.
\<close>

end
